(* ===== verification/Kernel_Prelude.thy ===== *)
theory Kernel_Prelude
  imports Main "HOL-Library.Word"
begin

text \<open>
  The vocabulary every component theory shares.

  \<^item> The C integer types of \<open>kernel/types.h\<close> as machine words; unsigned arithmetic wraps as in C.
  \<^item> Kernel code as functions \<open>'s \<Rightarrow> ('a \<times> 's) result\<close>: a call either returns a value and the new
    state (\<open>Ok\<close>), stops the machine (\<open>Panic\<close>, the C function \<open>panic\<close> never returns), finds that it has
    to sleep until another process changes the state (\<open>Blocked\<close>), or never leaves a loop
    (\<open>Diverges\<close>).
  \<^item> The total-correctness predicate \<open>wp\<close>: the call returns, and its result satisfies the postcondition.
  \<^item> Little-endian loads and stores, used for every structure the kernel overlays on raw bytes.
\<close>

unbundle bit_operations_syntax

named_theorems wp_simps \<open>equations for weakest preconditions of kernel code\<close>
named_theorems km_defs \<open>definitions of the combinators of kernel code\<close>

section \<open>Machine integers\<close>

type_synonym u8 = "8 word"
type_synonym u16 = "16 word"
type_synonym u32 = "32 word"
type_synonym u64 = "64 word"

text \<open>Words read as signed numbers.\<close>

lemma uint_small: "0 \<le> k \<Longrightarrow> k < 2 ^ LENGTH('a) \<Longrightarrow> uint (word_of_int k :: 'a::len word) = k"
  by (simp add: uint_word_of_int)

lemma unat_uminus:
  fixes x :: "'a::len word"
  assumes "sint x < 0"
  shows "int (unat (- x)) = - sint x"
proof -
  have "(2 :: int) ^ (LENGTH('a) - 1) < 2 ^ LENGTH('a)" by (rule power_strict_increasing) auto
  moreover have "- (2 ^ (LENGTH('a) - 1)) \<le> sint x" by (rule sint_ge)
  ultimately have "uint (word_of_int (- sint x) :: 'a word) = - sint x"
    using assms by (intro uint_small) linarith+
  moreover have "word_of_int (- sint x) = - x" by simp
  ultimately show ?thesis by (simp only: of_nat_unat)
qed

lemma unat_sint:
  fixes x :: "'a::len word"
  assumes "0 \<le> sint x"
  shows "int (unat x) = sint x"
proof -
  have "(2 :: int) ^ (LENGTH('a) - 1) < 2 ^ LENGTH('a)" by (rule power_strict_increasing) auto
  moreover have "sint x < 2 ^ (LENGTH('a) - 1)" by (rule sint_lt)
  ultimately have "uint (word_of_int (sint x) :: 'a word) = sint x"
    using assms by (intro uint_small) linarith+
  then show ?thesis by simp
qed

lemma unat_add_uminus: "x \<noteq> 0 \<Longrightarrow> unat (x :: u64) + unat (- x) = 2 ^ 64"
proof -
  assume "x \<noteq> 0"
  then have "0 < unat x" by (simp add: unat_gt_0)
  then have "0 < uint x" by (simp only: uint_nat of_nat_0_less_iff)
  moreover have "uint x < 2 ^ 64" using unsigned_less [where ?'a = int, of x] by simp
  ultimately have "uint (- x) = 2 ^ 64 - uint x"
    by (simp add: uint_word_ariths zmod_zminus1_eq_if)
  then have "int (unat x + unat (- x)) = int (2 ^ 64)" by simp
  then show ?thesis by (simp only: of_nat_eq_iff)
qed

section \<open>Kernel code\<close>

datatype 'a result = Ok 'a | Panic string | Blocked | Diverges

type_synonym ('s, 'a) km = "'s \<Rightarrow> ('a \<times> 's) result"

definition mret :: "'a \<Rightarrow> ('s, 'a) km" where
  [km_defs]: "mret x = (\<lambda>s. Ok (x, s))"

definition mbind :: "('s, 'a) km \<Rightarrow> ('a \<Rightarrow> ('s, 'b) km) \<Rightarrow> ('s, 'b) km" where
  [km_defs]: "mbind m f = (\<lambda>s. case m s of
      Ok (x, s') \<Rightarrow> f x s'
    | Panic e \<Rightarrow> Panic e
    | Blocked \<Rightarrow> Blocked
    | Diverges \<Rightarrow> Diverges)"

definition mget :: "('s \<Rightarrow> 'a) \<Rightarrow> ('s, 'a) km" where
  [km_defs]: "mget f = (\<lambda>s. Ok (f s, s))"

definition mmod :: "('s \<Rightarrow> 's) \<Rightarrow> ('s, unit) km" where
  [km_defs]: "mmod f = (\<lambda>s. Ok ((), f s))"

definition mpanic :: "string \<Rightarrow> ('s, 'a) km" where
  [km_defs]: "mpanic e = (\<lambda>s. Panic e)"

definition mblock :: "('s, 'a) km" where
  [km_defs]: "mblock = (\<lambda>s. Blocked)"

definition mdiverge :: "('s, 'a) km" where
  [km_defs]: "mdiverge = (\<lambda>s. Diverges)"

text \<open>\<open>if (c) panic(e);\<close>\<close>

definition mpanic_if :: "bool \<Rightarrow> string \<Rightarrow> ('s, unit) km" where
  [km_defs]: "mpanic_if c e = (if c then mpanic e else mret ())"

definition mwhen :: "bool \<Rightarrow> ('s, unit) km \<Rightarrow> ('s, unit) km" where
  [km_defs]: "mwhen c m = (if c then m else mret ())"

text \<open>A call on one component of a larger state; the other components are untouched.\<close>

definition mzoom :: "('s \<Rightarrow> 't) \<Rightarrow> (('t \<Rightarrow> 't) \<Rightarrow> 's \<Rightarrow> 's) \<Rightarrow> ('t, 'a) km \<Rightarrow> ('s, 'a) km" where
  [km_defs]: "mzoom get upd m = (\<lambda>s. case m (get s) of
      Ok (x, t) \<Rightarrow> Ok (x, upd (\<lambda>_. t) s)
    | Panic e \<Rightarrow> Panic e
    | Blocked \<Rightarrow> Blocked
    | Diverges \<Rightarrow> Diverges)"

text \<open>A counted loop without early exit: \<open>for (i = ...) body(i)\<close> over the listed indices.\<close>

primrec mfor :: "'i list \<Rightarrow> ('i \<Rightarrow> ('s, unit) km) \<Rightarrow> ('s, unit) km" where
  "mfor [] body = mret ()"
| "mfor (i # is) body = mbind (body i) (\<lambda>_. mfor is body)"

section \<open>Total correctness\<close>

definition wp :: "('s, 'a) km \<Rightarrow> ('a \<Rightarrow> 's \<Rightarrow> bool) \<Rightarrow> 's \<Rightarrow> bool" where
  "wp m Q s = (case m s of Ok (x, s') \<Rightarrow> Q x s' | _ \<Rightarrow> False)"

lemma wp_mret [wp_simps]: "wp (mret x) Q s = Q x s"
  by (simp add: wp_def mret_def)

lemma wp_mbind [wp_simps]: "wp (mbind m f) Q s = wp m (\<lambda>x. wp (f x) Q) s"
  by (auto simp: wp_def mbind_def split: result.splits prod.splits)

lemma wp_mget [wp_simps]: "wp (mget f) Q s = Q (f s) s"
  by (simp add: wp_def mget_def)

lemma wp_mmod [wp_simps]: "wp (mmod f) Q s = Q () (f s)"
  by (simp add: wp_def mmod_def)

lemma wp_mpanic [wp_simps]: "wp (mpanic e) Q s = False"
  by (simp add: wp_def mpanic_def)

lemma wp_mblock [wp_simps]: "wp mblock Q s = False"
  by (simp add: wp_def mblock_def)

lemma wp_mdiverge [wp_simps]: "wp mdiverge Q s = False"
  by (simp add: wp_def mdiverge_def)

lemma wp_mpanic_if [wp_simps]: "wp (mpanic_if c e) Q s = (\<not> c \<and> Q () s)"
  by (simp add: mpanic_if_def wp_simps)

lemma wp_mwhen [wp_simps]: "wp (mwhen c m) Q s = (if c then wp m Q s else Q () s)"
  by (simp add: mwhen_def wp_simps)

lemma wp_mzoom [wp_simps]: "wp (mzoom get upd m) Q s = wp m (\<lambda>x t. Q x (upd (\<lambda>_. t) s)) (get s)"
  by (auto simp: wp_def mzoom_def split: result.splits prod.splits)

lemma wp_if [wp_simps]: "wp (if c then m else m') Q s = (if c then wp m Q s else wp m' Q s)"
  by simp

lemma wp_cong_post: "wp m Q s \<Longrightarrow> (\<And>x t. Q x t \<Longrightarrow> Q' x t) \<Longrightarrow> wp m Q' s"
  by (auto simp: wp_def split: result.splits)

lemma wp_iff_Ok: "wp m Q s \<longleftrightarrow> (\<exists>x t. m s = Ok (x, t) \<and> Q x t)"
  by (auto simp: wp_def split: result.splits)

lemma wp_seq:
  "wp m P s \<Longrightarrow> (\<And>x t. P x t \<Longrightarrow> wp (f x) Q t) \<Longrightarrow> wp (mbind m f) Q s"
  unfolding wp_mbind by (rule wp_cong_post)

lemma wpD: "wp m Q s \<Longrightarrow> m s = Ok (x, t) \<Longrightarrow> Q x t"
  by (simp add: wp_def)

lemma wp_OkI: "m s = Ok (x, t) \<Longrightarrow> Q x t \<Longrightarrow> wp m Q s"
  by (simp add: wp_def)

lemma mbind_Ok_iff:
  "mbind m f s = Ok r \<longleftrightarrow> (\<exists>x s'. m s = Ok (x, s') \<and> f x s' = Ok r)"
  by (auto simp: mbind_def split: result.splits)

lemma mbind_Ok: "m s = Ok (x, s') \<Longrightarrow> mbind m f s = f x s'"
  by (simp add: mbind_def)

lemma mbind_assoc: "mbind (mbind m f) g = mbind m (\<lambda>x. mbind (f x) g)"
  by (rule ext) (auto simp: mbind_def split: result.splits)

lemma mret_bind [simp]: "mbind (mret x) f = f x"
  by (rule ext) (simp add: mbind_def mret_def)

lemma mget_bind: "mbind (mget f) g s = g (f s) s"
  by (simp add: mbind_def mget_def)

text \<open>
  The rule for counted loops: an invariant indexed by how many iterations are done.
\<close>

lemma wp_mfor:
  assumes "I 0 s"
    and "\<And>k t. k < length is \<Longrightarrow> I k t \<Longrightarrow> wp (body (is ! k)) (\<lambda>_. I (Suc k)) t"
    and "\<And>t. I (length is) t \<Longrightarrow> Q () t"
  shows "wp (mfor is body) Q s"
  using assms
proof (induction "is" arbitrary: I s)
  case Nil
  then show ?case by (simp add: wp_simps)
next
  case (Cons i "is")
  have step: "wp (body i) (\<lambda>_. I (Suc 0)) s"
    using Cons.prems(2) [of 0 s] Cons.prems(1) by simp
  have rest: "wp (mfor is body) Q t" if "I (Suc 0) t" for t
  proof (rule Cons.IH [where I = "\<lambda>k. I (Suc k)"])
    show "I (Suc 0) t" by (rule that)
    show "\<And>k t. k < length is \<Longrightarrow> I (Suc k) t \<Longrightarrow> wp (body (is ! k)) (\<lambda>_. I (Suc (Suc k))) t"
      using Cons.prems(2) by fastforce
    show "\<And>t. I (Suc (length is)) t \<Longrightarrow> Q () t"
      using Cons.prems(3) by simp
  qed
  show ?case
    by (simp add: wp_simps) (rule wp_cong_post [OF step], rule rest)
qed

lemma mfor_append: "mfor (xs @ ys) body = mbind (mfor xs body) (\<lambda>_. mfor ys body)"
  by (induction xs) (simp_all add: mbind_assoc)

section \<open>Bytes\<close>

type_synonym block = "nat \<Rightarrow> u8"

text \<open>
  A block (or any byte array) is a function from byte offsets; \<open>get32\<close> and \<open>put32\<close> are the
  little-endian accesses the compiler makes for a \<open>uint\<close> or \<open>int\<close> at a byte offset.
\<close>

definition byte_of :: "nat \<Rightarrow> 'a::len word \<Rightarrow> u8" where
  "byte_of k w = ucast (drop_bit (8 * k) w)"

definition get32 :: "nat \<Rightarrow> block \<Rightarrow> u32" where
  "get32 off b =
     ucast (b off) OR push_bit 8 (ucast (b (off + 1)))
     OR push_bit 16 (ucast (b (off + 2))) OR push_bit 24 (ucast (b (off + 3)))"

definition put32 :: "nat \<Rightarrow> u32 \<Rightarrow> block \<Rightarrow> block" where
  "put32 off w b =
     b(off := byte_of 0 w, off + 1 := byte_of 1 w, off + 2 := byte_of 2 w, off + 3 := byte_of 3 w)"

definition get16 :: "nat \<Rightarrow> block \<Rightarrow> u16" where
  "get16 off b = ucast (b off) OR push_bit 8 (ucast (b (off + 1)))"

definition put16 :: "nat \<Rightarrow> u16 \<Rightarrow> block \<Rightarrow> block" where
  "put16 off w b = b(off := byte_of 0 w, off + 1 := byte_of 1 w)"

definition get64 :: "nat \<Rightarrow> block \<Rightarrow> u64" where
  "get64 off b = ucast (get32 off b) OR push_bit 32 (ucast (get32 (off + 4) b))"

definition put64 :: "nat \<Rightarrow> u64 \<Rightarrow> block \<Rightarrow> block" where
  "put64 off w b = put32 (off + 4) (ucast (drop_bit 32 w)) (put32 off (ucast w) b)"

lemma bit_byte_of: "bit (byte_of k w) n \<longleftrightarrow> n < 8 \<and> bit w (8 * k + n)"
  by (auto simp: byte_of_def bit_simps)

lemma get16_put16_same [simp]: "get16 off (put16 off w b) = w"
proof (rule bit_word_eqI)
  fix n assume "n < LENGTH(16)"
  then show "bit (get16 off (put16 off w b)) n = bit w n"
    unfolding get16_def put16_def
    by (simp only: bit_or_iff bit_push_bit_iff bit_ucast_iff) (auto simp: bit_byte_of)
qed

lemma get32_put32_same [simp]: "get32 off (put32 off w b) = w"
proof (rule bit_word_eqI)
  fix n assume "n < LENGTH(32)"
  then consider "n < 8" | "8 \<le> n" "n < 16" | "16 \<le> n" "n < 24" | "24 \<le> n" "n < 32"
    by fastforce
  then show "bit (get32 off (put32 off w b)) n = bit w n"
    unfolding get32_def put32_def
    by cases (auto simp: bit_or_iff bit_push_bit_iff bit_ucast_iff bit_byte_of
        simp del: push_bit_numeral)
qed

lemma get32_put32_other [simp]:
  "off + 4 \<le> off' \<or> off' + 4 \<le> off \<Longrightarrow> get32 off (put32 off' w b) = get32 off b"
  by (auto simp: get32_def put32_def)

lemma get16_put16_other [simp]:
  "off + 2 \<le> off' \<or> off' + 2 \<le> off \<Longrightarrow> get16 off (put16 off' w b) = get16 off b"
  by (auto simp: get16_def put16_def)

lemma get32_put16_other [simp]:
  "off + 4 \<le> off' \<or> off' + 2 \<le> off \<Longrightarrow> get32 off (put16 off' w b) = get32 off b"
  by (auto simp: get32_def put16_def)

lemma get16_put32_other [simp]:
  "off + 2 \<le> off' \<or> off' + 4 \<le> off \<Longrightarrow> get16 off (put32 off' w b) = get16 off b"
  by (auto simp: get16_def put32_def)

lemma put32_apply_other [simp]:
  "k < off \<or> off + 4 \<le> k \<Longrightarrow> put32 off w b k = b k"
  by (auto simp: put32_def)

lemma put16_apply_other [simp]:
  "k < off \<or> off + 2 \<le> k \<Longrightarrow> put16 off w b k = b k"
  by (auto simp: put16_def)

lemma get64_put64_same [simp]: "get64 off (put64 off w b) = w"
proof (rule bit_word_eqI)
  fix n assume "n < LENGTH(64)"
  then show "bit (get64 off (put64 off w b)) n = bit w n"
    unfolding get64_def put64_def
    by (simp only: bit_or_iff bit_push_bit_iff bit_ucast_iff) (auto simp: bit_simps)
qed

lemma get64_put64_other [simp]:
  "off + 8 \<le> off' \<or> off' + 8 \<le> off \<Longrightarrow> get64 off (put64 off' w b) = get64 off b"
  by (auto simp: get64_def put64_def)

lemma get32_zero [simp]: "get32 off (\<lambda>_. 0) = 0"
  by (simp add: get32_def)

lemma get16_zero [simp]: "get16 off (\<lambda>_. 0) = 0"
  by (simp add: get16_def)

lemma get64_zero [simp]: "get64 off (\<lambda>_. 0) = 0"
  by (simp add: get64_def)

end
