(* ===== verification/Sleeplock.thy ===== *)
theory Sleeplock
  imports Kernel_Prelude
begin

text \<open>
  Sleep locks (\<open>kernel/sleeplock.c\<close>): long-term locks held by a process across function calls.

  The spin lock \<open>lk->lk\<close> is taken and dropped inside each function, so each function body is one
  atomic step on the record; \<open>sleep\<close> inside the loop of \<open>acquiresleep\<close> is the outcome \<open>Blocked\<close>.
  The second half lets any number of processes interleave those steps and shows mutual exclusion
  and that no wakeup is lost. It is stated once, for every lock with the same contract, in the
  locale \<open>sleeping_lock\<close>.
\<close>

section \<open>The lock and its operations\<close>

record sleeplock =
  sl_locked :: bool
  sl_pid :: int

definition initsleeplock :: sleeplock where
  "initsleeplock = \<lparr>sl_locked = False, sl_pid = 0\<rparr>"

definition acquiresleep :: "int \<Rightarrow> (sleeplock, unit) km" where
  "acquiresleep me = (\<lambda>lk.
     if sl_locked lk then Blocked
     else Ok ((), lk\<lparr>sl_locked := True, sl_pid := me\<rparr>))"

definition releasesleep :: "(sleeplock, unit) km" where
  "releasesleep = mmod (\<lambda>lk. lk\<lparr>sl_locked := False, sl_pid := 0\<rparr>)"

definition holdingsleep :: "int \<Rightarrow> sleeplock \<Rightarrow> bool" where
  "holdingsleep me lk = (sl_locked lk \<and> sl_pid lk = me)"

lemma acquiresleep_free: "\<not> sl_locked lk \<Longrightarrow> acquiresleep me lk = Ok ((), \<lparr>sl_locked = True, sl_pid = me\<rparr>)"
  by (simp add: acquiresleep_def)

lemma acquiresleep_holding: "acquiresleep me lk = Ok (u, lk') \<Longrightarrow> holdingsleep me lk'"
  by (auto simp: acquiresleep_def holdingsleep_def split: if_splits)

lemma releasesleep_eq: "releasesleep lk = Ok ((), initsleeplock)"
  by (simp add: releasesleep_def mmod_def initsleeplock_def)

section \<open>Processes that share a lock\<close>

text \<open>
  A lock and the processes that use it: who has acquired it and who sleeps on it. The steps are an
  attempt to acquire, which takes the lock or goes to sleep (\<open>sleep\<close> releases the spin lock of the
  structure and changes the state to SLEEPING in one step, as seen by a \<open>wakeup\<close>, which needs that
  spin lock), a release with its \<open>wakeup\<close> of all sleepers, and the wake-up of a single sleeper by
  \<open>kill\<close>. A woken process tries again.
\<close>

record 'l lock_sys =
  ls_lock :: 'l
  ls_inside :: "int set"
  ls_asleep :: "int set"

inductive lock_step ::
  "(int \<Rightarrow> ('l, unit) km) \<Rightarrow> (int \<Rightarrow> ('l, unit) km) \<Rightarrow> 'l lock_sys \<Rightarrow> 'l lock_sys \<Rightarrow> bool"
  for acq rel where
  get: "p \<notin> ls_inside s \<Longrightarrow> p \<notin> ls_asleep s \<Longrightarrow> acq p (ls_lock s) = Ok ((), l) \<Longrightarrow>
    lock_step acq rel s (s\<lparr>ls_lock := l, ls_inside := insert p (ls_inside s)\<rparr>)"
| block: "p \<notin> ls_inside s \<Longrightarrow> p \<notin> ls_asleep s \<Longrightarrow> acq p (ls_lock s) = Blocked \<Longrightarrow>
    lock_step acq rel s (s\<lparr>ls_asleep := insert p (ls_asleep s)\<rparr>)"
| drop: "p \<in> ls_inside s \<Longrightarrow> rel p (ls_lock s) = Ok ((), l) \<Longrightarrow>
    lock_step acq rel s (s\<lparr>ls_lock := l, ls_inside := ls_inside s - {p}, ls_asleep := {}\<rparr>)"
| wake_one: "lock_step acq rel s (s\<lparr>ls_asleep := ls_asleep s - {p}\<rparr>)"

inductive lock_reach ::
  "(int \<Rightarrow> ('l, unit) km) \<Rightarrow> (int \<Rightarrow> ('l, unit) km) \<Rightarrow> 'l lock_sys \<Rightarrow> 'l lock_sys \<Rightarrow> bool"
  for acq rel where
  lock_refl: "lock_reach acq rel s s"
| lock_trans: "lock_reach acq rel s t \<Longrightarrow> lock_step acq rel t u \<Longrightarrow> lock_reach acq rel s u"

text \<open>
  The contract of a lock that processes sleep on: an attempt takes a free lock and records the
  caller, and sleeps on a taken one; the owner's release frees it.
\<close>

locale sleeping_lock =
  fixes acq :: "int \<Rightarrow> ('l, unit) km"
    and rel :: "int \<Rightarrow> ('l, unit) km"
    and taken :: "'l \<Rightarrow> bool"
    and owner :: "'l \<Rightarrow> int"
  assumes acq_free: "\<not> taken l \<Longrightarrow> \<exists>l'. acq p l = Ok ((), l') \<and> taken l' \<and> owner l' = p"
    and acq_taken: "taken l \<Longrightarrow> acq p l = Blocked"
    and rel_owner: "taken l \<Longrightarrow> owner l = p \<Longrightarrow> \<exists>l'. rel p l = Ok ((), l') \<and> \<not> taken l'"
begin

definition lock_ok :: "'l lock_sys \<Rightarrow> bool" where
  "lock_ok s \<longleftrightarrow> (if taken (ls_lock s) then ls_inside s = {owner (ls_lock s)}
     else ls_inside s = {} \<and> ls_asleep s = {})"

lemma step_ok:
  assumes "lock_step acq rel s t" "lock_ok s"
  shows "lock_ok t"
  using assms
proof (induction rule: lock_step.induct)
  case (get p s l)
  then have "\<not> taken (ls_lock s)" using acq_taken [of "ls_lock s" p] by auto
  then show ?case using get acq_free [of "ls_lock s" p] by (auto simp: lock_ok_def)
next
  case (block p s)
  then have "taken (ls_lock s)" using acq_free [of "ls_lock s" p] by auto
  then show ?case using block by (simp add: lock_ok_def)
next
  case (drop p s l)
  then have "taken (ls_lock s)" "owner (ls_lock s) = p" "ls_inside s = {p}"
    by (auto simp: lock_ok_def split: if_splits)
  then show ?case using drop rel_owner [of "ls_lock s" p] by (auto simp: lock_ok_def)
next
  case (wake_one s p)
  then show ?case by (auto simp: lock_ok_def)
qed

lemma reach_ok: "lock_reach acq rel s t \<Longrightarrow> lock_ok s \<Longrightarrow> lock_ok t"
  by (induction rule: lock_reach.induct) (auto intro: step_ok)

text \<open>Mutual exclusion, no lost wake-up, and the holder can always release.\<close>

lemma exclusion:
  assumes "\<not> taken (ls_lock s)" "ls_inside s = {}" "ls_asleep s = {}" "lock_reach acq rel s t"
  shows "p \<in> ls_inside t \<Longrightarrow> q \<in> ls_inside t \<Longrightarrow> p = q"
    and "ls_inside t = {} \<Longrightarrow> ls_asleep t = {} \<and> (\<forall>p. \<exists>l. acq p (ls_lock t) = Ok ((), l))"
    and "p \<in> ls_inside t \<Longrightarrow> \<exists>l. rel p (ls_lock t) = Ok ((), l) \<and> \<not> taken l"
proof -
  have ok: "lock_ok t" using reach_ok [OF assms(4)] assms(1-3) by (simp add: lock_ok_def)
  show "p \<in> ls_inside t \<Longrightarrow> q \<in> ls_inside t \<Longrightarrow> p = q"
    using ok by (auto simp: lock_ok_def split: if_splits)
  show "ls_inside t = {} \<Longrightarrow> ls_asleep t = {} \<and> (\<forall>p. \<exists>l. acq p (ls_lock t) = Ok ((), l))"
    using ok acq_free by (fastforce simp: lock_ok_def split: if_splits)
  show "p \<in> ls_inside t \<Longrightarrow> \<exists>l. rel p (ls_lock t) = Ok ((), l) \<and> \<not> taken l"
    using ok rel_owner by (auto simp: lock_ok_def split: if_splits)
qed

end

interpretation slk: sleeping_lock acquiresleep "\<lambda>_. releasesleep" sl_locked sl_pid
  by unfold_locales (auto simp: acquiresleep_def releasesleep_eq initsleeplock_def)

text \<open>
  C15. Sleep locks: from a free lock that nobody uses, after any interleaving of acquisitions, sleeps,
  releases and wake-ups, at most one process is inside; whenever nobody is inside, nobody sleeps on
  the lock (no wake-up is lost) and any process can take it; and the process inside can release it.
\<close>

theorem sleeplock_correct:
  assumes "ls_lock s = initsleeplock" "ls_inside s = {}" "ls_asleep s = {}"
    and "lock_reach acquiresleep (\<lambda>_. releasesleep) s t"
  shows "(p \<in> ls_inside t \<and> q \<in> ls_inside t \<longrightarrow> p = q)
    \<and> (ls_inside t = {} \<longrightarrow> ls_asleep t = {} \<and> (\<exists>l. acquiresleep p (ls_lock t) = Ok ((), l)))
    \<and> (p \<in> ls_inside t \<longrightarrow> (\<exists>l. releasesleep (ls_lock t) = Ok ((), l) \<and> \<not> sl_locked l))"
  using slk.exclusion [of s t] assms by (auto simp: initsleeplock_def)

definition example_lock_sys :: "sleeplock lock_sys" where
  "example_lock_sys = \<lparr>ls_lock = initsleeplock, ls_inside = {}, ls_asleep = {}\<rparr>"

theorem sleeplock_correct_witness:
  "\<exists>t. lock_reach acquiresleep (\<lambda>_. releasesleep) example_lock_sys t \<and> 4 \<in> ls_inside t \<and> 5 \<notin> ls_inside t \<and> 5 \<in> ls_asleep t"
proof -
  define a where "a = example_lock_sys\<lparr>ls_lock := \<lparr>sl_locked = True, sl_pid = 4\<rparr>, ls_inside := {4}\<rparr>"
  define t where "t = a\<lparr>ls_asleep := {5}\<rparr>"
  have "lock_step acquiresleep (\<lambda>_. releasesleep) example_lock_sys a"
    using get [of 4 example_lock_sys acquiresleep "\<lparr>sl_locked = True, sl_pid = 4\<rparr>" "\<lambda>_. releasesleep"]
    by (simp add: a_def example_lock_sys_def acquiresleep_def initsleeplock_def)
  moreover have "lock_step acquiresleep (\<lambda>_. releasesleep) a t"
    using block [of 5 a acquiresleep "\<lambda>_. releasesleep"] by (simp add: a_def t_def example_lock_sys_def acquiresleep_def)
  ultimately have r: "lock_reach acquiresleep (\<lambda>_. releasesleep) example_lock_sys t"
    by (blast intro: lock_refl lock_trans)
  have "4 \<in> ls_inside t" "5 \<in> ls_asleep t" by (simp_all add: t_def a_def)
  moreover have "5 \<notin> ls_inside t"
    using sleeplock_correct [OF _ _ _ r, of 4 5] \<open>4 \<in> ls_inside t\<close> by (auto simp: example_lock_sys_def)
  ultimately show ?thesis using r by blast
qed

end
