(* ===== verification/Bio.thy ===== *)
theory Bio
  imports Sleeplock
begin

text \<open>
  The buffer cache (\<open>kernel/bio.c\<close>).

  The state is the array \<open>bcache.buf[NBUF]\<close> together with \<open>bcache.head\<close> (index \<open>NBUF\<close> of the same
  function, only its links are used) and the disk behind the driver. The list \<open>prev\<close>/\<open>next\<close> is
  kept as links, as in the C structure. A section between \<open>acquire(&bcache.lock)\<close> and
  \<open>release(&bcache.lock)\<close> is one atomic step. \<open>disk_rw\<close> is the completed transfer
  \<open>virtio_disk_rw\<close> makes between a buffer and the device; every write is also appended to
  \<open>dtrace\<close>, the history of the device, which the crash theorems of the log quantify over.
\<close>

section \<open>State\<close>

definition NBUF :: nat where "NBUF = 30"

record buf =
  b_valid :: bool
  b_dev :: u32
  b_blockno :: u32
  b_lock :: sleeplock
  b_refcnt :: u32
  b_prev :: nat
  b_next :: nat
  b_data :: block

record bio =
  bufs :: "nat \<Rightarrow> buf"
  disk :: "u32 \<Rightarrow> block"
  dtrace :: "(u32 \<times> block) list"

definition zero_buf :: buf where
  "zero_buf = \<lparr>b_valid = False, b_dev = 0, b_blockno = 0, b_lock = initsleeplock, b_refcnt = 0,
     b_prev = 0, b_next = 0, b_data = (\<lambda>_. 0)\<rparr>"

definition upd_buf :: "nat \<Rightarrow> (buf \<Rightarrow> buf) \<Rightarrow> bio \<Rightarrow> bio" where
  "upd_buf i f s = s\<lparr>bufs := (bufs s)(i := f (bufs s i))\<rparr>"

section \<open>Operations\<close>

text \<open>
  \<open>b->next->prev = b->prev; b->prev->next = b->next;\<close> and the four assignments that put \<open>b\<close> right
  after the head.
\<close>

definition list_unlink :: "nat \<Rightarrow> (nat \<Rightarrow> buf) \<Rightarrow> (nat \<Rightarrow> buf)" where
  "list_unlink b f =
     (let n = b_next (f b);
          f1 = f(n := (f n)\<lparr>b_prev := b_prev (f b)\<rparr>);
          p = b_prev (f1 b)
      in f1(p := (f1 p)\<lparr>b_next := b_next (f1 b)\<rparr>))"

definition list_push :: "nat \<Rightarrow> (nat \<Rightarrow> buf) \<Rightarrow> (nat \<Rightarrow> buf)" where
  "list_push b f =
     (let f1 = f(b := (f b)\<lparr>b_next := b_next (f NBUF)\<rparr>);
          f2 = f1(b := (f1 b)\<lparr>b_prev := NBUF\<rparr>);
          n = b_next (f2 NBUF);
          f3 = f2(n := (f2 n)\<lparr>b_prev := b\<rparr>)
      in f3(NBUF := (f3 NBUF)\<lparr>b_next := b\<rparr>))"

definition binit :: "(nat \<Rightarrow> buf) \<Rightarrow> (nat \<Rightarrow> buf)" where
  "binit f =
     fold (\<lambda>b f. list_push b (f(b := (f b)\<lparr>b_lock := initsleeplock\<rparr>))) [0..<NBUF]
       (f(NBUF := (f NBUF)\<lparr>b_prev := NBUF, b_next := NBUF\<rparr>))"

text \<open>
  The two scans of \<open>bget\<close>: follow \<open>link\<close> from \<open>b\<close> until a buffer satisfies \<open>P\<close> or the head is
  reached. \<open>None\<close> as outer result: still not at the head after \<open>fuel\<close> hops.
\<close>

fun scan :: "nat \<Rightarrow> (buf \<Rightarrow> nat) \<Rightarrow> (buf \<Rightarrow> bool) \<Rightarrow> (nat \<Rightarrow> buf) \<Rightarrow> nat \<Rightarrow> nat option option" where
  "scan 0 link P f b = None"
| "scan (Suc fuel) link P f b =
     (if b = NBUF then Some None
      else if P (f b) then Some (Some b)
      else scan fuel link P f (link (f b)))"

definition block_acquire :: "int \<Rightarrow> nat \<Rightarrow> (bio, unit) km" where
  "block_acquire me b =
     mzoom (\<lambda>s. b_lock (bufs s b)) (\<lambda>g. upd_buf b (\<lambda>x. x\<lparr>b_lock := g (b_lock x)\<rparr>)) (acquiresleep me)"

definition bget :: "int \<Rightarrow> u32 \<Rightarrow> u32 \<Rightarrow> (bio, nat) km" where
  "bget me dev blockno = (\<lambda>s.
     case scan (Suc NBUF) b_next (\<lambda>b. b_dev b = dev \<and> b_blockno b = blockno) (bufs s) (b_next (bufs s NBUF)) of
       None \<Rightarrow> Diverges
     | Some (Some b) \<Rightarrow>
         mbind (mmod (upd_buf b (\<lambda>x. x\<lparr>b_refcnt := b_refcnt x + 1\<rparr>))) (\<lambda>_.
         mbind (block_acquire me b) (\<lambda>_.
         mret b)) s
     | Some None \<Rightarrow>
         (case scan (Suc NBUF) b_prev (\<lambda>b. b_refcnt b = 0) (bufs s) (b_prev (bufs s NBUF)) of
            None \<Rightarrow> Diverges
          | Some (Some b) \<Rightarrow>
              mbind (mmod (upd_buf b (\<lambda>x. x\<lparr>b_dev := dev, b_blockno := blockno, b_valid := False,
                b_refcnt := 1\<rparr>))) (\<lambda>_.
              mbind (block_acquire me b) (\<lambda>_.
              mret b)) s
          | Some None \<Rightarrow> Panic ''bget: no buffers''))"

definition disk_rw :: "nat \<Rightarrow> bool \<Rightarrow> (bio, unit) km" where
  "disk_rw b wr = mmod (\<lambda>s.
     if wr then s\<lparr>disk := (disk s)(b_blockno (bufs s b) := b_data (bufs s b)),
                  dtrace := dtrace s @ [(b_blockno (bufs s b), b_data (bufs s b))]\<rparr>
     else upd_buf b (\<lambda>x. x\<lparr>b_data := disk s (b_blockno x)\<rparr>) s)"

definition bread :: "int \<Rightarrow> u32 \<Rightarrow> u32 \<Rightarrow> (bio, nat) km" where
  "bread me dev blockno =
     mbind (bget me dev blockno) (\<lambda>b.
     mbind (mget (\<lambda>s. b_valid (bufs s b))) (\<lambda>v.
     mbind (mwhen (\<not> v)
       (mbind (disk_rw b False) (\<lambda>_.
        mmod (upd_buf b (\<lambda>x. x\<lparr>b_valid := True\<rparr>))))) (\<lambda>_.
     mret b)))"

definition bwrite :: "int \<Rightarrow> nat \<Rightarrow> (bio, unit) km" where
  "bwrite me b =
     mbind (mget (\<lambda>s. holdingsleep me (b_lock (bufs s b)))) (\<lambda>h.
     mbind (mpanic_if (\<not> h) ''bwrite'') (\<lambda>_.
     disk_rw b True))"

definition brelse :: "int \<Rightarrow> nat \<Rightarrow> (bio, unit) km" where
  "brelse me b =
     mbind (mget (\<lambda>s. holdingsleep me (b_lock (bufs s b)))) (\<lambda>h.
     mbind (mpanic_if (\<not> h) ''brelse'') (\<lambda>_.
     mbind (mzoom (\<lambda>s. b_lock (bufs s b)) (\<lambda>g. upd_buf b (\<lambda>x. x\<lparr>b_lock := g (b_lock x)\<rparr>)) releasesleep) (\<lambda>_.
     mbind (mmod (upd_buf b (\<lambda>x. x\<lparr>b_refcnt := b_refcnt x - 1\<rparr>))) (\<lambda>_.
     mbind (mget (\<lambda>s. b_refcnt (bufs s b) = 0)) (\<lambda>z.
     mwhen z
       (mmod (\<lambda>s. s\<lparr>bufs := list_push b (list_unlink b (bufs s))\<rparr>)))))))"

definition bpin :: "nat \<Rightarrow> (bio, unit) km" where
  "bpin b = mmod (upd_buf b (\<lambda>x. x\<lparr>b_refcnt := b_refcnt x + 1\<rparr>))"

definition bunpin :: "nat \<Rightarrow> (bio, unit) km" where
  "bunpin b = mmod (upd_buf b (\<lambda>x. x\<lparr>b_refcnt := b_refcnt x - 1\<rparr>))"

text \<open>The kernel's direct accesses to \<open>b->data\<close>: reading it, and storing into it.\<close>

definition bdata :: "nat \<Rightarrow> bio \<Rightarrow> block" where
  "bdata b s = b_data (bufs s b)"

definition bstore :: "nat \<Rightarrow> (block \<Rightarrow> block) \<Rightarrow> (bio, unit) km" where
  "bstore b g = mmod (upd_buf b (\<lambda>x. x\<lparr>b_data := g (b_data x)\<rparr>))"

section \<open>The linked list\<close>

text \<open>
  \<open>lseg nx pv a xs b\<close>: following \<open>nx\<close> from \<open>a\<close> visits exactly \<open>xs\<close> and then \<open>b\<close>, and \<open>pv\<close> leads back.
  The cache list is the cycle through the head.
\<close>

fun lseg :: "(nat \<Rightarrow> nat) \<Rightarrow> (nat \<Rightarrow> nat) \<Rightarrow> nat \<Rightarrow> nat list \<Rightarrow> nat \<Rightarrow> bool" where
  "lseg nx pv a [] b \<longleftrightarrow> nx a = b \<and> pv b = a"
| "lseg nx pv a (x # xs) b \<longleftrightarrow> nx a = x \<and> pv x = a \<and> lseg nx pv x xs b"

definition dll :: "(nat \<Rightarrow> buf) \<Rightarrow> nat list \<Rightarrow> bool" where
  "dll f xs \<longleftrightarrow> distinct xs \<and> NBUF \<notin> set xs \<and> lseg (\<lambda>i. b_next (f i)) (\<lambda>i. b_prev (f i)) NBUF xs NBUF"

lemma lseg_append:
  "lseg nx pv a (ys @ x # zs) b \<longleftrightarrow> lseg nx pv a ys x \<and> lseg nx pv x zs b"
  by (induction ys arbitrary: a) auto

lemma lseg_rev: "lseg nx pv a xs b \<longleftrightarrow> lseg pv nx b (rev xs) a"
proof (induction xs arbitrary: a b)
  case Nil
  then show ?case by auto
next
  case (Cons x xs)
  show ?case using Cons [of x b] by (auto simp: lseg_append)
qed

lemma lseg_cong:
  assumes "\<And>y. y \<in> insert a (set xs) \<Longrightarrow> nx' y = nx y"
    and "\<And>y. y \<in> insert b (set xs) \<Longrightarrow> pv' y = pv y"
  shows "lseg nx' pv' a xs b = lseg nx pv a xs b"
  using assms by (induction xs arbitrary: a) auto

lemma lseg_ends:
  "lseg nx pv a xs b \<Longrightarrow> nx a = hd (xs @ [b]) \<and> pv b = last (a # xs)"
  by (induction xs arbitrary: a) auto

lemma lseg_first: "lseg nx pv a xs b \<Longrightarrow> nx a = (case xs of [] \<Rightarrow> b | x # _ \<Rightarrow> x)"
  by (cases xs) auto

text \<open>Cutting \<open>x\<close> out of a segment.\<close>

lemma lseg_cut:
  assumes "lseg nx pv a ys x" and "lseg nx pv x zs b"
    and "distinct (ys @ zs)" and "x \<notin> set ys" and "x \<notin> set zs" and "a \<notin> set (ys @ zs)" and "b \<notin> set (ys @ zs)"
    and "a \<noteq> x" "b \<noteq> x"
  shows "lseg (nx(pv x := nx x)) (pv(nx x := pv x)) a (ys @ zs) b"
  using assms
proof (induction ys arbitrary: a)
  case Nil
  then have "nx a = x" "pv x = a" by auto
  then show ?case
  proof (cases zs)
    case Nil
    with \<open>pv x = a\<close> \<open>lseg nx pv x zs b\<close> show ?thesis by simp
  next
    case (Cons z zs')
    with Nil.prems have z: "nx x = z" "lseg nx pv z zs' b" by auto
    have "lseg (nx(a := z)) (pv(z := a)) z zs' b = lseg nx pv z zs' b"
      by (rule lseg_cong) (use Nil.prems Cons in auto)
    with Cons z \<open>pv x = a\<close> show ?thesis by (simp add: fun_upd_def)
  qed
next
  case (Cons y ys)
  have "lseg (nx(pv x := nx x)) (pv(nx x := pv x)) y (ys @ zs) b"
    by (rule Cons.IH) (use Cons.prems in auto)
  moreover have "pv x = last (y # ys)"
    using Cons.prems(1) lseg_ends [of nx pv y ys x] by auto
  then have "pv x \<noteq> a" using Cons.prems by (metis append_Cons last_in_set list.distinct(1) set_append UnCI)
  moreover have "nx x \<noteq> y"
    using Cons.prems lseg_first [of nx pv x zs b] by (cases zs) auto
  ultimately show ?case using Cons.prems by (auto simp: fun_upd_def)
qed

lemma lseg_push:
  assumes "lseg nx pv h xs b" and "x \<notin> set xs" and "x \<noteq> h" and "h \<notin> set xs" and "x \<noteq> b"
    and "distinct xs" and "b \<notin> set xs"
  shows "lseg (nx(x := nx h, h := x)) (pv(x := h, nx h := x)) h (x # xs) b"
proof (cases xs)
  case Nil
  with assms show ?thesis by auto
next
  case (Cons y ys)
  have "lseg (nx(x := nx h, h := x)) (pv(x := h, nx h := x)) y ys b = lseg nx pv y ys b"
    by (rule lseg_cong) (use assms Cons in auto)
  with assms Cons show ?thesis by (auto simp: fun_upd_def)
qed

lemma list_unlink_next [simp]:
  "b_next (f b) \<noteq> b \<Longrightarrow> (\<lambda>i. b_next (list_unlink b f i)) = (\<lambda>i. b_next (f i))(b_prev (f b) := b_next (f b))"
  by (auto simp: list_unlink_def Let_def fun_eq_iff)

lemma list_unlink_prev [simp]:
  "b_next (f b) \<noteq> b \<Longrightarrow> (\<lambda>i. b_prev (list_unlink b f i)) = (\<lambda>i. b_prev (f i))(b_next (f b) := b_prev (f b))"
  by (auto simp: list_unlink_def Let_def fun_eq_iff)

lemma list_push_next [simp]:
  "b \<noteq> NBUF \<Longrightarrow>
    (\<lambda>i. b_next (list_push b f i)) = (\<lambda>i. b_next (f i))(b := b_next (f NBUF), NBUF := b)"
  by (auto simp: list_push_def Let_def fun_eq_iff)

lemma list_push_prev [simp]:
  "b \<noteq> NBUF \<Longrightarrow> b_next (f NBUF) \<noteq> b \<Longrightarrow>
    (\<lambda>i. b_prev (list_push b f i)) = (\<lambda>i. b_prev (f i))(b := NBUF, b_next (f NBUF) := b)"
  by (auto simp: list_push_def Let_def fun_eq_iff)

lemma dll_unlink:
  assumes "dll f (ys @ x # zs)"
  shows "dll (list_unlink x f) (ys @ zs)"
proof -
  let ?nx = "\<lambda>i. b_next (f i)" and ?pv = "\<lambda>i. b_prev (f i)"
  from assms have seg: "lseg ?nx ?pv NBUF ys x" "lseg ?nx ?pv x zs NBUF"
    by (auto simp: dll_def lseg_append)
  have ne: "b_next (f x) \<noteq> x"
    using lseg_first [OF seg(2)] assms by (cases zs) (auto simp: dll_def)
  have "lseg (?nx(?pv x := ?nx x)) (?pv(?nx x := ?pv x)) NBUF (ys @ zs) NBUF"
    by (rule lseg_cut [OF seg]) (use assms in \<open>auto simp: dll_def\<close>)
  with assms ne show ?thesis by (simp add: dll_def)
qed

lemma dll_push:
  assumes "dll f xs" and "x \<notin> set xs" and "x \<noteq> NBUF"
  shows "dll (list_push x f) (x # xs)"
proof -
  let ?nx = "\<lambda>i. b_next (f i)" and ?pv = "\<lambda>i. b_prev (f i)"
  from assms have seg: "lseg ?nx ?pv NBUF xs NBUF" by (simp add: dll_def)
  have ne: "b_next (f NBUF) \<noteq> x"
    using lseg_first [OF seg] assms by (cases xs) auto
  have "lseg (?nx(x := ?nx NBUF, NBUF := x)) (?pv(x := NBUF, ?nx NBUF := x)) NBUF (x # xs) NBUF"
    by (rule lseg_push [OF seg]) (use assms in \<open>auto simp: dll_def\<close>)
  with assms ne show ?thesis by (auto simp: dll_def)
qed

text \<open>Taking a used buffer out and putting it right after the head moves it to the front.\<close>

lemma dll_move_front:
  assumes "dll f xs" and "x \<in> set xs"
  shows "dll (list_push x (list_unlink x f)) (x # remove1 x xs)"
proof -
  from assms(2) obtain ys zs where xs: "xs = ys @ x # zs" and "x \<notin> set ys"
    by (metis split_list_first)
  from assms xs have "dll (list_unlink x f) (ys @ zs)" by (auto intro: dll_unlink)
  moreover have "x \<notin> set (ys @ zs)" "x \<noteq> NBUF" using assms xs by (auto simp: dll_def)
  ultimately have "dll (list_push x (list_unlink x f)) (x # ys @ zs)" by (rule dll_push)
  with xs \<open>x \<notin> set ys\<close> show ?thesis by (simp add: remove1_append)
qed

lemma dll_cong:
  assumes "\<And>i. b_next (g i) = b_next (f i)" "\<And>i. b_prev (g i) = b_prev (f i)"
  shows "dll g xs = dll f xs"
  by (simp add: dll_def assms)

lemma scan_lseg:
  assumes "lseg (\<lambda>i. link (f i)) pv a xs NBUF" and "NBUF \<notin> set xs" and "length xs < fuel"
  shows "scan fuel link P f (link (f a)) = Some (List.find (\<lambda>i. P (f i)) xs)"
  using assms
proof (induction xs arbitrary: a fuel)
  case Nil
  then show ?case by (cases fuel) auto
next
  case (Cons x xs)
  then obtain fuel' where fuel: "fuel = Suc fuel'" by (cases fuel) auto
  with Cons.prems have "scan fuel' link P f (link (f x)) = Some (List.find (\<lambda>i. P (f i)) xs)"
    by (intro Cons.IH) auto
  with Cons.prems fuel show ?case by auto
qed

declare scan.simps [simp del]

text \<open>Both scans of \<open>bget\<close> stop, and find the first match in list order, respectively in reverse.\<close>

lemma scan_next_dll:
  "dll f xs \<Longrightarrow> length xs < fuel \<Longrightarrow>
    scan fuel b_next P f (b_next (f NBUF)) = Some (List.find (\<lambda>i. P (f i)) xs)"
  unfolding dll_def by (rule scan_lseg) auto

lemma scan_prev_dll:
  assumes "dll f xs" and "length xs < fuel"
  shows "scan fuel b_prev P f (b_prev (f NBUF)) = Some (List.find (\<lambda>i. P (f i)) (rev xs))"
proof (rule scan_lseg)
  show "lseg (\<lambda>i. b_prev (f i)) (\<lambda>i. b_next (f i)) NBUF (rev xs) NBUF"
    using assms(1) lseg_rev by (auto simp: dll_def)
qed (use assms in \<open>auto simp: dll_def\<close>)

section \<open>What the cache promises\<close>

text \<open>
  The abstract cache: for every block its current contents, its contents on disk, how often it is
  referenced and which process holds it. Nothing is left of the buffers and the list.
\<close>

abbreviation (input) ROOTDEV :: u32 where "ROOTDEV \<equiv> 1"

record cache =
  c_data :: "u32 \<Rightarrow> block"
  c_disk :: "u32 \<Rightarrow> block"
  c_trace :: "(u32 \<times> block) list"
  c_ref :: "u32 \<Rightarrow> nat"
  c_held :: "u32 \<Rightarrow> int option"

definition core :: "buf \<Rightarrow> buf" where
  "core x = x\<lparr>b_prev := 0, b_next := 0\<rparr>"

definition cores :: "bio \<Rightarrow> nat \<Rightarrow> buf" where
  "cores s = (\<lambda>i. core (bufs s i))"

definition cidx :: "bio \<Rightarrow> u32 \<Rightarrow> nat option" where
  "cidx s b = List.find (\<lambda>i. b_dev (bufs s i) = ROOTDEV \<and> b_blockno (bufs s i) = b) [0..<NBUF]"

definition cache_of :: "bio \<Rightarrow> cache" where
  "cache_of s = \<lparr>
     c_data = (\<lambda>b. case cidx s b of None \<Rightarrow> disk s b
                    | Some i \<Rightarrow> if b_valid (bufs s i) then b_data (bufs s i) else disk s b),
     c_disk = disk s,
     c_trace = dtrace s,
     c_ref = (\<lambda>b. case cidx s b of None \<Rightarrow> 0 | Some i \<Rightarrow> unat (b_refcnt (bufs s i))),
     c_held = (\<lambda>b. case cidx s b of None \<Rightarrow> None
                    | Some i \<Rightarrow> if sl_locked (b_lock (bufs s i)) then Some (sl_pid (b_lock (bufs s i))) else None)\<rparr>"

definition linked :: "bio \<Rightarrow> bool" where
  "linked s \<longleftrightarrow> (\<exists>xs. dll (bufs s) xs \<and> set xs = {..<NBUF})"

text \<open>
  The invariant: the list links all buffers; a buffer is either unused since boot or has the data of
  a block of the root device; no block is cached twice; a buffer nobody references is unlocked and,
  if it has data, agrees with the disk.
\<close>

definition bio_wf :: "bio \<Rightarrow> bool" where
  "bio_wf s \<longleftrightarrow> linked s
     \<and> (\<forall>i<NBUF. b_dev (bufs s i) = ROOTDEV \<and> b_valid (bufs s i)
          \<or> b_dev (bufs s i) = 0 \<and> \<not> b_valid (bufs s i) \<and> b_refcnt (bufs s i) = 0)
     \<and> (\<forall>i<NBUF. \<forall>j<NBUF. b_dev (bufs s i) = ROOTDEV \<longrightarrow> b_dev (bufs s j) = ROOTDEV
          \<longrightarrow> b_blockno (bufs s i) = b_blockno (bufs s j) \<longrightarrow> i = j)
     \<and> (\<forall>i<NBUF. b_refcnt (bufs s i) = 0 \<longrightarrow> \<not> sl_locked (b_lock (bufs s i))
          \<and> (b_valid (bufs s i) \<longrightarrow> b_data (bufs s i) = disk s (b_blockno (bufs s i))))"

text \<open>Buffer \<open>i\<close> is the buffer of block \<open>b\<close>.\<close>

definition is_buf :: "bio \<Rightarrow> nat \<Rightarrow> u32 \<Rightarrow> bool" where
  "is_buf s i b \<longleftrightarrow> i < NBUF \<and> b_dev (bufs s i) = ROOTDEV \<and> b_blockno (bufs s i) = b \<and> b_valid (bufs s i)"

text \<open>Buffers that are referenced stay the buffers of their blocks.\<close>

definition keeps :: "bio \<Rightarrow> bio \<Rightarrow> bool" where
  "keeps s t \<longleftrightarrow> (\<forall>i b. is_buf s i b \<longrightarrow> 0 < c_ref (cache_of s) b \<longrightarrow> is_buf t i b)"

lemma core_simps [simp]:
  "b_valid (core x) = b_valid x" "b_dev (core x) = b_dev x" "b_blockno (core x) = b_blockno x"
  "b_lock (core x) = b_lock x" "b_refcnt (core x) = b_refcnt x" "b_data (core x) = b_data x"
  by (simp_all add: core_def)

lemma core_eqD:
  assumes "core x = core y"
  shows "b_valid x = b_valid y" "b_dev x = b_dev y" "b_blockno x = b_blockno y"
    "b_lock x = b_lock y" "b_refcnt x = b_refcnt y" "b_data x = b_data y"
  using arg_cong [OF assms, of b_valid] arg_cong [OF assms, of b_dev] arg_cong [OF assms, of b_blockno]
    arg_cong [OF assms, of b_lock] arg_cong [OF assms, of b_refcnt] arg_cong [OF assms, of b_data]
  by simp_all

lemma core_list_push [simp]: "core (list_push b f i) = core (f i)"
  by (simp add: list_push_def Let_def core_def)

lemma core_list_unlink [simp]: "core (list_unlink b f i) = core (f i)"
  by (simp add: list_unlink_def Let_def core_def)

lemma cidx_None:
  "cidx s b = None \<longleftrightarrow> (\<forall>i<NBUF. \<not> (b_dev (bufs s i) = ROOTDEV \<and> b_blockno (bufs s i) = b))"
  by (auto simp: cidx_def find_None_iff)

lemma cidx_SomeD:
  "cidx s b = Some i \<Longrightarrow> i < NBUF \<and> b_dev (bufs s i) = ROOTDEV \<and> b_blockno (bufs s i) = b"
  by (auto simp: cidx_def find_Some_iff)

lemma bio_wf_unique:
  "bio_wf s \<Longrightarrow> i < NBUF \<Longrightarrow> j < NBUF \<Longrightarrow> b_dev (bufs s i) = ROOTDEV \<Longrightarrow> b_dev (bufs s j) = ROOTDEV
    \<Longrightarrow> b_blockno (bufs s i) = b_blockno (bufs s j) \<Longrightarrow> i = j"
  by (simp add: bio_wf_def)

lemma cidx_Some:
  assumes "bio_wf s"
  shows "cidx s b = Some i \<longleftrightarrow> i < NBUF \<and> b_dev (bufs s i) = ROOTDEV \<and> b_blockno (bufs s i) = b"
proof (cases "cidx s b")
  case None
  then show ?thesis by (auto simp: cidx_None dest: cidx_SomeD)
next
  case (Some j)
  then show ?thesis using cidx_SomeD [OF Some] bio_wf_unique [OF assms, of i j] by auto
qed

lemma cache_of_idx:
  assumes "bio_wf s" and "i < NBUF" and "b_dev (bufs s i) = ROOTDEV" and "b_valid (bufs s i)"
  shows "c_data (cache_of s) (b_blockno (bufs s i)) = b_data (bufs s i)"
    and "c_ref (cache_of s) (b_blockno (bufs s i)) = unat (b_refcnt (bufs s i))"
    and "c_held (cache_of s) (b_blockno (bufs s i)) =
      (if sl_locked (b_lock (bufs s i)) then Some (sl_pid (b_lock (bufs s i))) else None)"
proof -
  have "cidx s (b_blockno (bufs s i)) = Some i"
    using assms by (simp add: cidx_Some)
  with assms show "c_data (cache_of s) (b_blockno (bufs s i)) = b_data (bufs s i)"
    and "c_ref (cache_of s) (b_blockno (bufs s i)) = unat (b_refcnt (bufs s i))"
    and "c_held (cache_of s) (b_blockno (bufs s i)) =
      (if sl_locked (b_lock (bufs s i)) then Some (sl_pid (b_lock (bufs s i))) else None)"
    by (simp_all add: cache_of_def)
qed

lemma bio_wf_rules:
  assumes "bio_wf s" and "i < NBUF"
  shows "b_dev (bufs s i) = ROOTDEV \<and> b_valid (bufs s i)
      \<or> b_dev (bufs s i) = 0 \<and> \<not> b_valid (bufs s i) \<and> b_refcnt (bufs s i) = 0"
    and "b_refcnt (bufs s i) = 0 \<Longrightarrow> \<not> sl_locked (b_lock (bufs s i))"
    and "b_refcnt (bufs s i) = 0 \<Longrightarrow> b_valid (bufs s i) \<Longrightarrow> b_data (bufs s i) = disk s (b_blockno (bufs s i))"
    and "b_refcnt (bufs s i) \<noteq> 0 \<Longrightarrow> b_valid (bufs s i)"
    and "b_refcnt (bufs s i) \<noteq> 0 \<Longrightarrow> b_dev (bufs s i) = ROOTDEV"
  using assms by (auto simp: bio_wf_def)

text \<open>
  One buffer changes and keeps its block: the effect on the invariant and on the abstract cache.
\<close>

lemma one_buffer_changed:
  assumes wf: "bio_wf s" and i: "is_buf s i b"
    and cores: "\<And>j. core (bufs t j) = (if j = i then core x else core (bufs s j))"
    and x: "b_dev x = ROOTDEV" "b_blockno x = b" "b_valid x"
    and zero: "b_refcnt x = 0 \<Longrightarrow> b_data x = disk t b \<and> \<not> sl_locked (b_lock x)"
    and disk: "\<And>c. c \<noteq> b \<Longrightarrow> disk t c = disk s c" and lnk: "linked t"
  shows "bio_wf t"
    and "cache_of t = \<lparr>c_data = (c_data (cache_of s))(b := b_data x), c_disk = disk t,
      c_trace = dtrace t, c_ref = (c_ref (cache_of s))(b := unat (b_refcnt x)),
      c_held = (c_held (cache_of s))(b := if sl_locked (b_lock x) then Some (sl_pid (b_lock x)) else None)\<rparr>"
    and "\<And>j c. is_buf t j c = is_buf s j c"
proof -
  have same: "core (bufs t j) = core (bufs s j)" if "j \<noteq> i" for j
    using cores that by simp
  note sameD = core_eqD [OF same]
  have ti: "core (bufs t i) = core x" using cores by simp
  note tiD = core_eqD [OF ti]
  from i have iN: "i < NBUF" and di: "b_dev (bufs s i) = ROOTDEV" and bi: "b_blockno (bufs s i) = b"
    by (auto simp: is_buf_def)
  have key: "b_dev (bufs t j) = b_dev (bufs s j)" "b_blockno (bufs t j) = b_blockno (bufs s j)" for j
    by (cases "j = i"; simp add: sameD tiD x di bi)+
  have nb: "b_blockno (bufs s j) \<noteq> b" if "j < NBUF" "j \<noteq> i" "b_dev (bufs s j) = ROOTDEV" for j
    using bio_wf_unique [OF wf that(1) iN that(3) di] that bi by auto
  show "bio_wf t"
    unfolding bio_wf_def
  proof (intro conjI allI impI)
    show "linked t" by (rule lnk)
  next
    fix j assume j: "j < NBUF"
    show "b_dev (bufs t j) = ROOTDEV \<and> b_valid (bufs t j) \<or> b_dev (bufs t j) = 0 \<and> \<not> b_valid (bufs t j) \<and> b_refcnt (bufs t j) = 0"
      using bio_wf_rules(1) [OF wf j] by (cases "j = i") (auto simp: sameD tiD x)
  next
    fix j k assume "j < NBUF" "k < NBUF" "b_dev (bufs t j) = ROOTDEV" "b_dev (bufs t k) = ROOTDEV"
      "b_blockno (bufs t j) = b_blockno (bufs t k)"
    then show "j = k" using bio_wf_unique [OF wf] key by simp
  next
    fix j assume j: "j < NBUF" and "b_refcnt (bufs t j) = 0"
    then show "\<not> sl_locked (b_lock (bufs t j))"
      using bio_wf_rules(2) [OF wf j] zero by (cases "j = i") (auto simp: sameD tiD)
  next
    fix j assume j: "j < NBUF" and r: "b_refcnt (bufs t j) = 0" and v: "b_valid (bufs t j)"
    show "b_data (bufs t j) = disk t (b_blockno (bufs t j))"
    proof (cases "j = i")
      case True
      with r zero show ?thesis by (simp add: tiD x)
    next
      case False
      have "b_dev (bufs s j) = ROOTDEV"
        using bio_wf_rules(1) [OF wf j] v False by (auto simp: sameD)
      with nb [OF j False] have "disk t (b_blockno (bufs s j)) = disk s (b_blockno (bufs s j))"
        by (simp add: disk)
      with bio_wf_rules(3) [OF wf j] r v False show ?thesis by (simp add: sameD)
    qed
  qed
  have cidx: "cidx t c = cidx s c" for c by (simp add: cidx_def key)
  have cb: "cidx s b = Some i" using cidx_Some [OF wf] iN di bi by simp
  have ne: "cidx s c \<noteq> Some i" if "c \<noteq> b" for c
    using cidx_Some [OF wf, of c i] bi that by auto
  have oth: "core (bufs t j) = core (bufs s j)" if "cidx s c = Some j" "c \<noteq> b" for j c
    using same ne that by (cases "j = i") auto
  note othD = core_eqD [OF oth]
  show "cache_of t = \<lparr>c_data = (c_data (cache_of s))(b := b_data x), c_disk = disk t,
      c_trace = dtrace t, c_ref = (c_ref (cache_of s))(b := unat (b_refcnt x)),
      c_held = (c_held (cache_of s))(b := if sl_locked (b_lock x) then Some (sl_pid (b_lock x)) else None)\<rparr>"
    unfolding cache_of_def cidx
    by (auto simp: fun_eq_iff cb tiD x disk othD split: option.split)
  show "is_buf t j c = is_buf s j c" for j c
    using i x by (cases "j = i") (auto simp: is_buf_def sameD tiD)
qed

text \<open>An unreferenced buffer is given to a block that is not cached.\<close>

lemma one_buffer_recycled:
  assumes wf: "bio_wf s" and i: "i < NBUF" "b_refcnt (bufs s i) = 0" and fresh: "cidx s b = None"
    and cores: "\<And>j. core (bufs t j) = (if j = i then core x else core (bufs s j))"
    and x: "b_dev x = ROOTDEV" "b_blockno x = b" "b_valid x" "b_refcnt x = 1" "b_data x = disk s b"
      "b_lock x = \<lparr>sl_locked = True, sl_pid = me\<rparr>"
    and disk: "disk t = disk s" and tr: "dtrace t = dtrace s" and lnk: "linked t"
  shows "bio_wf t" and "is_buf t i b"
    and "cache_of t = (cache_of s)\<lparr>c_ref := (c_ref (cache_of s))(b := 1), c_held := (c_held (cache_of s))(b := Some me)\<rparr>"
    and "keeps s t"
proof -
  have same: "core (bufs t j) = core (bufs s j)" if "j \<noteq> i" for j
    using cores that by simp
  note sameD = core_eqD [OF same]
  have ti: "core (bufs t i) = core x" using cores by simp
  note tiD = core_eqD [OF ti]
  have nb: "b_blockno (bufs s j) \<noteq> b" if "j < NBUF" "b_dev (bufs s j) = ROOTDEV" for j
    using fresh that by (auto simp: cidx_None)
  show wt: "bio_wf t"
    unfolding bio_wf_def
  proof (intro conjI allI impI)
    show "linked t" by (rule lnk)
  next
    fix j assume j: "j < NBUF"
    show "b_dev (bufs t j) = ROOTDEV \<and> b_valid (bufs t j) \<or> b_dev (bufs t j) = 0 \<and> \<not> b_valid (bufs t j) \<and> b_refcnt (bufs t j) = 0"
      using bio_wf_rules(1) [OF wf j] by (cases "j = i") (auto simp: sameD tiD x)
  next
    fix j k assume "j < NBUF" "k < NBUF" "b_dev (bufs t j) = ROOTDEV" "b_dev (bufs t k) = ROOTDEV"
      "b_blockno (bufs t j) = b_blockno (bufs t k)"
    then show "j = k" using bio_wf_unique [OF wf, of j k] nb [of j] nb [of k]
      by (cases "j = i"; cases "k = i") (auto simp: sameD tiD x)
  next
    fix j assume j: "j < NBUF" and "b_refcnt (bufs t j) = 0"
    then show "\<not> sl_locked (b_lock (bufs t j))"
      using bio_wf_rules(2) [OF wf j] x by (cases "j = i") (auto simp: sameD tiD)
  next
    fix j assume j: "j < NBUF" and r: "b_refcnt (bufs t j) = 0" and v: "b_valid (bufs t j)"
    then show "b_data (bufs t j) = disk t (b_blockno (bufs t j))"
      using bio_wf_rules(3) [OF wf j] x by (cases "j = i") (auto simp: sameD tiD disk)
  qed
  show "is_buf t i b" using i x by (simp add: is_buf_def tiD)
  have tb: "cidx t b = Some i" using i x by (simp add: cidx_Some [OF wt] tiD)
  have other: "cidx t c = (if cidx s c = Some i then None else cidx s c)" if "c \<noteq> b" for c
  proof (cases "cidx s c")
    case None
    have "\<not> (b_dev (bufs t j) = ROOTDEV \<and> b_blockno (bufs t j) = c)" if "j < NBUF" for j
      using None that \<open>c \<noteq> b\<close> x by (cases "j = i") (auto simp: sameD tiD cidx_None)
    then have "cidx t c = None" by (simp add: cidx_None)
    with None show ?thesis by simp
  next
    case (Some k)
    show ?thesis
    proof (cases "k = i")
      case True
      have "cidx t c \<noteq> Some j" for j
      proof
        assume "cidx t c = Some j"
        then have j: "j < NBUF" "b_dev (bufs t j) = ROOTDEV" "b_blockno (bufs t j) = c"
          by (auto dest: cidx_SomeD)
        then have "j \<noteq> i" using that x by (auto simp: tiD)
        with j have "cidx s c = Some j" by (auto simp: cidx_Some [OF wf] sameD)
        with Some True \<open>j \<noteq> i\<close> show False by simp
      qed
      then show ?thesis using True Some by (cases "cidx t c") auto
    next
      case False
      then show ?thesis using Some cidx_SomeD [OF Some] by (auto simp: cidx_Some [OF wt] sameD)
    qed
  qed
  have clean: "c_data (cache_of s) c = disk s c" "c_ref (cache_of s) c = 0" "c_held (cache_of s) c = None"
    if "cidx s c = Some i" for c
    using that bio_wf_rules(2,3) [OF wf i(1) i(2)] i cidx_SomeD [OF that] by (auto simp: cache_of_def)
  have tdata: "c_data (cache_of t) c = c_data (cache_of s) c" for c
  proof (cases "c = b")
    case True
    then show ?thesis using tb fresh x by (simp add: cache_of_def tiD)
  next
    case False
    then show ?thesis using other [OF False] clean(1) [of c]
      by (auto simp: cache_of_def disk sameD split: option.splits if_splits)
  qed
  have tref: "c_ref (cache_of t) c = ((c_ref (cache_of s))(b := 1)) c" for c
    using other [of c] clean(2) [of c] tb x
    by (cases "c = b") (auto simp: cache_of_def tiD sameD split: option.splits if_splits)
  have theld: "c_held (cache_of t) c = ((c_held (cache_of s))(b := Some me)) c" for c
    using other [of c] clean(3) [of c] tb x
    by (cases "c = b") (auto simp: cache_of_def tiD sameD split: option.splits if_splits)
  have "cache_of t = \<lparr>c_data = c_data (cache_of t), c_disk = c_disk (cache_of s), c_trace = c_trace (cache_of s),
      c_ref = c_ref (cache_of t), c_held = c_held (cache_of t)\<rparr>"
    by (simp add: cache_of_def disk tr)
  also have "\<dots> = (cache_of s)\<lparr>c_ref := (c_ref (cache_of s))(b := 1), c_held := (c_held (cache_of s))(b := Some me)\<rparr>"
    using tdata tref theld by (auto simp: fun_eq_iff)
  finally show "cache_of t = (cache_of s)\<lparr>c_ref := (c_ref (cache_of s))(b := 1),
    c_held := (c_held (cache_of s))(b := Some me)\<rparr>" .
  show "keeps s t"
    unfolding keeps_def
  proof (intro allI impI)
    fix j c assume jc: "is_buf s j c" and "0 < c_ref (cache_of s) c"
    then have "j \<noteq> i" using cache_of_idx(2) [OF wf, of i] i by (auto simp: is_buf_def)
    with jc show "is_buf t j c" by (simp add: is_buf_def sameD)
  qed
qed

lemma unreferenced_buffer:
  assumes wf: "bio_wf s" and "card {b. 0 < c_ref (cache_of s) b} < NBUF"
  shows "\<exists>i<NBUF. b_refcnt (bufs s i) = 0"
proof (rule ccontr)
  assume "\<not> (\<exists>i<NBUF. b_refcnt (bufs s i) = 0)"
  then have all: "\<And>i. i < NBUF \<Longrightarrow> b_refcnt (bufs s i) \<noteq> 0" by auto
  let ?bn = "\<lambda>i. b_blockno (bufs s i)"
  have "inj_on ?bn {..<NBUF}"
    using bio_wf_unique [OF wf] bio_wf_rules(5) [OF wf _ all] by (auto intro!: inj_onI)
  moreover have "?bn ` {..<NBUF} \<subseteq> {b. 0 < c_ref (cache_of s) b}"
    using cache_of_idx(2) [OF wf _ bio_wf_rules(5) [OF wf _ all] bio_wf_rules(4) [OF wf _ all]] all
    by (auto simp: unat_gt_0)
  ultimately have "NBUF \<le> card {b. 0 < c_ref (cache_of s) b}"
    by (metis card_image card_lessThan card_mono finite)
  with assms(2) show False by simp
qed

lemma linked_cong:
  assumes "\<And>i. b_next (bufs t i) = b_next (bufs s i)" and "\<And>i. b_prev (bufs t i) = b_prev (bufs s i)"
  shows "linked t = linked s"
proof -
  have "dll (bufs t) xs = dll (bufs s) xs" for xs
    by (rule dll_cong) (rule assms)+
  then show ?thesis by (simp add: linked_def)
qed

lemma find_unique:
  assumes "x \<in> set xs" "P x" "\<forall>y\<in>set xs. P y \<longrightarrow> y = x"
  shows "List.find P xs = Some x"
proof (cases "List.find P xs")
  case None
  with assms(1,2) show ?thesis by (auto simp: find_None_iff)
next
  case (Some y)
  then have "y \<in> set xs" "P y" by (auto simp: find_Some_iff)
  with assms(3) Some show ?thesis by blast
qed

lemma dll_length:
  assumes "dll f xs" "set xs = {..<NBUF}"
  shows "length xs < Suc NBUF"
  using assms distinct_card [of xs] by (simp add: dll_def)

lemma scan_hit:
  assumes wf: "bio_wf s" and i: "cidx s b = Some i"
  shows "scan (Suc NBUF) b_next (\<lambda>x. b_dev x = ROOTDEV \<and> b_blockno x = b) (bufs s) (b_next (bufs s NBUF))
    = Some (Some i)"
proof -
  from wf obtain xs where xs: "dll (bufs s) xs" "set xs = {..<NBUF}"
    by (auto simp: bio_wf_def linked_def)
  have "List.find (\<lambda>i. b_dev (bufs s i) = ROOTDEV \<and> b_blockno (bufs s i) = b) xs = Some i"
    by (rule find_unique) (use cidx_SomeD [OF i] xs bio_wf_unique [OF wf] in auto)
  then show ?thesis by (simp add: scan_next_dll [OF xs(1) dll_length [OF xs]])
qed

lemma scan_miss:
  assumes wf: "bio_wf s" and "cidx s b = None"
  shows "scan (Suc NBUF) b_next (\<lambda>x. b_dev x = ROOTDEV \<and> b_blockno x = b) (bufs s) (b_next (bufs s NBUF))
    = Some None"
proof -
  from wf obtain xs where xs: "dll (bufs s) xs" "set xs = {..<NBUF}"
    by (auto simp: bio_wf_def linked_def)
  have "List.find (\<lambda>i. b_dev (bufs s i) = ROOTDEV \<and> b_blockno (bufs s i) = b) xs = None"
    using assms(2) xs by (auto simp: find_None_iff cidx_None)
  then show ?thesis by (simp add: scan_next_dll [OF xs(1) dll_length [OF xs]])
qed

lemma scan_free:
  assumes wf: "bio_wf s" and "i < NBUF" "b_refcnt (bufs s i) = 0"
  shows "\<exists>k. scan (Suc NBUF) b_prev (\<lambda>x. b_refcnt x = 0) (bufs s) (b_prev (bufs s NBUF)) = Some (Some k)
    \<and> k < NBUF \<and> b_refcnt (bufs s k) = 0"
proof -
  from wf obtain xs where xs: "dll (bufs s) xs" "set xs = {..<NBUF}"
    by (auto simp: bio_wf_def linked_def)
  have "List.find (\<lambda>i. b_refcnt (bufs s i) = 0) (rev xs) \<noteq> None"
    using assms xs by (auto simp: find_None_iff)
  then obtain k where k: "List.find (\<lambda>i. b_refcnt (bufs s i) = 0) (rev xs) = Some k" by auto
  then have "k \<in> set (rev xs)" "b_refcnt (bufs s k) = 0" by (auto simp: find_Some_iff simp del: set_rev)
  with k xs show ?thesis by (simp add: scan_prev_dll [OF xs(1) dll_length [OF xs]])
qed

lemma upd_buf_simps [simp]:
  "bufs (upd_buf i f s) = (bufs s)(i := f (bufs s i))" "disk (upd_buf i f s) = disk s"
  "dtrace (upd_buf i f s) = dtrace s"
  by (simp_all add: upd_buf_def)

lemma unat_inc: "unat (x :: u32) < 2 ^ 32 - 1 \<Longrightarrow> unat (x + 1) = Suc (unat x)"
  by (simp add: unat_word_ariths)

lemma unat_dec: "0 < unat (x :: u32) \<Longrightarrow> unat (x - 1) = unat x - 1"
  by (metis less_numeral_extra(3) unat_eq_zero unat_minus_one)

lemma is_bufD:
  assumes "bio_wf s" "is_buf s i b"
  shows "c_data (cache_of s) b = b_data (bufs s i)" "c_ref (cache_of s) b = unat (b_refcnt (bufs s i))"
    "c_held (cache_of s) b = (if sl_locked (b_lock (bufs s i)) then Some (sl_pid (b_lock (bufs s i))) else None)"
    "cidx s b = Some i"
  using assms cache_of_idx [of s i] cidx_Some [of s b i] by (auto simp: is_buf_def)

lemma is_buf_cidx: "bio_wf s \<Longrightarrow> cidx s b = Some i \<Longrightarrow> is_buf s i b"
  using cidx_SomeD [of s b i] bio_wf_rules(1) [of s i] by (auto simp: is_buf_def)

lemma bread_hit:
  assumes wf: "bio_wf s" and i: "cidx s b = Some i" and free: "c_held (cache_of s) b = None"
    and small: "c_ref (cache_of s) b < 2 ^ 32 - 1"
  shows "\<exists>t. bread me ROOTDEV b s = Ok (i, t) \<and> bio_wf t \<and> is_buf t i b \<and> keeps s t
    \<and> cache_of t = (cache_of s)\<lparr>c_ref := (c_ref (cache_of s))(b := Suc (c_ref (cache_of s) b)),
        c_held := (c_held (cache_of s))(b := Some me)\<rparr>"
proof -
  have ib: "is_buf s i b" by (rule is_buf_cidx [OF wf i])
  note D = is_bufD [OF wf ib]
  let ?x = "(bufs s i)\<lparr>b_refcnt := b_refcnt (bufs s i) + 1, b_lock := \<lparr>sl_locked = True, sl_pid = me\<rparr>\<rparr>"
  let ?t = "upd_buf i (\<lambda>_. ?x) s"
  have unl: "\<not> sl_locked (b_lock (bufs s i))" using free D(3) by (simp split: if_splits)
  have run: "bread me ROOTDEV b s = Ok (i, ?t)"
    using ib unl
    by (simp add: bread_def bget_def scan_hit [OF wf i] km_defs block_acquire_def acquiresleep_free is_buf_def upd_buf_def)
  have pos: "b_refcnt ?x \<noteq> 0" using unat_inc [of "b_refcnt (bufs s i)"] small D(2) by auto
  note step = one_buffer_changed [OF wf ib, where t = ?t and x = ?x]
  have lnk: "linked ?t = linked s" by (rule linked_cong) simp_all
  have T: "bio_wf ?t" "cache_of ?t = \<lparr>c_data = (c_data (cache_of s))(b := b_data ?x), c_disk = disk ?t,
      c_trace = dtrace ?t, c_ref = (c_ref (cache_of s))(b := unat (b_refcnt ?x)),
      c_held = (c_held (cache_of s))(b := if sl_locked (b_lock ?x) then Some (sl_pid (b_lock ?x)) else None)\<rparr>"
    "\<And>j c. is_buf ?t j c = is_buf s j c"
    by (rule step; use ib pos lnk wf in \<open>simp add: is_buf_def bio_wf_def\<close>)+
  have "cache_of ?t = (cache_of s)\<lparr>c_ref := (c_ref (cache_of s))(b := Suc (c_ref (cache_of s) b)),
        c_held := (c_held (cache_of s))(b := Some me)\<rparr>"
    using D(1,2) unat_inc [of "b_refcnt (bufs s i)"] small
    by (simp add: T(2)) (simp add: cache_of_def fun_eq_iff)
  with run T ib show ?thesis by (auto simp: keeps_def)
qed

lemma bread_miss:
  assumes wf: "bio_wf s" and none: "cidx s b = None" and room: "card {c. 0 < c_ref (cache_of s) c} < NBUF"
  shows "\<exists>i t. bread me ROOTDEV b s = Ok (i, t) \<and> bio_wf t \<and> is_buf t i b \<and> keeps s t
    \<and> cache_of t = (cache_of s)\<lparr>c_ref := (c_ref (cache_of s))(b := 1),
        c_held := (c_held (cache_of s))(b := Some me)\<rparr>"
proof -
  obtain k where k: "scan (Suc NBUF) b_prev (\<lambda>x. b_refcnt x = 0) (bufs s) (b_prev (bufs s NBUF)) = Some (Some k)"
    "k < NBUF" "b_refcnt (bufs s k) = 0"
    using unreferenced_buffer [OF wf room] scan_free [OF wf] by blast
  let ?x = "(bufs s k)\<lparr>b_dev := ROOTDEV, b_blockno := b, b_refcnt := 1,
    b_lock := \<lparr>sl_locked = True, sl_pid = me\<rparr>, b_data := disk s b, b_valid := True\<rparr>"
  let ?t = "upd_buf k (\<lambda>_. ?x) s"
  have unl: "\<not> sl_locked (b_lock (bufs s k))" using bio_wf_rules(2) [OF wf k(2,3)] .
  have run: "bread me ROOTDEV b s = Ok (k, ?t)"
    using unl
    by (simp add: bread_def bget_def scan_miss [OF wf none] k(1) km_defs block_acquire_def
        acquiresleep_free disk_rw_def upd_buf_def)
  note step = one_buffer_recycled [OF wf k(2,3) none, where t = ?t and x = ?x and me = me]
  have lnk: "linked ?t = linked s" by (rule linked_cong) simp_all
  have "bio_wf ?t" "is_buf ?t k b"
    "cache_of ?t = (cache_of s)\<lparr>c_ref := (c_ref (cache_of s))(b := 1), c_held := (c_held (cache_of s))(b := Some me)\<rparr>"
    "keeps s ?t"
    by (rule step; use lnk wf in \<open>simp add: bio_wf_def\<close>)+
  with run show ?thesis by auto
qed

text \<open>
  The contract of \<open>bread\<close>: it returns, with the buffer of the block locked by the caller and holding
  the block's current contents; only the reference count and the holder of that block change.
\<close>

lemma bread_spec:
  assumes wf: "bio_wf s" and free: "c_held (cache_of s) b = None"
    and room: "0 < c_ref (cache_of s) b \<or> card {c. 0 < c_ref (cache_of s) c} < NBUF"
    and small: "c_ref (cache_of s) b < 2 ^ 32 - 1"
  shows "wp (bread me ROOTDEV b) (\<lambda>i t. bio_wf t \<and> is_buf t i b \<and> keeps s t
    \<and> cache_of t = (cache_of s)\<lparr>c_ref := (c_ref (cache_of s))(b := Suc (c_ref (cache_of s) b)),
        c_held := (c_held (cache_of s))(b := Some me)\<rparr>) s"
proof (cases "cidx s b")
  case None
  then have "c_ref (cache_of s) b = 0" by (simp add: cache_of_def)
  with room bread_miss [OF wf None, of me] show ?thesis by (auto simp: wp_iff_Ok)
next
  case (Some i)
  from bread_hit [OF wf Some free small, of me] show ?thesis by (auto simp: wp_iff_Ok)
qed

lemma bstore_spec:
  assumes wf: "bio_wf s" and ib: "is_buf s i b" and ref: "0 < c_ref (cache_of s) b"
  shows "wp (bstore i g) (\<lambda>_ t. bio_wf t \<and> keeps s t \<and> cache_of t =
    (cache_of s)\<lparr>c_data := (c_data (cache_of s))(b := g (c_data (cache_of s) b))\<rparr>) s"
proof -
  note D = is_bufD [OF wf ib]
  let ?x = "(bufs s i)\<lparr>b_data := g (b_data (bufs s i))\<rparr>"
  let ?t = "upd_buf i (\<lambda>_. ?x) s"
  have pos: "b_refcnt ?x \<noteq> 0" using ref D(2) by auto
  have lnk: "linked ?t = linked s" by (rule linked_cong) simp_all
  note step = one_buffer_changed [OF wf ib, where t = ?t and x = ?x]
  have T: "bio_wf ?t" "cache_of ?t = \<lparr>c_data = (c_data (cache_of s))(b := b_data ?x), c_disk = disk ?t,
      c_trace = dtrace ?t, c_ref = (c_ref (cache_of s))(b := unat (b_refcnt ?x)),
      c_held = (c_held (cache_of s))(b := if sl_locked (b_lock ?x) then Some (sl_pid (b_lock ?x)) else None)\<rparr>"
    "\<And>j c. is_buf ?t j c = is_buf s j c"
    by (rule step; use ib pos lnk wf in \<open>simp add: is_buf_def bio_wf_def\<close>)+
  have eq: "upd_buf i (\<lambda>x. x\<lparr>b_data := g (b_data x)\<rparr>) s = ?t" by (simp add: upd_buf_def)
  have "cache_of ?t = (cache_of s)\<lparr>c_data := (c_data (cache_of s))(b := g (c_data (cache_of s) b))\<rparr>"
    by (simp add: T(2) D(1)) (simp add: cache_of_def fun_eq_iff D(4))
  with T show ?thesis by (simp add: bstore_def wp_simps eq keeps_def)
qed

lemma bwrite_spec:
  assumes wf: "bio_wf s" and ib: "is_buf s i b" and held: "c_held (cache_of s) b = Some me"
  shows "wp (bwrite me i) (\<lambda>_ t. bio_wf t \<and> keeps s t \<and> cache_of t =
    (cache_of s)\<lparr>c_disk := (c_disk (cache_of s))(b := c_data (cache_of s) b),
       c_trace := c_trace (cache_of s) @ [(b, c_data (cache_of s) b)]\<rparr>) s"
proof -
  note D = is_bufD [OF wf ib]
  from held D(3) have h: "holdingsleep me (b_lock (bufs s i))" and lk: "sl_locked (b_lock (bufs s i))"
    by (auto simp: holdingsleep_def split: if_splits)
  have bn: "b_blockno (bufs s i) = b" using ib by (simp add: is_buf_def)
  let ?x = "bufs s i"
  let ?t = "s\<lparr>disk := (disk s)(b := b_data ?x), dtrace := dtrace s @ [(b, b_data ?x)]\<rparr>"
  have lnk: "linked ?t = linked s" by (rule linked_cong) simp_all
  have pos: "b_refcnt ?x \<noteq> 0" using bio_wf_rules(2) [OF wf, of i] lk ib by (auto simp: is_buf_def)
  note step = one_buffer_changed [OF wf ib, where t = ?t and x = ?x]
  have T: "bio_wf ?t" "cache_of ?t = \<lparr>c_data = (c_data (cache_of s))(b := b_data ?x), c_disk = disk ?t,
      c_trace = dtrace ?t, c_ref = (c_ref (cache_of s))(b := unat (b_refcnt ?x)),
      c_held = (c_held (cache_of s))(b := if sl_locked (b_lock ?x) then Some (sl_pid (b_lock ?x)) else None)\<rparr>"
    "\<And>j c. is_buf ?t j c = is_buf s j c"
    by (rule step; use ib pos lnk wf in \<open>simp add: is_buf_def bio_wf_def\<close>)+
  have "cache_of ?t = (cache_of s)\<lparr>c_disk := (c_disk (cache_of s))(b := c_data (cache_of s) b),
       c_trace := c_trace (cache_of s) @ [(b, c_data (cache_of s) b)]\<rparr>"
    using ib by (simp add: T(2) D(1)) (simp add: cache_of_def fun_eq_iff D(4) is_buf_def)
  with T h show ?thesis by (simp add: bwrite_def disk_rw_def wp_simps bn keeps_def)
qed

lemma linked_move_front:
  assumes "linked s" and "i < NBUF" and "\<And>j. b_next (f j) = b_next (bufs s j)" "\<And>j. b_prev (f j) = b_prev (bufs s j)"
  shows "linked (s\<lparr>bufs := list_push i (list_unlink i f)\<rparr>)"
proof -
  from assms(1) obtain xs where xs: "dll (bufs s) xs" "set xs = {..<NBUF}" by (auto simp: linked_def)
  then have "dll f xs" using dll_cong [of f "bufs s"] assms by simp
  then have "dll (list_push i (list_unlink i f)) (i # remove1 i xs)"
    using xs assms by (intro dll_move_front) auto
  moreover have "set (i # remove1 i xs) = {..<NBUF}"
    using xs assms by (auto simp: dll_def)
  ultimately show ?thesis by (auto simp: linked_def)
qed

lemma brelse_spec:
  assumes wf: "bio_wf s" and ib: "is_buf s i b" and held: "c_held (cache_of s) b = Some me"
    and clean: "c_ref (cache_of s) b = 1 \<Longrightarrow> c_data (cache_of s) b = c_disk (cache_of s) b"
  shows "wp (brelse me i) (\<lambda>_ t. bio_wf t \<and> keeps s t \<and> cache_of t =
    (cache_of s)\<lparr>c_ref := (c_ref (cache_of s))(b := c_ref (cache_of s) b - 1),
       c_held := (c_held (cache_of s))(b := None)\<rparr>) s"
proof -
  note D = is_bufD [OF wf ib]
  from held D(3) have h: "holdingsleep me (b_lock (bufs s i))" and lk: "sl_locked (b_lock (bufs s i))"
    by (auto simp: holdingsleep_def split: if_splits)
  have pos: "0 < unat (b_refcnt (bufs s i))"
    using bio_wf_rules(2) [OF wf, of i] lk ib by (auto simp: is_buf_def unat_gt_0)
  let ?x = "(bufs s i)\<lparr>b_lock := initsleeplock, b_refcnt := b_refcnt (bufs s i) - 1\<rparr>"
  let ?f = "(bufs s)(i := ?x)"
  let ?t = "s\<lparr>bufs := if b_refcnt (bufs s i) - 1 = 0 then list_push i (list_unlink i ?f) else ?f\<rparr>"
  have run: "brelse me i s = Ok ((), ?t)"
    using h by (auto simp: brelse_def km_defs releasesleep_eq upd_buf_def)
  have lnk: "linked ?t"
  proof (cases "b_refcnt (bufs s i) - 1 = 0")
    case True
    have "linked (s\<lparr>bufs := list_push i (list_unlink i ?f)\<rparr>)"
      by (rule linked_move_front) (use wf ib in \<open>auto simp: bio_wf_def is_buf_def\<close>)
    with True show ?thesis by simp
  next
    case False
    have "linked (s\<lparr>bufs := ?f\<rparr>) = linked s" by (rule linked_cong) simp_all
    with False wf show ?thesis by (simp add: bio_wf_def)
  qed
  have zero: "b_data ?x = disk ?t b \<and> \<not> sl_locked (b_lock ?x)" if "b_refcnt ?x = 0"
  proof -
    from that have "c_ref (cache_of s) b = 1" using D(2) by simp
    then have "b_data (bufs s i) = disk s b" using clean D(1) by (simp add: cache_of_def)
    then show ?thesis by (simp add: initsleeplock_def)
  qed
  note step = one_buffer_changed [OF wf ib, where t = ?t and x = ?x]
  have T: "bio_wf ?t" "cache_of ?t = \<lparr>c_data = (c_data (cache_of s))(b := b_data ?x), c_disk = disk ?t,
      c_trace = dtrace ?t, c_ref = (c_ref (cache_of s))(b := unat (b_refcnt ?x)),
      c_held = (c_held (cache_of s))(b := if sl_locked (b_lock ?x) then Some (sl_pid (b_lock ?x)) else None)\<rparr>"
    "\<And>j c. is_buf ?t j c = is_buf s j c"
    by (rule step; (rule zero | rule lnk | use ib in \<open>simp add: is_buf_def\<close>); simp?)+
  have "cache_of ?t = (cache_of s)\<lparr>c_ref := (c_ref (cache_of s))(b := c_ref (cache_of s) b - 1),
       c_held := (c_held (cache_of s))(b := None)\<rparr>"
    using pos by (simp only: T(2)) (simp add: cache_of_def fun_eq_iff D(4) is_buf_def unat_dec initsleeplock_def
       ib [unfolded is_buf_def])
  with T run show ?thesis by (auto simp: wp_iff_Ok keeps_def)
qed

lemma refcnt_step:
  assumes wf: "bio_wf s" and ib: "is_buf s i b" and r: "r \<noteq> 0" and ref: "0 < c_ref (cache_of s) b"
  defines "t \<equiv> upd_buf i (\<lambda>x. x\<lparr>b_refcnt := r\<rparr>) s"
  shows "bio_wf t" "keeps s t" "cache_of t = (cache_of s)\<lparr>c_ref := (c_ref (cache_of s))(b := unat r)\<rparr>"
proof -
  note D = is_bufD [OF wf ib]
  let ?x = "(bufs s i)\<lparr>b_refcnt := r\<rparr>"
  have lnk: "linked t = linked s" by (rule linked_cong) (simp_all add: t_def)
  note step = one_buffer_changed [OF wf ib, where t = t and x = ?x]
  have T: "bio_wf t" "cache_of t = \<lparr>c_data = (c_data (cache_of s))(b := b_data ?x), c_disk = disk t,
      c_trace = dtrace t, c_ref = (c_ref (cache_of s))(b := unat (b_refcnt ?x)),
      c_held = (c_held (cache_of s))(b := if sl_locked (b_lock ?x) then Some (sl_pid (b_lock ?x)) else None)\<rparr>"
    "\<And>j c. is_buf t j c = is_buf s j c"
    by (rule step; use ib r lnk wf in \<open>simp add: is_buf_def bio_wf_def t_def\<close>)+
  show "bio_wf t" by (rule T(1))
  show "keeps s t" by (simp add: keeps_def T(3))
  show "cache_of t = (cache_of s)\<lparr>c_ref := (c_ref (cache_of s))(b := unat r)\<rparr>"
    using ib by (simp only: T(2)) (simp add: t_def cache_of_def fun_eq_iff D(4) is_buf_def)
qed

lemma bpin_spec:
  assumes wf: "bio_wf s" and ib: "is_buf s i b" and ref: "0 < c_ref (cache_of s) b" "c_ref (cache_of s) b < 2 ^ 32 - 1"
  shows "wp (bpin i) (\<lambda>_ t. bio_wf t \<and> keeps s t \<and> cache_of t =
    (cache_of s)\<lparr>c_ref := (c_ref (cache_of s))(b := Suc (c_ref (cache_of s) b))\<rparr>) s"
proof -
  let ?r = "b_refcnt (bufs s i) + 1"
  have r: "unat ?r = Suc (c_ref (cache_of s) b)"
    using is_bufD(2) [OF wf ib] ref unat_inc by simp
  then have "?r \<noteq> 0" by auto
  from refcnt_step [OF wf ib this ref(1)] r show ?thesis
    by (simp add: bpin_def wp_simps upd_buf_def)
qed

lemma bunpin_spec:
  assumes wf: "bio_wf s" and ib: "is_buf s i b" and ref: "1 < c_ref (cache_of s) b"
  shows "wp (bunpin i) (\<lambda>_ t. bio_wf t \<and> keeps s t \<and> cache_of t =
    (cache_of s)\<lparr>c_ref := (c_ref (cache_of s))(b := c_ref (cache_of s) b - 1)\<rparr>) s"
proof -
  let ?r = "b_refcnt (bufs s i) - 1"
  have r: "unat ?r = c_ref (cache_of s) b - 1"
    using is_bufD(2) [OF wf ib] ref unat_dec by simp
  then have "?r \<noteq> 0" using ref by auto
  moreover have "0 < c_ref (cache_of s) b" using ref by simp
  ultimately show ?thesis using refcnt_step [OF wf ib] r
    by (simp add: bunpin_def wp_simps upd_buf_def)
qed

section \<open>The interface\<close>

text \<open>
  What the layers above rely on, stated on the abstract cache only. \<open>held\<close> is a buffer between
  \<open>bread\<close> and \<open>brelse\<close>.
\<close>

locale block_cache =
  fixes wf :: "'s \<Rightarrow> bool"
    and view :: "'s \<Rightarrow> cache"
    and buffer :: "'s \<Rightarrow> 'i \<Rightarrow> u32 \<Rightarrow> bool"
    and data_of :: "'i \<Rightarrow> 's \<Rightarrow> block"
    and bget_read :: "int \<Rightarrow> u32 \<Rightarrow> ('s, 'i) km"
    and store :: "'i \<Rightarrow> (block \<Rightarrow> block) \<Rightarrow> ('s, unit) km"
    and flush :: "int \<Rightarrow> 'i \<Rightarrow> ('s, unit) km"
    and release_buf :: "int \<Rightarrow> 'i \<Rightarrow> ('s, unit) km"
    and pin :: "'i \<Rightarrow> ('s, unit) km"
    and unpin :: "'i \<Rightarrow> ('s, unit) km"
  assumes data_law: "wf s \<Longrightarrow> buffer s i b \<Longrightarrow> data_of i s = c_data (view s) b"
    and read_law: "wf s \<Longrightarrow> c_held (view s) b = None
      \<Longrightarrow> 0 < c_ref (view s) b \<or> card {c. 0 < c_ref (view s) c} < NBUF
      \<Longrightarrow> c_ref (view s) b < 2 ^ 32 - 1
      \<Longrightarrow> wp (bget_read me b) (\<lambda>i t. wf t \<and> buffer t i b
        \<and> (\<forall>j c. buffer s j c \<longrightarrow> 0 < c_ref (view s) c \<longrightarrow> buffer t j c)
        \<and> view t = (view s)\<lparr>c_ref := (c_ref (view s))(b := Suc (c_ref (view s) b)),
            c_held := (c_held (view s))(b := Some me)\<rparr>) s"
    and store_law: "wf s \<Longrightarrow> buffer s i b \<Longrightarrow> 0 < c_ref (view s) b
      \<Longrightarrow> wp (store i g) (\<lambda>_ t. wf t
        \<and> (\<forall>j c. buffer s j c \<longrightarrow> 0 < c_ref (view s) c \<longrightarrow> buffer t j c)
        \<and> view t = (view s)\<lparr>c_data := (c_data (view s))(b := g (c_data (view s) b))\<rparr>) s"
    and flush_law: "wf s \<Longrightarrow> buffer s i b \<Longrightarrow> c_held (view s) b = Some me
      \<Longrightarrow> wp (flush me i) (\<lambda>_ t. wf t
        \<and> (\<forall>j c. buffer s j c \<longrightarrow> 0 < c_ref (view s) c \<longrightarrow> buffer t j c)
        \<and> view t = (view s)\<lparr>c_disk := (c_disk (view s))(b := c_data (view s) b),
            c_trace := c_trace (view s) @ [(b, c_data (view s) b)]\<rparr>) s"
    and release_law: "wf s \<Longrightarrow> buffer s i b \<Longrightarrow> c_held (view s) b = Some me
      \<Longrightarrow> c_ref (view s) b = 1 \<longrightarrow> c_data (view s) b = c_disk (view s) b
      \<Longrightarrow> wp (release_buf me i) (\<lambda>_ t. wf t
        \<and> (\<forall>j c. buffer s j c \<longrightarrow> 0 < c_ref (view s) c \<longrightarrow> buffer t j c)
        \<and> view t = (view s)\<lparr>c_ref := (c_ref (view s))(b := c_ref (view s) b - 1),
            c_held := (c_held (view s))(b := None)\<rparr>) s"
    and pin_law: "wf s \<Longrightarrow> buffer s i b \<Longrightarrow> 0 < c_ref (view s) b \<Longrightarrow> c_ref (view s) b < 2 ^ 32 - 1
      \<Longrightarrow> wp (pin i) (\<lambda>_ t. wf t
        \<and> (\<forall>j c. buffer s j c \<longrightarrow> 0 < c_ref (view s) c \<longrightarrow> buffer t j c)
        \<and> view t = (view s)\<lparr>c_ref := (c_ref (view s))(b := Suc (c_ref (view s) b))\<rparr>) s"
    and unpin_law: "wf s \<Longrightarrow> buffer s i b \<Longrightarrow> 1 < c_ref (view s) b
      \<Longrightarrow> wp (unpin i) (\<lambda>_ t. wf t
        \<and> (\<forall>j c. buffer s j c \<longrightarrow> 0 < c_ref (view s) c \<longrightarrow> buffer t j c)
        \<and> view t = (view s)\<lparr>c_ref := (c_ref (view s))(b := c_ref (view s) b - 1)\<rparr>) s"

begin

text \<open>
  Copying one block to another through two buffers, as the log does. First the direction of
  \<open>write_log\<close>: the source is pinned, the destination is not referenced.
\<close>

lemma copy_pinned:
  assumes w: "wf s" and free: "\<And>c. c_held (view s) c = None"
    and ne: "src \<noteq> dst" and src: "0 < c_ref (view s) src" "c_ref (view s) src < 2 ^ 32 - 1"
    and dst: "c_ref (view s) dst = 0" and room: "card {c. 0 < c_ref (view s) c} < NBUF"
  shows "wp (mbind (bget_read me dst) (\<lambda>to.
             mbind (bget_read me src) (\<lambda>from.
             mbind (mget (data_of from)) (\<lambda>d.
             mbind (store to (\<lambda>_. d)) (\<lambda>_.
             mbind (flush me to) (\<lambda>_.
             mbind (release_buf me from) (\<lambda>_.
             release_buf me to)))))))
     (\<lambda>_ t. wf t \<and> view t = (view s)\<lparr>c_data := (c_data (view s))(dst := c_data (view s) src),
        c_disk := (c_disk (view s))(dst := c_data (view s) src),
        c_trace := c_trace (view s) @ [(dst, c_data (view s) src)]\<rparr>) s"
  apply (rule wp_seq [OF read_law [OF w free]])
  subgoal using room by simp
  subgoal using dst by simp
  subgoal for to s1
    apply (rule wp_seq [OF read_law [of s1 src]])
    subgoal by simp
    subgoal using ne free by auto
    subgoal using ne src by auto
    subgoal using ne src by auto
    subgoal for fr s2
      apply (simp only: wp_mbind [where m = "mget _"] wp_mget)
      apply (rule wp_seq [OF store_law [of s2 to dst]])
      subgoal by simp
      subgoal using dst by auto
      subgoal using dst ne by auto
      apply (rule wp_seq [OF flush_law [of _ to dst me]])
      subgoal by simp
      subgoal using dst ne by auto
      subgoal using ne by auto
      apply (rule wp_seq [OF release_law [of _ fr src me]])
      subgoal by simp
      subgoal using src ne by auto
      subgoal using ne by auto
      subgoal using src ne by auto
      apply (rule wp_cong_post [OF release_law [of _ to dst me]])
      subgoal by simp
      subgoal using dst ne by auto
      subgoal using ne by auto
      subgoal using dst ne by auto
      using dst src ne free data_law [of s2 fr src] by (auto intro!: cache.equality)
    done
  done

text \<open>
  The direction of \<open>install_trans\<close>: from the log to the home location, which is pinned when a
  commit installs it and not referenced when recovery does.
\<close>

lemma copy_unpinned:
  assumes w: "wf s" and free: "\<And>c. c_held (view s) c = None"
    and ne: "src \<noteq> dst" and src: "c_ref (view s) src = 0" "c_data (view s) src = c_disk (view s) src"
    and dst: "c_ref (view s) dst = (if recovering then 0 else 1)"
    and room: "card {c. 0 < c_ref (view s) c} + 1 < NBUF \<or> \<not> recovering \<and> card {c. 0 < c_ref (view s) c} < NBUF"
  shows "wp (mbind (bget_read me src) (\<lambda>lbuf.
             mbind (bget_read me dst) (\<lambda>dbuf.
             mbind (mget (data_of lbuf)) (\<lambda>d.
             mbind (store dbuf (\<lambda>_. d)) (\<lambda>_.
             mbind (flush me dbuf) (\<lambda>_.
             mbind (mwhen (\<not> recovering) (unpin dbuf)) (\<lambda>_.
             mbind (release_buf me lbuf) (\<lambda>_.
             release_buf me dbuf))))))))
     (\<lambda>_ t. wf t \<and> view t = (view s)\<lparr>c_data := (c_data (view s))(dst := c_data (view s) src),
        c_disk := (c_disk (view s))(dst := c_data (view s) src),
        c_trace := c_trace (view s) @ [(dst, c_data (view s) src)],
        c_ref := (c_ref (view s))(dst := 0)\<rparr>) s"
proof -
  have grow: "{c. c \<noteq> src \<longrightarrow> 0 < c_ref (view s) c} = insert src {c. 0 < c_ref (view s) c}"
    by auto
  have room2: "recovering \<Longrightarrow> card {c. c \<noteq> src \<longrightarrow> 0 < c_ref (view s) c} < NBUF"
    unfolding grow using room card_insert_le_m1 [of NBUF "{c. 0 < c_ref (view s) c}" src]
    by (cases "finite {c. 0 < c_ref (view s) c}") (auto simp: card_insert_if)
  show ?thesis
  apply (rule wp_seq [OF read_law [OF w free]])
  subgoal using room by auto
  subgoal using src by simp
  subgoal for lb s1
    apply (rule wp_seq [OF read_law [of s1 dst]])
    subgoal by simp
    subgoal using ne free by auto
    subgoal using ne dst src room2 by auto
    subgoal using ne dst by auto
    subgoal for db s2
      apply (simp only: wp_mbind [where m = "mget _"] wp_mget)
      apply (rule wp_seq [OF store_law [of s2 db dst]])
      subgoal by simp
      subgoal by simp
      subgoal by simp
      apply (rule wp_seq [OF flush_law [of _ db dst me]])
      subgoal by simp
      subgoal using dst ne by auto
      subgoal using ne by auto
      apply (rule wp_seq [where P = "\<lambda>_ t. wf t \<and> buffer t lb src \<and> buffer t db dst
         \<and> view t = (view s)\<lparr>c_data := (c_data (view s))(dst := c_data (view s) src),
            c_disk := (c_disk (view s))(dst := c_data (view s) src),
            c_trace := c_trace (view s) @ [(dst, c_data (view s) src)],
            c_ref := (c_ref (view s))(dst := 1, src := 1),
            c_held := (c_held (view s))(dst := Some me, src := Some me)\<rparr>"])
      subgoal for _ s3 _ s4
        apply (cases recovering)
        subgoal using dst src ne data_law [of s2 lb src]
          by (auto simp: wp_simps intro!: cache.equality)
        subgoal
          apply (simp add: wp_simps)
          apply (rule wp_cong_post [OF unpin_law [of _ db dst]])
          subgoal by simp
          subgoal using dst src ne by auto
          subgoal using dst src ne by auto
          using dst src ne data_law [of s2 lb src] by (auto intro!: cache.equality)
        done
      apply (rule wp_seq [OF release_law [of _ lb src me]])
      subgoal by simp
      subgoal by simp
      subgoal using ne by auto
      subgoal using src ne by auto
      apply (rule wp_cong_post [OF release_law [of _ db dst me]])
      subgoal by simp
      subgoal by simp
      subgoal using ne by auto
      subgoal using ne by auto
      using dst src ne free by (auto intro!: cache.equality)
    done
  done
qed

text \<open>A counted loop of stores into one buffer.\<close>

lemma store_loop:
  assumes "wf s" "buffer s i b" "0 < c_ref (view s) b"
  shows "wp (mfor is (\<lambda>k. store i (g k))) (\<lambda>_ t. wf t
     \<and> (\<forall>j c. buffer s j c \<longrightarrow> 0 < c_ref (view s) c \<longrightarrow> buffer t j c)
     \<and> view t = (view s)\<lparr>c_data := (c_data (view s))(b := fold g is (c_data (view s) b))\<rparr>) s"
  using assms
proof (induction "is" arbitrary: s)
  case Nil
  then show ?case by (simp add: wp_simps)
next
  case (Cons k "is")
  show ?case
    unfolding mfor.simps
    apply (rule wp_seq [OF store_law [OF Cons.prems]])
    apply (rule wp_cong_post [OF Cons.IH])
    using Cons.prems by (auto intro!: cache.equality)
qed

text \<open>Overwriting an unreferenced block: read it, change the bytes, write it back, release it.\<close>

lemma rewrite_block:
  assumes w: "wf s" and free: "\<And>c. c_held (view s) c = None"
    and b: "c_ref (view s) b = 0" and room: "card {c. 0 < c_ref (view s) c} < NBUF"
  shows "wp (mbind (bget_read me b) (\<lambda>buf.
             mbind (store buf f) (\<lambda>_.
             mbind (mfor is (\<lambda>k. store buf (g k))) (\<lambda>_.
             mbind (flush me buf) (\<lambda>_.
             release_buf me buf)))))
     (\<lambda>_ t. wf t \<and> view t = (view s)\<lparr>
        c_data := (c_data (view s))(b := fold g is (f (c_data (view s) b))),
        c_disk := (c_disk (view s))(b := fold g is (f (c_data (view s) b))),
        c_trace := c_trace (view s) @ [(b, fold g is (f (c_data (view s) b)))]\<rparr>) s"
  apply (rule wp_seq [OF read_law [OF w free]])
  subgoal using room by simp
  subgoal using b by simp
  subgoal for buf s1
    apply (rule wp_seq [OF store_law [of s1 buf b]])
    subgoal by simp
    subgoal by simp
    subgoal by simp
    apply (rule wp_seq [OF store_loop [of _ buf b]])
    subgoal by simp
    subgoal by simp
    subgoal by simp
    apply (rule wp_seq [OF flush_law [of _ buf b me]])
    subgoal by simp
    subgoal by simp
    subgoal by simp
    apply (rule wp_cong_post [OF release_law [of _ buf b me]])
    subgoal by simp
    subgoal by simp
    subgoal by simp
    subgoal by simp
    using b free by (auto intro!: cache.equality)
  done

end

interpretation bc: block_cache bio_wf cache_of is_buf bdata "\<lambda>me. bread me ROOTDEV" bstore bwrite brelse bpin bunpin
  using bread_spec bstore_spec bwrite_spec brelse_spec bpin_spec bunpin_spec
  by unfold_locales (simp_all add: keeps_def bdata_def is_bufD)

section \<open>Boot\<close>

text \<open>The cache after \<open>binit\<close> on the zeroed \<open>bcache\<close> of the kernel image.\<close>

definition boot_bio :: "(u32 \<Rightarrow> block) \<Rightarrow> bio" where
  "boot_bio d = \<lparr>bufs = binit (\<lambda>_. zero_buf), disk = d, dtrace = []\<rparr>"

lemma binit_steps:
  assumes "k \<le> NBUF"
  shows "dll (fold (\<lambda>b f. list_push b (f(b := (f b)\<lparr>b_lock := initsleeplock\<rparr>))) [0..<k]
       (f(NBUF := (f NBUF)\<lparr>b_prev := NBUF, b_next := NBUF\<rparr>))) (rev [0..<k])"
  using assms
proof (induction k)
  case 0
  then show ?case by (simp add: dll_def)
next
  case (Suc k)
  let ?g = "fold (\<lambda>b f. list_push b (f(b := (f b)\<lparr>b_lock := initsleeplock\<rparr>))) [0..<k]
       (f(NBUF := (f NBUF)\<lparr>b_prev := NBUF, b_next := NBUF\<rparr>))"
  have same: "dll (g(k := (g k)\<lparr>b_lock := initsleeplock\<rparr>)) xs = dll g xs" for g xs
    by (rule dll_cong) auto
  have "dll (?g(k := (?g k)\<lparr>b_lock := initsleeplock\<rparr>)) (rev [0..<k])"
    unfolding same by (rule Suc.IH) (use Suc.prems in simp)
  then have "dll (list_push k (?g(k := (?g k)\<lparr>b_lock := initsleeplock\<rparr>))) (k # rev [0..<k])"
    by (rule dll_push) (use Suc in auto)
  then show ?case by (simp add: fun_upd_def)
qed

lemma binit_dll: "dll (binit f) (rev [0..<NBUF])"
  unfolding binit_def by (rule binit_steps) simp

lemma core_upd:
  "core (x\<lparr>b_lock := l\<rparr>) = (core x)\<lparr>b_lock := l\<rparr>" "core (x\<lparr>b_prev := p, b_next := n\<rparr>) = core x"
  by (simp_all add: core_def)

lemma binit_core: "core (binit f i) = core (if i < NBUF then (f i)\<lparr>b_lock := initsleeplock\<rparr> else f i)"
proof -
  have "core (fold (\<lambda>b f. list_push b (f(b := (f b)\<lparr>b_lock := initsleeplock\<rparr>))) [0..<k]
      (f(NBUF := (f NBUF)\<lparr>b_prev := NBUF, b_next := NBUF\<rparr>)) i)
    = core (if i < k then (f i)\<lparr>b_lock := initsleeplock\<rparr> else f i)" for k
  proof (induction k)
    case 0
    then show ?case by (simp add: core_upd)
  next
    case (Suc k)
    then show ?case
      by (cases "i = k") (simp_all add: core_upd)
  qed
  then show ?thesis by (simp add: binit_def)
qed

lemma boot_bio_bufs:
  "i < NBUF \<Longrightarrow> core (bufs (boot_bio d) i) = core zero_buf"
  by (simp add: boot_bio_def binit_core) (simp add: zero_buf_def core_def)

lemma boot_bio_wf: "bio_wf (boot_bio d)"
proof -
  have "linked (boot_bio d)"
    unfolding linked_def boot_bio_def using binit_dll [of "\<lambda>_. zero_buf"]
    by (intro exI [of _ "rev [0..<NBUF]"]) auto
  then show ?thesis
    using core_eqD [OF boot_bio_bufs [of _ d]] by (auto simp: bio_wf_def zero_buf_def initsleeplock_def)
qed

lemma boot_bio_view:
  "cache_of (boot_bio d) = \<lparr>c_data = d, c_disk = d, c_trace = [], c_ref = \<lambda>_. 0, c_held = \<lambda>_. None\<rparr>"
proof -
  have "cidx (boot_bio d) b = None" for b
    using core_eqD [OF boot_bio_bufs [of _ d]] by (auto simp: cidx_None zero_buf_def)
  then show ?thesis
    by (simp add: cache_of_def) (simp add: boot_bio_def)
qed

end
