(* ===== verification/Log.thy ===== *)
theory Log
  imports Bio
begin

text \<open>
  The write-ahead log of \<open>kernel/log.c\<close>, on top of the buffer cache.

  The state is \<open>struct log\<close> next to the buffer cache it drives. \<open>log.lock\<close> protects the counters
  only inside the functions that take it, so each of these functions is one step; the transactions
  of different processes interleave between the calls.  A \<open>begin_op\<close> that has to wait is
  \<open>Blocked\<close>: it is retried from the top, exactly as the C loop does after \<open>sleep\<close>.

  The header block holds \<open>struct logheader\<close>: \<open>n\<close> in its first four bytes, then the block numbers.
  \<open>sizeof(struct logheader)\<close> is \<open>4 + 4 * LOGSIZE\<close>.

  The second half proves that a commit is atomic with respect to crashes: whatever prefix of its
  device writes reached the disk, the recovery that runs at the next boot leaves all the logged
  blocks at their old or all of them at their new contents.
\<close>

section \<open>Model\<close>

definition MAXOPBLOCKS :: nat where "MAXOPBLOCKS = 10"
definition LOGSIZE :: nat where "LOGSIZE = MAXOPBLOCKS * 3"
definition BSIZE :: nat where "BSIZE = 1024"

text \<open>\<open>struct superblock\<close> of \<open>kernel/fs.h\<close>.\<close>

record superblock =
  sb_magic :: u32
  sb_size :: u32
  sb_nblocks :: u32
  sb_ninodes :: u32
  sb_nlog :: u32
  sb_logstart :: u32
  sb_inodestart :: u32
  sb_bmapstart :: u32

text \<open>\<open>struct log\<close>, with its \<open>struct logheader lh\<close> as the last two fields.\<close>

record log =
  lg_bio :: bio
  lg_start :: u32
  lg_size :: int
  lg_outstanding :: int
  lg_committing :: bool
  lg_dev :: u32
  lh_n :: int
  lh_block :: "nat \<Rightarrow> u32"

text \<open>The calls into the buffer cache.\<close>

definition lbio :: "(bio, 'a) km \<Rightarrow> (log, 'a) km" where
  [km_defs]: "lbio = mzoom lg_bio lg_bio_update"

definition install_trans :: "int \<Rightarrow> bool \<Rightarrow> (log, unit) km" where
  "install_trans me recovering =
    mbind (mget (\<lambda>s. s)) (\<lambda>log.
    mfor [0..<nat (lh_n log)] (\<lambda>tail. lbio (
      mbind (bread me (lg_dev log) (lg_start log + of_nat tail + 1)) (\<lambda>lbuf.
      mbind (bread me (lg_dev log) (lh_block log tail)) (\<lambda>dbuf.
      mbind (mget (bdata lbuf)) (\<lambda>d.
      mbind (bstore dbuf (\<lambda>_. d)) (\<lambda>_.
      mbind (bwrite me dbuf) (\<lambda>_.
      mbind (mwhen (\<not> recovering) (bunpin dbuf)) (\<lambda>_.
      mbind (brelse me lbuf) (\<lambda>_.
      brelse me dbuf))))))))))"

definition read_head :: "int \<Rightarrow> (log, unit) km" where
  "read_head me =
    mbind (mget (\<lambda>s. s)) (\<lambda>log.
    mbind (lbio (bread me (lg_dev log) (lg_start log))) (\<lambda>buf.
    mbind (mget (\<lambda>s. bdata buf (lg_bio s))) (\<lambda>lh.
    mbind (mmod (lh_n_update (\<lambda>_. sint (get32 0 lh)))) (\<lambda>_.
    mbind (mfor [0..<nat (sint (get32 0 lh))] (\<lambda>i.
      mmod (lh_block_update (\<lambda>bl. bl(i := get32 (4 + 4 * i) lh))))) (\<lambda>_.
    lbio (brelse me buf))))))"

definition write_head :: "int \<Rightarrow> (log, unit) km" where
  "write_head me =
    mbind (mget (\<lambda>s. s)) (\<lambda>log.
    lbio (
      mbind (bread me (lg_dev log) (lg_start log)) (\<lambda>buf.
      mbind (bstore buf (put32 0 (word_of_int (lh_n log)))) (\<lambda>_.
      mbind (mfor [0..<nat (lh_n log)] (\<lambda>i. bstore buf (put32 (4 + 4 * i) (lh_block log i)))) (\<lambda>_.
      mbind (bwrite me buf) (\<lambda>_.
      brelse me buf))))))"

definition recover_from_log :: "int \<Rightarrow> (log, unit) km" where
  "recover_from_log me =
    mbind (read_head me) (\<lambda>_.
    mbind (install_trans me True) (\<lambda>_.
    mbind (mmod (lh_n_update (\<lambda>_. 0))) (\<lambda>_.
    write_head me)))"

definition initlog :: "int \<Rightarrow> u32 \<Rightarrow> superblock \<Rightarrow> (log, unit) km" where
  "initlog me dev sb =
    mbind (mpanic_if (4 + 4 * LOGSIZE \<ge> BSIZE) ''initlog: too big logheader'') (\<lambda>_.
    mbind (mmod (\<lambda>s. s\<lparr>lg_start := sb_logstart sb, lg_size := sint (sb_nlog sb), lg_dev := dev\<rparr>)) (\<lambda>_.
    recover_from_log me))"

definition begin_op :: "(log, unit) km" where
  "begin_op =
    mbind (mget (\<lambda>s. s)) (\<lambda>log.
    if lg_committing log then mblock
    else if lh_n log + (lg_outstanding log + 1) * int MAXOPBLOCKS > int LOGSIZE then mblock
    else mmod (lg_outstanding_update (\<lambda>n. n + 1)))"

definition write_log :: "int \<Rightarrow> (log, unit) km" where
  "write_log me =
    mbind (mget (\<lambda>s. s)) (\<lambda>log.
    mfor [0..<nat (lh_n log)] (\<lambda>tail. lbio (
      mbind (bread me (lg_dev log) (lg_start log + of_nat tail + 1)) (\<lambda>to.
      mbind (bread me (lg_dev log) (lh_block log tail)) (\<lambda>from.
      mbind (mget (bdata from)) (\<lambda>d.
      mbind (bstore to (\<lambda>_. d)) (\<lambda>_.
      mbind (bwrite me to) (\<lambda>_.
      mbind (brelse me from) (\<lambda>_.
      brelse me to)))))))))"

definition commit :: "int \<Rightarrow> (log, unit) km" where
  "commit me =
    mbind (mget lh_n) (\<lambda>n.
    mwhen (n > 0) (
      mbind (write_log me) (\<lambda>_.
      mbind (write_head me) (\<lambda>_.
      mbind (install_trans me False) (\<lambda>_.
      mbind (mmod (lh_n_update (\<lambda>_. 0))) (\<lambda>_.
      write_head me))))))"

text \<open>
  \<open>end_op\<close>, whose two critical sections enclose the commit. The \<open>wakeup(&log)\<close> calls make blocked
  \<open>begin_op\<close>s retry and change nothing here.
\<close>

definition end_op :: "int \<Rightarrow> (log, unit) km" where
  "end_op me =
    mbind (mmod (lg_outstanding_update (\<lambda>n. n - 1))) (\<lambda>_.
    mbind (mget lg_committing) (\<lambda>c.
    mbind (mpanic_if c ''log.committing'') (\<lambda>_.
    mbind (mget lg_outstanding) (\<lambda>n.
    if n = 0 then
      mbind (mmod (lg_committing_update (\<lambda>_. True))) (\<lambda>_.
      mbind (commit me) (\<lambda>_.
      mmod (lg_committing_update (\<lambda>_. False))))
    else mret ()))))"

text \<open>
  The search loop of \<open>log_write\<close>: the first \<open>i\<close> with \<open>log.lh.block[i] == blockno\<close>, else \<open>n\<close>.
\<close>

function find_block :: "(nat \<Rightarrow> u32) \<Rightarrow> u32 \<Rightarrow> nat \<Rightarrow> nat \<Rightarrow> nat" where
  "find_block bl b n i = (if i < n \<and> bl i \<noteq> b then find_block bl b n (Suc i) else i)"
  by pat_completeness auto
termination by (relation "measure (\<lambda>(bl, b, n, i). n - i)") auto

declare find_block.simps [simp del]

definition log_write :: "nat \<Rightarrow> (log, unit) km" where
  "log_write b =
    mbind (mget (\<lambda>s. s)) (\<lambda>log.
    mbind (mpanic_if (lh_n log \<ge> int LOGSIZE \<or> lh_n log \<ge> lg_size log - 1) ''too big a transaction'') (\<lambda>_.
    mbind (mpanic_if (lg_outstanding log < 1) ''log_write outside of trans'') (\<lambda>_.
    mbind (mget (\<lambda>s. b_blockno (bufs (lg_bio s) b))) (\<lambda>blockno.
    let i = find_block (lh_block log) blockno (nat (lh_n log)) 0 in
    mbind (mmod (lh_block_update (\<lambda>bl. bl(i := blockno)))) (\<lambda>_.
    if int i = lh_n log then
      mbind (lbio (bpin b)) (\<lambda>_.
      mmod (lh_n_update (\<lambda>n. n + 1)))
    else mret ())))))"

section \<open>Device writes and the log on disk\<close>

text \<open>The disk after a sequence of completed block writes.\<close>

definition apply_writes :: "(u32 \<times> block) list \<Rightarrow> (u32 \<Rightarrow> block) \<Rightarrow> u32 \<Rightarrow> block" where
  "apply_writes ws m = fold (\<lambda>(b, d) m. m(b := d)) ws m"

text \<open>The \<open>j\<close>-th data block of the log, and the header as the bytes of block \<open>log.start\<close> give it.\<close>

definition slot :: "u32 \<Rightarrow> nat \<Rightarrow> u32" where
  "slot start j = start + of_nat j + 1"

definition hdr_n :: "block \<Rightarrow> int" where
  "hdr_n d = sint (get32 0 d)"

definition hdr_block :: "block \<Rightarrow> nat \<Rightarrow> u32" where
  "hdr_block d i = get32 (4 + 4 * i) d"

definition hdr_put :: "int \<Rightarrow> (nat \<Rightarrow> u32) \<Rightarrow> block \<Rightarrow> block" where
  "hdr_put n bl d = fold (\<lambda>i. put32 (4 + 4 * i) (bl i)) [0..<nat n] (put32 0 (word_of_int n) d)"

text \<open>What a disk means once its log has been replayed: the committed blocks come from the log.\<close>

definition replayed :: "u32 \<Rightarrow> (u32 \<Rightarrow> block) \<Rightarrow> u32 \<Rightarrow> block" where
  "replayed start d = apply_writes
     (map (\<lambda>j. (hdr_block (d start) j, d (slot start j))) [0..<nat (hdr_n (d start))]) d"

text \<open>Blocks outside the log, and a header that names only such blocks, each once.\<close>

definition home :: "u32 \<Rightarrow> int \<Rightarrow> u32 \<Rightarrow> bool" where
  "home start sz b \<longleftrightarrow> (\<forall>j < nat sz. b \<noteq> start + of_nat j)"

definition log_list :: "u32 \<Rightarrow> int \<Rightarrow> int \<Rightarrow> (nat \<Rightarrow> u32) \<Rightarrow> bool" where
  "log_list start sz n bl \<longleftrightarrow>
     0 \<le> n \<and> n < sz \<and> n \<le> int LOGSIZE \<and> unat start + nat sz < 2 ^ 32
     \<and> distinct (map bl [0..<nat n]) \<and> (\<forall>i < nat n. home start sz (bl i))"

definition log_blocks :: "int \<Rightarrow> (nat \<Rightarrow> u32) \<Rightarrow> u32 set" where
  "log_blocks n bl = bl ` {..<nat n}"

lemma apply_writes_Nil [simp]: "apply_writes [] m = m"
  by (simp add: apply_writes_def)

lemma apply_writes_append: "apply_writes (ws @ ws') m = apply_writes ws' (apply_writes ws m)"
  by (simp add: apply_writes_def)

lemma apply_writes_snoc [simp]: "apply_writes (ws @ [(b, d)]) m = (apply_writes ws m)(b := d)"
  by (simp add: apply_writes_def)

lemma apply_writes_other: "b \<notin> fst ` set ws \<Longrightarrow> apply_writes ws m b = m b"
  by (induction ws rule: rev_induct) auto

lemma apply_writes_written: "b \<in> fst ` set ws \<Longrightarrow> apply_writes ws m b = apply_writes ws m' b"
proof (induction ws rule: rev_induct)
  case (snoc w ws)
  then show ?case by (cases w) auto
qed simp

lemma apply_writes_upt:
  "distinct (map f [0..<n]) \<Longrightarrow> j < n \<Longrightarrow> apply_writes (map (\<lambda>j. (f j, g j)) [0..<n]) m (f j) = g j"
proof (induction n)
  case (Suc n)
  have "f j \<noteq> f n" if "j \<noteq> n"
    using Suc.prems that by (auto simp: distinct_map inj_on_def simp del: upt_Suc)
  then show ?case using Suc by (cases "j = n") (simp_all add: less_Suc_eq)
qed simp

lemma apply_writes_upt_other:
  "(\<And>j. j < n \<Longrightarrow> f j \<noteq> b) \<Longrightarrow> apply_writes (map (\<lambda>j. (f j, g j)) [0..<n]) m b = m b"
  by (rule apply_writes_other) (auto, metis)

lemma word32_sint_small:
  "0 \<le> n \<Longrightarrow> n \<le> int LOGSIZE \<Longrightarrow> sint (word_of_int n :: u32) = n"
  by (simp add: signed_of_int LOGSIZE_def MAXOPBLOCKS_def signed_take_bit_int_eq_self)

lemma hdr_fold_n: "get32 0 (fold (\<lambda>i. put32 (4 + 4 * i) (bl i)) [0..<k] d) = get32 0 d"
  by (induction k) simp_all

lemma hdr_fold_block:
  "i < k \<Longrightarrow> get32 (4 + 4 * i) (fold (\<lambda>i. put32 (4 + 4 * i) (bl i)) [0..<k] d) = bl i"
proof (induction k)
  case (Suc k)
  then show ?case by (cases "i = k") simp_all
qed simp

lemma hdr_put_n [simp]: "0 \<le> n \<Longrightarrow> n \<le> int LOGSIZE \<Longrightarrow> hdr_n (hdr_put n bl d) = n"
  by (simp add: hdr_n_def hdr_put_def hdr_fold_n word32_sint_small)

lemma hdr_put_block [simp]: "i < nat n \<Longrightarrow> hdr_block (hdr_put n bl d) i = bl i"
  by (simp add: hdr_block_def hdr_put_def hdr_fold_block)

lemma slot_inj:
  fixes start :: u32
  assumes "unat start + nat sz < 2 ^ 32" "i < nat sz" "j < nat sz"
  shows "start + of_nat i = start + of_nat j \<longleftrightarrow> i = j"
proof
  assume "start + of_nat i = start + of_nat j"
  then have "(of_nat i :: u32) = of_nat j" by simp
  then have "unat (of_nat i :: u32) = unat (of_nat j :: u32)" by (rule arg_cong)
  then show "i = j"
    using assms by (simp add: unat_of_nat)
qed simp

lemma slot_eq: "slot start j = start + of_nat (Suc j)"
  by (simp add: slot_def)

lemma log_list_slots:
  assumes "log_list start sz n bl"
  shows "\<And>j. j < nat n \<Longrightarrow> slot start j \<noteq> start"
    and "\<And>i j. i < nat n \<Longrightarrow> j < nat n \<Longrightarrow> slot start i = slot start j \<longleftrightarrow> i = j"
    and "\<And>i j. i < nat n \<Longrightarrow> j < nat n \<Longrightarrow> bl i \<noteq> slot start j"
    and "\<And>i. i < nat n \<Longrightarrow> bl i \<noteq> start"
    and "\<And>i j. i < nat n \<Longrightarrow> j < nat n \<Longrightarrow> bl i = bl j \<longleftrightarrow> i = j"
    and "nat n \<le> 30" and "\<And>j. j < nat n \<Longrightarrow> Suc j < nat sz"
proof -
  have r: "unat start + nat sz < 2 ^ 32" and n: "n < sz" "0 \<le> n"
    using assms by (simp_all add: log_list_def)
  show lt: "Suc j < nat sz" if "j < nat n" for j
    using that n by linarith
  have pos: "0 < nat sz" using n by linarith
  show "slot start j \<noteq> start" if "j < nat n" for j
    using slot_inj [OF r lt [OF that] pos] by (simp add: slot_eq)
  show "slot start i = slot start j \<longleftrightarrow> i = j" if "i < nat n" "j < nat n" for i j
    using slot_inj [OF r lt [OF that(1)] lt [OF that(2)]] by (simp add: slot_eq)
  show "bl i \<noteq> slot start j" if "i < nat n" "j < nat n" for i j
    using assms that lt by (auto simp: log_list_def home_def slot_eq simp del: of_nat_Suc)
  show "bl i \<noteq> start" if "i < nat n" for i
  proof -
    have "bl i \<noteq> start + of_nat 0"
      using assms that pos unfolding log_list_def home_def by blast
    then show ?thesis by simp
  qed
  show "bl i = bl j \<longleftrightarrow> i = j" if "i < nat n" "j < nat n" for i j
    using assms that by (auto simp: log_list_def distinct_conv_nth)
  show "nat n \<le> 30"
    using assms by (simp add: log_list_def LOGSIZE_def MAXOPBLOCKS_def nat_le_iff)
qed

section \<open>The loops\<close>

text \<open>The cache after synchronous writes of whole blocks.\<close>

definition flushed :: "(u32 \<times> block) list \<Rightarrow> cache \<Rightarrow> cache" where
  "flushed ws c = c\<lparr>c_data := apply_writes ws (c_data c), c_disk := apply_writes ws (c_disk c),
     c_trace := c_trace c @ ws\<rparr>"

lemma flushed_simps [simp]:
  "c_data (flushed ws c) = apply_writes ws (c_data c)"
  "c_disk (flushed ws c) = apply_writes ws (c_disk c)"
  "c_trace (flushed ws c) = c_trace c @ ws"
  "c_ref (flushed ws c) = c_ref c" "c_held (flushed ws c) = c_held c"
  by (simp_all add: flushed_def)

lemma flushed_Nil [simp]: "flushed [] c = c"
  by (simp add: flushed_def)

lemma flushed_snoc:
  "flushed (ws @ [(b, d)]) c = (flushed ws c)\<lparr>
     c_data := (c_data (flushed ws c))(b := d), c_disk := (c_disk (flushed ws c))(b := d),
     c_trace := c_trace (flushed ws c) @ [(b, d)]\<rparr>"
  by (simp add: flushed_def)

lemma flushed_ref: "flushed ws (c\<lparr>c_ref := r\<rparr>) = (flushed ws c)\<lparr>c_ref := r\<rparr>"
  by (simp add: flushed_def)

lemma flushed_append: "flushed (ws @ ws') c = flushed ws' (flushed ws c)"
  by (simp add: flushed_def apply_writes_append)

abbreviation lview :: "log \<Rightarrow> cache" where
  "lview s \<equiv> cache_of (lg_bio s)"

text \<open>Only the buffer cache changes: the frame of the transfers.\<close>

definition log_frame :: "log \<Rightarrow> log \<Rightarrow> bool" where
  "log_frame s t \<longleftrightarrow> lg_start t = lg_start s \<and> lg_size t = lg_size s \<and> lg_outstanding t = lg_outstanding s
     \<and> lg_committing t = lg_committing s \<and> lg_dev t = lg_dev s \<and> lh_n t = lh_n s \<and> lh_block t = lh_block s"

lemma log_frame_refl [simp]: "log_frame s s"
  by (simp add: log_frame_def)

lemma log_frame_bio [simp]: "log_frame s (t\<lparr>lg_bio := x\<rparr>) \<longleftrightarrow> log_frame s t"
  by (simp add: log_frame_def)

lemma log_frame_trans: "log_frame s t \<Longrightarrow> log_frame t u \<Longrightarrow> log_frame s u"
  by (simp add: log_frame_def)

lemmas log_frameD = log_frame_def [THEN iffD1]

lemma wp_lbio:
  "wp m (\<lambda>x b. Q x (s\<lparr>lg_bio := b\<rparr>)) (lg_bio s) \<Longrightarrow> wp (lbio m) Q s"
  by (simp add: lbio_def wp_simps)

lemma write_log_spec:
  assumes ll: "log_list (lg_start s) (lg_size s) (lh_n s) (lh_block s)"
    and w: "bio_wf (lg_bio s)" and dev: "lg_dev s = ROOTDEV"
    and free: "\<And>b. c_held (lview s) b = None"
    and ref: "\<And>b. c_ref (lview s) b = (if b \<in> log_blocks (lh_n s) (lh_block s) then 1 else 0)"
    and room: "lh_n s < int NBUF"
  shows "wp (write_log me) (\<lambda>_ t. log_frame s t \<and> bio_wf (lg_bio t)
     \<and> lview t = flushed (map (\<lambda>j. (slot (lg_start s) j, c_data (lview s) (lh_block s j))) [0..<nat (lh_n s)])
         (lview s)) s"
proof -
  note L = log_list_slots [OF ll]
  let ?W = "\<lambda>k. map (\<lambda>j. (slot (lg_start s) j, c_data (lview s) (lh_block s j))) [0..<k]"
  have refs: "{c. 0 < c_ref (lview s) c} = log_blocks (lh_n s) (lh_block s)"
    using ref by auto
  have "card (log_blocks (lh_n s) (lh_block s)) \<le> nat (lh_n s)"
    unfolding log_blocks_def by (metis card_image_le card_lessThan finite_lessThan)
  then have card: "card {c. 0 < c_ref (lview s) c} < NBUF"
    unfolding refs using room by (simp add: NBUF_def)
  have keep: "apply_writes (?W k) m (lh_block s k) = m (lh_block s k)" if "k < nat (lh_n s)" for k m
    using L(3) that by (intro apply_writes_upt_other) (metis less_trans)
  show ?thesis
    unfolding write_log_def
    apply (simp only: wp_mbind wp_mget)
    apply (rule wp_mfor [where I = "\<lambda>k t. log_frame s t \<and> bio_wf (lg_bio t) \<and> lview t = flushed (?W k) (lview s)"])
    subgoal using w by simp
    subgoal for k t
      apply (rule wp_lbio)
      unfolding dev
      apply (rule wp_cong_post [OF bc.copy_pinned])
      subgoal by simp
      subgoal by (simp add: free)
      subgoal using L(3) by (simp add: slot_def)
      subgoal using ref by (simp add: log_blocks_def)
      subgoal using ref by (simp add: log_blocks_def)
      subgoal using ref L(3) by (auto simp: log_blocks_def slot_def dest: sym)
      subgoal using card by simp
      using keep [of k] by (auto simp: flushed_snoc slot_def [symmetric])
    subgoal by simp
    done
qed

lemma install_trans_spec:
  assumes ll: "log_list (lg_start s) (lg_size s) (lh_n s) (lh_block s)"
    and w: "bio_wf (lg_bio s)" and dev: "lg_dev s = ROOTDEV"
    and free: "\<And>b. c_held (lview s) b = None"
    and ref: "\<And>b. c_ref (lview s) b = (if \<not> recovering \<and> b \<in> log_blocks (lh_n s) (lh_block s) then 1 else 0)"
    and clean: "\<And>j. j < nat (lh_n s) \<Longrightarrow>
      c_data (lview s) (slot (lg_start s) j) = c_disk (lview s) (slot (lg_start s) j)"
    and room: "\<not> recovering \<Longrightarrow> lh_n s < int NBUF"
  shows "wp (install_trans me recovering) (\<lambda>_ t. log_frame s t \<and> bio_wf (lg_bio t)
     \<and> lview t = (flushed (map (\<lambda>j. (lh_block s j, c_data (lview s) (slot (lg_start s) j))) [0..<nat (lh_n s)])
         (lview s))\<lparr>c_ref := \<lambda>_. 0\<rparr>) s"
proof -
  note L = log_list_slots [OF ll]
  let ?W = "\<lambda>k. map (\<lambda>j. (lh_block s j, c_data (lview s) (slot (lg_start s) j))) [0..<k]"
  let ?R = "\<lambda>k b. if \<not> recovering \<and> b \<in> lh_block s ` {k..<nat (lh_n s)} then 1 else (0 :: nat)"
  have "card (lh_block s ` {k..<nat (lh_n s)}) \<le> nat (lh_n s)" for k
    using card_image_le [of "{k..<nat (lh_n s)}" "lh_block s"] by simp
  moreover have "{c. 0 < ?R k c} = (if recovering then {} else lh_block s ` {k..<nat (lh_n s)})" for k
    by auto
  ultimately have card: "card {c. 0 < ?R k c} + 1 < NBUF \<or> \<not> recovering \<and> card {c. 0 < ?R k c} < NBUF" for k
    using room by (cases recovering) (force simp: NBUF_def intro: le_less_trans)+
  have R: "(?R k)(lh_block s k := 0) = ?R (Suc k)" if "k < nat (lh_n s)" for k
  proof -
    have "{k..<nat (lh_n s)} = insert k {Suc k..<nat (lh_n s)}"
      using that by auto
    moreover have "lh_block s k \<notin> lh_block s ` {Suc k..<nat (lh_n s)}"
      using L(5) [OF that] by (auto simp: image_iff)
    ultimately show ?thesis by (auto simp: fun_eq_iff)
  qed
  show ?thesis
    unfolding install_trans_def
    apply (simp only: wp_mbind wp_mget)
    apply (rule wp_mfor [where I = "\<lambda>k t. log_frame s t \<and> bio_wf (lg_bio t)
       \<and> lview t = (flushed (?W k) (lview s))\<lparr>c_ref := ?R k\<rparr>"])
    subgoal using w ref by (auto intro!: cache.equality simp: log_blocks_def lessThan_atLeast0)
    subgoal for k t
      apply (rule wp_lbio)
      unfolding dev
      apply (rule wp_cong_post [OF bc.copy_unpinned])
      subgoal by simp
      subgoal by (simp add: free)
      subgoal using L(3) by (metis (no_types, lifting) add.commute add.assoc diff_zero length_upt nth_upt plus_nat.add_0 slot_def)
      subgoal using L(3) [of _ k] by (fastforce simp: slot_def)
      subgoal using clean L(3) by (auto simp: slot_def apply_writes_upt_other)
      subgoal by auto
      subgoal using card [of k] by simp
      using L(3) R [of k] by (auto simp: flushed_snoc slot_def apply_writes_upt_other intro!: cache.equality)
    subgoal by (auto intro!: cache.equality)
    done
qed

lemma write_head_spec:
  assumes w: "bio_wf (lg_bio s)" and dev: "lg_dev s = ROOTDEV"
    and free: "\<And>b. c_held (lview s) b = None"
    and ref: "c_ref (lview s) (lg_start s) = 0"
    and room: "card {c. 0 < c_ref (lview s) c} < NBUF"
  shows "wp (write_head me) (\<lambda>_ t. log_frame s t \<and> bio_wf (lg_bio t)
     \<and> lview t = flushed [(lg_start s, hdr_put (lh_n s) (lh_block s) (c_data (lview s) (lg_start s)))] (lview s)) s"
  unfolding write_head_def
  apply (simp only: wp_mbind wp_mget)
  apply (rule wp_lbio)
  unfolding dev
  apply (rule wp_cong_post [OF bc.rewrite_block [OF w free ref room]])
  by (auto simp: flushed_def hdr_put_def apply_writes_def)

section \<open>Transactions\<close>

definition logged :: "log \<Rightarrow> u32 set" where
  "logged s = log_blocks (lh_n s) (lh_block s)"

text \<open>
  The invariant between the calls of the file system: the in-memory header lists distinct blocks
  outside the log; a block is referenced once for the log's pin and once by the process that has it
  locked; whatever is neither logged nor locked agrees with the disk; the header on disk is empty.
\<close>

definition log_inv :: "log \<Rightarrow> bool" where
  "log_inv s \<longleftrightarrow> bio_wf (lg_bio s) \<and> lg_dev s = ROOTDEV
     \<and> log_list (lg_start s) (lg_size s) (lh_n s) (lh_block s) \<and> lh_n s < int NBUF
     \<and> (\<forall>b. c_ref (lview s) b = (if b \<in> logged s then 1 else 0) + (if c_held (lview s) b = None then 0 else 1))
     \<and> (\<forall>b. b \<notin> logged s \<longrightarrow> c_held (lview s) b = None \<longrightarrow> c_data (lview s) b = c_disk (lview s) b)
     \<and> hdr_n (c_disk (lview s) (lg_start s)) = 0"

definition unlocked :: "log \<Rightarrow> bool" where
  "unlocked s \<longleftrightarrow> c_held (lview s) = (\<lambda>_. None)"

text \<open>The device writes of one commit, in order.\<close>

definition commit_writes :: "log \<Rightarrow> (u32 \<times> block) list" where
  "commit_writes s =
     (let st = lg_start s; n = nat (lh_n s); bl = lh_block s; d = c_data (lview s);
          h = hdr_put (lh_n s) bl (d st) in
      map (\<lambda>j. (slot st j, d (bl j))) [0..<n] @ [(st, h)]
      @ map (\<lambda>j. (bl j, d (bl j))) [0..<n] @ [(st, hdr_put 0 bl h)])"

lemma log_card:
  assumes "log_inv s" "unlocked s"
  shows "card {c. 0 < c_ref (lview s) c} < NBUF"
proof -
  have "{c. 0 < c_ref (lview s) c} = lh_block s ` {..<nat (lh_n s)}"
    using assms by (auto simp: log_inv_def unlocked_def logged_def log_blocks_def)
  moreover have "card (lh_block s ` {..<nat (lh_n s)}) \<le> nat (lh_n s)"
    by (metis card_image_le card_lessThan finite_lessThan)
  moreover have "nat (lh_n s) < NBUF"
    using assms by (auto simp: log_inv_def log_list_def)
  ultimately show ?thesis by simp
qed

text \<open>What the log and home blocks hold along a commit; \<open>m\<close> is the disk or the cache before it.\<close>

lemma written_slots:
  assumes "log_list st sz n bl" and "j < nat n"
  shows "apply_writes (map (\<lambda>j. (slot st j, g j)) [0..<nat n]) m (slot st j) = g j"
  using log_list_slots [OF assms(1)] assms(2)
  by (intro apply_writes_upt) (auto simp: distinct_conv_nth)

lemma written_home:
  assumes "log_list st sz n bl" and "j < nat n"
  shows "apply_writes (map (\<lambda>j. (bl j, g j)) [0..<nat n]) m (bl j) = g j"
  using assms by (intro apply_writes_upt) (auto simp: log_list_def)

lemma written_slots_start:
  assumes "log_list st sz n bl" "k \<le> nat n"
  shows "apply_writes (map (\<lambda>j. (slot st j, g j)) [0..<k]) m st = m st"
  using log_list_slots(1) [OF assms(1)] assms(2) by (intro apply_writes_upt_other) auto

lemma written_home_start:
  assumes "log_list st sz n bl" "k \<le> nat n"
  shows "apply_writes (map (\<lambda>j. (bl j, g j)) [0..<k]) m st = m st"
  using log_list_slots(4) [OF assms(1)] assms(2) by (intro apply_writes_upt_other) auto

lemma written_home_slot:
  assumes "log_list st sz n bl" "k \<le> nat n" "i < nat n"
  shows "apply_writes (map (\<lambda>j. (bl j, g j)) [0..<k]) m (slot st i) = m (slot st i)"
  using log_list_slots(3) [OF assms(1)] assms(2,3) by (intro apply_writes_upt_other) auto

lemma apply_writes_one [simp]: "apply_writes [(b, d)] m = m(b := d)"
  by (simp add: apply_writes_def)

lemma commit_chain:
  fixes s
  defines "st \<equiv> lg_start s" and "bl \<equiv> lh_block s" and "n \<equiv> lh_n s" and "c \<equiv> lview s"
  defines "c1 \<equiv> flushed (map (\<lambda>j. (slot st j, c_data c (bl j))) [0..<nat n]) c"
  defines "c2 \<equiv> flushed [(st, hdr_put n bl (c_data c1 st))] c1"
  defines "c3 \<equiv> flushed (map (\<lambda>j. (bl j, c_data c2 (slot st j))) [0..<nat n]) c2"
  assumes ll: "log_list st (lg_size s) n bl"
  shows "j < nat n \<Longrightarrow> c_data c2 (slot st j) = c_disk c2 (slot st j)"
    and "(flushed [(st, hdr_put 0 bl (c_data c3 st))] (c3\<lparr>c_ref := r\<rparr>)) =
      (flushed (commit_writes s) c)\<lparr>c_ref := r\<rparr>"
proof -
  have slot: "c_data c2 (slot st j) = c_data c (bl j)" "c_disk c2 (slot st j) = c_data c (bl j)"
    if "j < nat n" for j
    using written_slots [OF ll that] log_list_slots(1) [OF ll that] by (simp_all add: c2_def c1_def)
  then show "j < nat n \<Longrightarrow> c_data c2 (slot st j) = c_disk c2 (slot st j)" by simp
  have "c_data c1 st = c_data c st"
    using written_slots_start [OF ll] by (simp add: c1_def)
  moreover have c3: "c3 = flushed (map (\<lambda>j. (bl j, c_data c (bl j))) [0..<nat n]) c2"
    unfolding c3_def using slot by (auto intro!: arg_cong [of _ _ "\<lambda>ws. flushed ws c2"])
  moreover have "c_data c3 st = c_data c2 st"
    using written_home_start [OF ll] by (simp add: c3)
  ultimately have "c_data c3 st = hdr_put n bl (c_data c st)" "c3 = flushed (map (\<lambda>j. (slot st j, c_data c (bl j))) [0..<nat n] @
      [(st, hdr_put n bl (c_data c st))] @ map (\<lambda>j. (bl j, c_data c (bl j))) [0..<nat n]) c"
    by (simp_all add: c2_def c1_def flushed_append [symmetric])
  then show "(flushed [(st, hdr_put 0 bl (c_data c3 st))] (c3\<lparr>c_ref := r\<rparr>)) =
      (flushed (commit_writes s) c)\<lparr>c_ref := r\<rparr>"
    by (simp add: commit_writes_def Let_def flushed_append [symmetric] flushed_ref st_def bl_def n_def c_def)
qed

lemma commit_spec:
  assumes inv: "log_inv s" and ul: "unlocked s" and n: "0 < lh_n s"
  shows "wp (commit me) (\<lambda>_ t. log_frame (s\<lparr>lh_n := 0\<rparr>) t \<and> bio_wf (lg_bio t)
     \<and> lview t = (flushed (commit_writes s) (lview s))\<lparr>c_ref := \<lambda>_. 0\<rparr>) s"
proof -
  have ll: "log_list (lg_start s) (lg_size s) (lh_n s) (lh_block s)" and w: "bio_wf (lg_bio s)"
    and dev: "lg_dev s = ROOTDEV" and lt: "lh_n s < int NBUF"
    using inv by (simp_all add: log_inv_def)
  have free: "\<And>b. c_held (lview s) b = None" using ul by (simp add: unlocked_def)
  have ref: "c_ref (lview s) b = (if b \<in> log_blocks (lh_n s) (lh_block s) then 1 else 0)" for b
    using inv free by (simp add: log_inv_def logged_def)
  note L = log_list_slots [OF ll]
  have start: "c_ref (lview s) (lg_start s) = 0"
    using ref L(4) by (force simp: log_blocks_def)
  show ?thesis
    unfolding commit_def
    apply (simp only: wp_mbind wp_mget wp_mwhen n if_True)
    apply (rule wp_cong_post [OF write_log_spec [OF ll w dev free ref lt]])
    subgoal for _ t
      apply (simp only: wp_mbind)
      apply (rule wp_cong_post [OF write_head_spec])
      subgoal by simp
      subgoal using log_frameD [of s t] dev by simp
      subgoal using free by simp
      subgoal using log_frameD [of s t] start by simp
      subgoal using log_card [OF inv ul] by simp
      subgoal for _ u
        apply (rule wp_seq [OF install_trans_spec [where recovering = False]])
        subgoal using log_frameD [of s t] log_frameD [of t u] ll by simp
        subgoal by simp
        subgoal using log_frameD [of s t] log_frameD [of t u] dev by simp
        subgoal using free by simp
        subgoal using log_frameD [of s t] log_frameD [of t u] ref by simp
        subgoal for j using log_frameD [of s t] log_frameD [of t u] commit_chain(1) [OF ll, of j]
          by simp
        subgoal using log_frameD [of s t] log_frameD [of t u] lt by simp
        subgoal for _ v
          apply (simp only: wp_mbind wp_mmod)
          apply (rule wp_cong_post [OF write_head_spec])
          subgoal by simp
          subgoal using log_frameD [of s t] log_frameD [of t u] log_frameD [of u v] dev by simp
          subgoal using free by simp
          subgoal by simp
          subgoal by (simp add: NBUF_def)
          subgoal premises p for _ x
          proof -
            have "log_frame s v" "log_frame (v\<lparr>lh_n := 0\<rparr>) x" "bio_wf (lg_bio x)"
              using p log_frame_trans by blast+
            moreover have "lview x = (flushed (commit_writes s) (lview s))\<lparr>c_ref := \<lambda>_. 0\<rparr>"
              using p log_frameD [of s t] log_frameD [of t u] log_frameD [of u v] commit_chain(2) [OF ll, of "\<lambda>_. 0"]
              by simp
            ultimately show ?thesis by (auto simp: log_frame_def)
          qed
          done
        done
      done
    done
qed

section \<open>Recovery\<close>

text \<open>A machine that has just booted on disk contents \<open>d\<close>: nothing cached is referenced or dirty.\<close>

definition booted :: "(u32 \<Rightarrow> block) \<Rightarrow> log \<Rightarrow> bool" where
  "booted d s \<longleftrightarrow> bio_wf (lg_bio s) \<and> c_data (lview s) = d \<and> c_disk (lview s) = d
     \<and> c_ref (lview s) = (\<lambda>_. 0) \<and> c_held (lview s) = (\<lambda>_. None)"

lemma wp_header_loop:
  "wp (mfor [0..<k] (\<lambda>i. mmod (lh_block_update (\<lambda>bl. bl(i := g i))))) Q s =
     Q () (s\<lparr>lh_block := \<lambda>i. if i < k then g i else lh_block s i\<rparr>)"
proof (induction k arbitrary: Q)
  case 0
  then show ?case by (simp add: wp_simps)
next
  case (Suc k)
  have "(\<lambda>i. if i < k then g i else lh_block s i)(k := g k) = (\<lambda>i. if i < Suc k then g i else lh_block s i)"
    by auto
  then show ?case
    by (simp only: upt_Suc_append [OF le0] mfor_append mfor.simps wp_mbind Suc wp_mmod wp_mret)
       (simp add: comp_def)
qed

lemma read_head_spec:
  assumes b: "booted d s" and dev: "lg_dev s = ROOTDEV"
  shows "wp (read_head me) (\<lambda>_ t. booted d t \<and> c_trace (lview t) = c_trace (lview s)
     \<and> log_frame (s\<lparr>lh_n := hdr_n (d (lg_start s)), lh_block := \<lambda>i. if i < nat (hdr_n (d (lg_start s)))
          then hdr_block (d (lg_start s)) i else lh_block s i\<rparr>) t) s"
proof -
  have w: "bio_wf (lg_bio s)" and free: "\<And>b. c_held (lview s) b = None"
    and view: "c_data (lview s) = d" "c_disk (lview s) = d" "c_ref (lview s) = (\<lambda>_. 0)" "c_held (lview s) = (\<lambda>_. None)"
    using b by (simp_all add: booted_def)
  show ?thesis
    unfolding read_head_def
    apply (simp only: wp_mbind wp_mget dev)
    apply (rule wp_lbio)
    apply (rule wp_cong_post [OF bc.read_law [OF w free]])
    subgoal using view by (simp add: NBUF_def)
    subgoal using view by simp
    subgoal for i t
      apply (simp only: wp_mbind wp_mget wp_mmod wp_header_loop)
      apply (rule wp_lbio)
      apply (rule wp_cong_post [OF bc.release_law [of _ i "lg_start s"]])
      using view bc.data_law [of t i "lg_start s"]
      by (auto simp: log_frame_def booted_def hdr_n_def hdr_block_def)
    done
qed

definition recovery_writes :: "u32 \<Rightarrow> (u32 \<Rightarrow> block) \<Rightarrow> (u32 \<times> block) list" where
  "recovery_writes st d =
     map (\<lambda>j. (hdr_block (d st) j, d (slot st j))) [0..<nat (hdr_n (d st))]
     @ [(st, put32 0 0 (d st))]"

lemma recover_spec:
  assumes b: "booted d s" and dev: "lg_dev s = ROOTDEV"
    and ll: "log_list (lg_start s) (lg_size s) (hdr_n (d (lg_start s))) (hdr_block (d (lg_start s)))"
  shows "wp (recover_from_log me) (\<lambda>_ t. booted (apply_writes (recovery_writes (lg_start s) d) d) t
     \<and> c_trace (lview t) = c_trace (lview s) @ recovery_writes (lg_start s) d
     \<and> lh_n t = 0 \<and> lg_start t = lg_start s \<and> lg_size t = lg_size s \<and> lg_dev t = ROOTDEV
     \<and> lg_outstanding t = lg_outstanding s \<and> lg_committing t = lg_committing s) s"
proof -
  let ?st = "lg_start s" and ?n = "hdr_n (d (lg_start s))" and ?bl = "hdr_block (d (lg_start s))"
  have cong: "log_list st sz n bl = log_list st sz n bl'" if "\<And>i. i < nat n \<Longrightarrow> bl i = bl' i" for st sz n bl bl'
  proof -
    have "map bl [0..<nat n] = map bl' [0..<nat n]" using that by simp
    then show ?thesis unfolding log_list_def using that by metis
  qed
  show ?thesis
    unfolding recover_from_log_def
    apply (rule wp_seq [OF read_head_spec [OF b dev]])
    subgoal for _ t
      apply (rule wp_seq [OF install_trans_spec [where recovering = True]])
      subgoal using ll cong [of ?n "lh_block t" ?bl] by (simp add: log_frame_def)
      subgoal by (simp add: booted_def)
      subgoal using dev by (simp add: log_frame_def)
      subgoal by (simp add: booted_def)
      subgoal by (simp add: booted_def)
      subgoal by (simp add: booted_def)
      subgoal by simp
      subgoal for _ u
        apply (simp only: wp_mbind wp_mmod)
        apply (rule wp_cong_post [OF write_head_spec])
        subgoal by simp
        subgoal using dev by (simp add: log_frame_def)
        subgoal by (simp add: booted_def)
        subgoal by simp
        subgoal by (simp add: NBUF_def)
        subgoal premises p for _ v
        proof -
          let ?W = "map (\<lambda>j. (?bl j, d (slot ?st j))) [0..<nat ?n]"
          have t: "c_data (lview t) = d" "c_disk (lview t) = d" "c_ref (lview t) = (\<lambda>_. 0)"
            "c_held (lview t) = (\<lambda>_. None)" "c_trace (lview t) = c_trace (lview s)"
            "lg_start t = ?st" "lh_n t = ?n" "\<And>i. i < nat ?n \<Longrightarrow> lh_block t i = ?bl i"
            using p(1) by (auto simp: booted_def log_frame_def)
          have W: "map (\<lambda>j. (lh_block t j, c_data (lview t) (slot (lg_start t) j))) [0..<nat (lh_n t)] = ?W"
            using t by simp
          have u: "lview u = (flushed ?W (lview t))\<lparr>c_ref := \<lambda>_. 0\<rparr>" "lg_start u = ?st" "log_frame t u"
            using p(2) t unfolding W by (auto simp: log_frame_def)
          have "c_data (lview u) ?st = d ?st"
            using u(1) t(1) written_home_start [OF ll, of "nat ?n"] by simp
          then have v: "lview v = flushed [(?st, put32 0 0 (d ?st))] (lview u)" "bio_wf (lg_bio v)"
            "log_frame (u\<lparr>lh_n := 0\<rparr>) v"
            using p(3) u(2) by (auto simp: hdr_put_def)
          show ?thesis
            using v u t p(1) dev by (auto simp: booted_def recovery_writes_def apply_writes_append log_frame_def)
        qed
        done
      done
    done
qed

section \<open>Crashes\<close>

lemma home_ne:
  assumes "log_list st sz n bl" "home st sz b"
  shows "b \<noteq> st" and "\<And>j. j < nat n \<Longrightarrow> slot st j \<noteq> b"
proof -
  have ne: "b \<noteq> st + of_nat j" if "j < nat sz" for j
    using assms(2) that by (simp add: home_def)
  have "0 < nat sz" using assms(1) by (auto simp: log_list_def)
  from ne [OF this] show "b \<noteq> st" by simp
  show "slot st j \<noteq> b" if "j < nat n" for j
    using ne [OF log_list_slots(7) [OF assms(1) that]] by (simp add: slot_eq del: of_nat_Suc)
qed

lemma log_list_empty: "log_list st sz n bl \<Longrightarrow> log_list st sz 0 bl'"
  by (auto simp: log_list_def)

lemma log_list_hdr:
  "log_list st sz n bl \<Longrightarrow> log_list st sz (hdr_n (hdr_put n bl x)) (hdr_block (hdr_put n bl x))"
proof -
  assume ll: "log_list st sz n bl"
  have "map (hdr_block (hdr_put n bl x)) [0..<nat n] = map bl [0..<nat n]" by simp
  moreover have "\<forall>i<nat n. hdr_block (hdr_put n bl x) i = bl i" by simp
  moreover have "hdr_n (hdr_put n bl x) = n" using ll by (simp add: log_list_def)
  ultimately show ?thesis using ll unfolding log_list_def by metis
qed

text \<open>The disk after the first \<open>k\<close> writes of a commit: before, at and after the header write.\<close>

lemma commit_prefix:
  fixes s
  defines "st \<equiv> lg_start s" and "bl \<equiv> lh_block s" and "n \<equiv> nat (lh_n s)" and "d \<equiv> c_data (lview s)"
  defines "h \<equiv> hdr_put (lh_n s) bl (d st)"
  shows "k \<le> n \<Longrightarrow> take k (commit_writes s) = map (\<lambda>j. (slot st j, d (bl j))) [0..<k]"
    and "m \<le> n \<Longrightarrow> take (Suc n + m) (commit_writes s) =
      (map (\<lambda>j. (slot st j, d (bl j))) [0..<n] @ [(st, h)]) @ map (\<lambda>j. (bl j, d (bl j))) [0..<m]"
    and "length (commit_writes s) = 2 * n + 2"
  by (simp_all add: commit_writes_def Let_def st_def bl_def n_def d_def h_def take_map)

lemma crash_replay:
  assumes inv: "log_inv s" and ul: "unlocked s" and k: "k \<le> length (commit_writes s)"
  defines "D \<equiv> apply_writes (take k (commit_writes s)) (c_disk (lview s))" and "st \<equiv> lg_start s"
  shows "log_list st (lg_size s) (hdr_n (D st)) (hdr_block (D st))
    \<and> (\<forall>b. home st (lg_size s) b \<longrightarrow> apply_writes (recovery_writes st D) D b =
          (if k \<le> nat (lh_n s) then c_disk (lview s) b else c_data (lview s) b))"
proof -
  let ?bl = "lh_block s" and ?n = "nat (lh_n s)" and ?new = "c_data (lview s)" and ?old = "c_disk (lview s)"
  let ?h = "hdr_put (lh_n s) ?bl (?new st)"
  have ll: "log_list st (lg_size s) (lh_n s) ?bl" and h0: "hdr_n (?old st) = 0"
    using inv by (simp_all add: log_inv_def st_def)
  have clean: "?new b = ?old b" if "\<And>j. j < ?n \<Longrightarrow> ?bl j \<noteq> b" for b
  proof -
    have "b \<notin> logged s" using that by (auto simp: logged_def log_blocks_def)
    then show ?thesis using inv ul by (simp add: log_inv_def unlocked_def)
  qed
  have lln: "0 \<le> lh_n s" "lh_n s \<le> int LOGSIZE" using ll by (simp_all add: log_list_def)
  note P = commit_prefix(1) [where s = s, folded st_def] commit_prefix(2) [where s = s, folded st_def]
    commit_prefix(3) [of s]
  consider "k \<le> ?n" | m where "k = Suc ?n + m" "m \<le> ?n" | "k = 2 * ?n + 2"
    using k P(3) le_Suc_ex [of "Suc ?n" k] by fastforce
  then show ?thesis
  proof cases
    case 1
    have st: "D st = ?old st"
      using written_slots_start [OF ll 1] 1 P(1) by (simp add: D_def)
    have "D b = ?old b" if "home st (lg_size s) b" for b
      using home_ne(2) [OF ll that] 1 P(1) by (simp add: D_def apply_writes_upt_other)
    then show ?thesis
      using 1 st h0 log_list_empty [OF ll] home_ne(1) [OF ll] by (simp add: recovery_writes_def)
  next
    case (2 m)
    let ?S = "(apply_writes (map (\<lambda>j. (slot st j, ?new (?bl j))) [0..<?n]) ?old)(st := ?h)"
    have D: "D = apply_writes (map (\<lambda>j. (?bl j, ?new (?bl j))) [0..<m]) ?S"
      unfolding D_def 2(1) P(2) [OF 2(2)] by (simp add: apply_writes_append del: append_assoc)
    have st: "D st = ?h"
      using written_home_start [OF ll 2(2)] by (simp add: D)
    have slots: "D (slot st j) = ?new (?bl j)" if "j < ?n" for j
      using written_home_slot [OF ll 2(2) that] written_slots [OF ll that] log_list_slots(1) [OF ll that]
      by (simp add: D)
    have rw: "recovery_writes st D = map (\<lambda>j. (?bl j, ?new (?bl j))) [0..<?n] @ [(st, put32 0 0 ?h)]"
      using st slots lln by (simp add: recovery_writes_def)
    have "apply_writes (recovery_writes st D) D b = ?new b" if b: "home st (lg_size s) b" for b
    proof (cases "\<exists>j<?n. ?bl j = b")
      case True
      then show ?thesis
        using written_home [OF ll] home_ne(1) [OF ll b] by (auto simp: rw)
    next
      case False
      then have "D b = ?old b"
        using home_ne [OF ll b] 2(2) by (auto simp: D apply_writes_upt_other)
      then show ?thesis
        using False clean [of b] home_ne(1) [OF ll b] by (simp add: rw apply_writes_upt_other)
    qed
    then show ?thesis
      using st log_list_hdr [OF ll] 2 by simp
  next
    case 3
    let ?S = "(apply_writes (map (\<lambda>j. (slot st j, ?new (?bl j))) [0..<?n]) ?old)(st := ?h)"
    have D: "D = (apply_writes (map (\<lambda>j. (?bl j, ?new (?bl j))) [0..<?n]) ?S)(st := hdr_put 0 ?bl ?h)"
      unfolding D_def using 3 P(3) by (simp add: commit_writes_def Let_def st_def)
        (simp add: apply_writes_def)
    have "D b = ?new b" if b: "home st (lg_size s) b" for b
    proof (cases "\<exists>j<?n. ?bl j = b")
      case True
      then show ?thesis
        using written_home [OF ll] home_ne(1) [OF ll b] by (auto simp: D)
    next
      case False
      then show ?thesis
        using home_ne [OF ll b] clean [of b] by (auto simp: D apply_writes_upt_other)
    qed
    moreover have "hdr_n (D st) = 0"
      using hdr_put_n [of 0] by (simp add: D)
    ultimately show ?thesis
      using 3 log_list_empty [OF ll] home_ne(1) [OF ll] by (simp add: recovery_writes_def)
  qed
qed

lemma recovery_replay:
  assumes ll: "log_list st sz (hdr_n (d st)) (hdr_block (d st))" and k: "k \<le> length (recovery_writes st d)"
  defines "D \<equiv> apply_writes (take k (recovery_writes st d)) d"
  shows "log_list st sz (hdr_n (D st)) (hdr_block (D st))
    \<and> (\<forall>b. home st sz b \<longrightarrow> apply_writes (recovery_writes st D) D b = apply_writes (recovery_writes st d) d b)"
proof -
  let ?n = "nat (hdr_n (d st))" and ?bl = "hdr_block (d st)"
  have len: "length (recovery_writes st d) = Suc ?n" by (simp add: recovery_writes_def)
  show ?thesis
  proof (cases "k \<le> ?n")
    case True
    then have D: "D = apply_writes (map (\<lambda>j. (?bl j, d (slot st j))) [0..<k]) d"
      by (simp add: D_def recovery_writes_def take_map)
    have st: "D st = d st" using written_home_start [OF ll True] by (simp add: D)
    have "D (slot st j) = d (slot st j)" if "j < ?n" for j
      using written_home_slot [OF ll True that] by (simp add: D)
    then have rw: "recovery_writes st D = recovery_writes st d"
      using st by (simp add: recovery_writes_def)
    have "apply_writes (recovery_writes st d) D b = apply_writes (recovery_writes st d) d b"
      if b: "home st sz b" for b
    proof (cases "\<exists>j<?n. ?bl j = b")
      case True
      then show ?thesis
        using written_home [OF ll] home_ne(1) [OF ll b] by (auto simp: recovery_writes_def)
    next
      case False
      then have "D b = d b" using True by (auto simp: D apply_writes_upt_other)
      then show ?thesis
        using False home_ne(1) [OF ll b] by (simp add: recovery_writes_def apply_writes_upt_other)
    qed
    then show ?thesis using st ll rw by simp
  next
    case False
    then have D: "D = apply_writes (recovery_writes st d) d"
      using k len by (simp add: D_def)
    have "hdr_n (D st) = 0"
      by (simp add: D recovery_writes_def hdr_n_def)
    then show ?thesis
      using log_list_empty [OF ll] home_ne(1) [OF ll] by (simp add: recovery_writes_def [of st D]) (simp add: D)
  qed
qed

section \<open>The calls of a transaction\<close>

lemma begin_op_spec:
  assumes "\<not> lg_committing s" "lh_n s + (lg_outstanding s + 1) * int MAXOPBLOCKS \<le> int LOGSIZE"
  shows "wp begin_op (\<lambda>_ t. t = s\<lparr>lg_outstanding := lg_outstanding s + 1\<rparr>) s"
  using assms by (simp add: begin_op_def wp_simps)

lemma find_block_spec:
  assumes "i \<le> n"
  shows "find_block bl b n i \<le> n \<and> (find_block bl b n i < n \<longrightarrow> bl (find_block bl b n i) = b)
    \<and> (\<forall>j. i \<le> j \<longrightarrow> j < find_block bl b n i \<longrightarrow> bl j \<noteq> b)"
  using assms
proof (induction bl b n i rule: find_block.induct)
  case (1 bl b n i)
  show ?case
  proof (cases "i < n \<and> bl i \<noteq> b")
    case True
    then have "find_block bl b n i = find_block bl b n (Suc i)"
      by (subst find_block.simps) simp
    then show ?thesis using 1 True by (metis Suc_leI le_neq_implies_less)
  next
    case False
    then have "find_block bl b n i = i"
      by (subst find_block.simps) auto
    then show ?thesis using 1 False by auto
  qed
qed

lemma log_blocks_upd:
  assumes "0 \<le> n"
  shows "log_blocks (n + 1) (bl(nat n := b)) = insert b (log_blocks n bl)"
proof -
  have "{..<nat (n + 1)} = insert (nat n) {..<nat n}" using assms by auto
  then show ?thesis by (auto simp: log_blocks_def)
qed

lemma log_list_upd:
  assumes "log_list st sz n bl" "b \<notin> log_blocks n bl" "home st sz b" "n + 1 < sz" "n < int LOGSIZE"
  shows "log_list st sz (n + 1) (bl(nat n := b))"
proof -
  have eq: "[0..<nat (n + 1)] = [0..<nat n] @ [nat n]" and "nat (n + 1) = Suc (nat n)"
    using assms(1) by (simp_all add: log_list_def nat_add_distrib)
  have "distinct (map (bl(nat n := b)) [0..<nat n] @ [b])"
    using assms(1,2) by (auto simp: log_list_def log_blocks_def distinct_map inj_on_def)
  then show ?thesis
    using assms unfolding log_list_def eq by (auto simp: \<open>nat (n + 1) = Suc (nat n)\<close> less_Suc_eq)
qed

text \<open>
  \<open>log_write\<close> on a locked buffer of a block outside the log: the block is logged and pinned, once.
\<close>

lemma log_write_spec:
  assumes inv: "log_inv s" and buf: "is_buf (lg_bio s) i b" and held: "c_held (lview s) b = Some me"
    and home: "home (lg_start s) (lg_size s) b"
    and room: "lh_n s < int LOGSIZE" "lh_n s < lg_size s - 1" "lh_n s + 1 < int NBUF \<or> b \<in> logged s"
    and op: "1 \<le> lg_outstanding s"
  shows "wp (log_write i) (\<lambda>_ t. log_inv t \<and> logged t = insert b (logged s)
     \<and> lh_n t = (if b \<in> logged s then lh_n s else lh_n s + 1)
     \<and> lview t = (lview s)\<lparr>c_ref := (c_ref (lview s))(b := 2)\<rparr>
     \<and> keeps (lg_bio s) (lg_bio t)
     \<and> lg_start t = lg_start s \<and> lg_size t = lg_size s \<and> lg_outstanding t = lg_outstanding s
     \<and> lg_committing t = lg_committing s) s"
proof -
  let ?i = "find_block (lh_block s) b (nat (lh_n s)) 0"
  note F = find_block_spec [of 0 "nat (lh_n s)" "lh_block s" b]
  have n0: "0 \<le> lh_n s" and w: "bio_wf (lg_bio s)" using inv by (simp_all add: log_inv_def log_list_def)
  have bno: "b_blockno (bufs (lg_bio s) i) = b" using buf by (simp add: is_buf_def)
  have in_log: "b \<in> logged s \<longleftrightarrow> ?i < nat (lh_n s)"
  proof
    assume "b \<in> logged s"
    then obtain j where j: "j < nat (lh_n s)" "lh_block s j = b"
      by (auto simp: logged_def log_blocks_def)
    then have "\<not> j < ?i" using F by blast
    with j(1) show "?i < nat (lh_n s)" by simp
  next
    assume "?i < nat (lh_n s)"
    moreover from this have "lh_block s ?i = b" using F by simp
    ultimately show "b \<in> logged s" unfolding logged_def log_blocks_def by (metis imageI lessThan_iff)
  qed
  have ref: "c_ref (lview s) b = (if b \<in> logged s then 2 else 1)"
    using inv held by (simp add: log_inv_def)
  show ?thesis
  proof (cases "b \<in> logged s")
    case True
    then have "lh_block s ?i = b" "int ?i \<noteq> lh_n s" using in_log F by auto
    then have "(lh_block s)(?i := b) = lh_block s" by auto
    then have same: "lh_block_update (\<lambda>bl. bl(?i := b)) s = s" by (intro log.equality) simp_all
    have "(c_ref (lview s))(b := 2) = c_ref (lview s)" using ref True by auto
    then have "(lview s)\<lparr>c_ref := (c_ref (lview s))(b := 2)\<rparr> = lview s" by simp
    then show ?thesis
      unfolding log_write_def Let_def
      apply (simp only: wp_mbind wp_mget wp_mpanic_if bno wp_mmod wp_if)
      using room op True inv \<open>int ?i \<noteq> lh_n s\<close>
      by (simp add: wp_mret same keeps_def insert_absorb)
  next
    case False
    then have i: "?i = nat (lh_n s)" using in_log F by auto
    then have "int ?i = lh_n s" using n0 by simp
    have new: "logged (s\<lparr>lg_bio := t, lh_n := lh_n s + 1, lh_block := (lh_block s)(?i := b)\<rparr>) = insert b (logged s)"
      for t unfolding logged_def i using log_blocks_upd [OF n0] by simp
    have ll: "log_list (lg_start s) (lg_size s) (lh_n s + 1) ((lh_block s)(?i := b))"
      unfolding i using inv False home room
      by (intro log_list_upd) (auto simp: log_inv_def logged_def)
    have post: "log_inv (s\<lparr>lg_bio := t, lh_n := lh_n s + 1, lh_block := (lh_block s)(?i := b)\<rparr>)"
      if "bio_wf t" "cache_of t = (lview s)\<lparr>c_ref := (c_ref (lview s))(b := 2)\<rparr>" for t
      using inv that ll room False held unfolding log_inv_def new by (simp add: fun_upd_def)
    have upd: "lh_n_update (\<lambda>n. n + 1) (lg_bio_update (\<lambda>_. t) (lh_block_update (\<lambda>bl. bl(?i := b)) s))
      = s\<lparr>lg_bio := t, lh_n := lh_n s + 1, lh_block := (lh_block s)(?i := b)\<rparr>" for t
      by (rule log.equality) simp_all
    show ?thesis
      unfolding log_write_def Let_def
      apply (simp only: wp_mbind wp_mget wp_mpanic_if bno wp_mmod wp_if \<open>int ?i = lh_n s\<close> refl if_True)
      apply (intro conjI)
      subgoal using room by simp
      subgoal using op by simp
      apply (rule wp_lbio)
      apply (rule wp_cong_post [OF bpin_spec [of _ i b]])
      subgoal using w by simp
      subgoal using buf by simp
      subgoal using ref False by simp
      subgoal using ref False by simp
      subgoal premises p for _ t
      proof -
        have t: "bio_wf t" "keeps (lg_bio s) t" "cache_of t = (lview s)\<lparr>c_ref := (c_ref (lview s))(b := 2)\<rparr>"
          using p ref False by (auto simp: numeral_2_eq_2)
        then show ?thesis
          using post [OF t(1,3)] new [of t] False unfolding wp_mmod upd by simp
      qed
      done
  qed
qed

text \<open>The blocks whose buffers cannot be recycled.\<close>

definition busy :: "log \<Rightarrow> u32 set" where
  "busy s = {b. 0 < c_ref (lview s) b}"

lemma busy_eq: "log_inv s \<Longrightarrow> busy s = logged s \<union> {b. c_held (lview s) b \<noteq> None}"
  by (auto simp: busy_def log_inv_def split: if_splits)

lemma log_inv_cong:
  assumes inv: "log_inv s" and fr: "log_frame s t" and wf: "bio_wf (lg_bio t)"
    and "c_disk (lview t) = c_disk (lview s)"
    and "\<And>b. c_ref (lview t) b = (if b \<in> logged s then 1 else 0) + (if c_held (lview t) b = None then 0 else 1)"
    and "\<And>b. b \<notin> logged s \<Longrightarrow> c_held (lview t) b = None \<Longrightarrow> c_data (lview t) b = c_disk (lview s) b"
  shows "log_inv t" and "logged t = logged s"
proof -
  show same: "logged t = logged s"
    using fr by (simp add: logged_def log_frame_def)
  show "log_inv t"
    using assms same by (simp add: log_inv_def log_frame_def)
qed

lemma lread_spec:
  assumes inv: "log_inv s" and held: "c_held (lview s) b = None" and room: "card (busy s) < NBUF \<or> b \<in> logged s"
  shows "wp (lbio (bread me ROOTDEV b)) (\<lambda>i t. log_inv t \<and> log_frame s t \<and> is_buf (lg_bio t) i b
     \<and> keeps (lg_bio s) (lg_bio t) \<and> lview t = (lview s)\<lparr>c_ref := (c_ref (lview s))(b := Suc (c_ref (lview s) b)),
          c_held := (c_held (lview s))(b := Some me)\<rparr>) s"
proof -
  have w: "bio_wf (lg_bio s)" and ref: "c_ref (lview s) b = (if b \<in> logged s then 1 else 0)"
    using inv held by (simp_all add: log_inv_def)
  have all: "\<And>c. c_ref (lview s) c = (if c \<in> logged s then 1 else 0) + (if c_held (lview s) c = None then 0 else 1)"
    and cl: "\<And>c. c \<notin> logged s \<Longrightarrow> c_held (lview s) c = None \<Longrightarrow> c_data (lview s) c = c_disk (lview s) c"
    using inv by (simp_all add: log_inv_def)
  show ?thesis
    apply (rule wp_lbio)
    apply (rule wp_cong_post [OF bread_spec [OF w held]])
    subgoal using ref room by (auto simp: busy_def)
    subgoal using ref by simp
    subgoal premises p for i t
    proof -
      have t: "bio_wf t" "is_buf t i b" "keeps (lg_bio s) t" "cache_of t = (lview s)\<lparr>c_ref := (c_ref (lview s))(b := Suc (c_ref (lview s) b)),
          c_held := (c_held (lview s))(b := Some me)\<rparr>"
        using p by auto
      have "log_inv (s\<lparr>lg_bio := t\<rparr>)"
        by (rule log_inv_cong(1) [OF inv]) (use t held all cl in \<open>auto split: if_splits\<close>)
      with t show ?thesis by simp
    qed
    done
qed

lemma lstore_spec:
  assumes inv: "log_inv s" and buf: "is_buf (lg_bio s) i b" and held: "c_held (lview s) b = Some me"
  shows "wp (lbio (bstore i g)) (\<lambda>_ t. log_inv t \<and> log_frame s t
     \<and> keeps (lg_bio s) (lg_bio t) \<and> lview t = (lview s)\<lparr>c_data := (c_data (lview s))(b := g (c_data (lview s) b))\<rparr>) s"
proof -
  have w: "bio_wf (lg_bio s)" and ref: "0 < c_ref (lview s) b"
    using inv held by (simp_all add: log_inv_def)
  have all: "\<And>c. c_ref (lview s) c = (if c \<in> logged s then 1 else 0) + (if c_held (lview s) c = None then 0 else 1)"
    and cl: "\<And>c. c \<notin> logged s \<Longrightarrow> c_held (lview s) c = None \<Longrightarrow> c_data (lview s) c = c_disk (lview s) c"
    using inv by (simp_all add: log_inv_def)
  show ?thesis
    apply (rule wp_lbio)
    apply (rule wp_cong_post [OF bstore_spec [OF w buf ref]])
    subgoal premises p for _ t
    proof -
      have "log_inv (s\<lparr>lg_bio := t\<rparr>)"
        by (rule log_inv_cong(1) [OF inv]) (use p held all cl in \<open>auto split: if_splits\<close>)
      with p show ?thesis by simp
    qed
    done
qed

lemma lrelse_spec:
  assumes inv: "log_inv s" and buf: "is_buf (lg_bio s) i b" and held: "c_held (lview s) b = Some me"
    and clean: "b \<in> logged s \<or> c_data (lview s) b = c_disk (lview s) b"
  shows "wp (lbio (brelse me i)) (\<lambda>_ t. log_inv t \<and> log_frame s t
     \<and> keeps (lg_bio s) (lg_bio t) \<and> lview t = (lview s)\<lparr>c_ref := (c_ref (lview s))(b := c_ref (lview s) b - 1),
          c_held := (c_held (lview s))(b := None)\<rparr>) s"
proof -
  have w: "bio_wf (lg_bio s)" and ref: "c_ref (lview s) b = (if b \<in> logged s then 2 else 1)"
    using inv held by (simp_all add: log_inv_def)
  have all: "\<And>c. c_ref (lview s) c = (if c \<in> logged s then 1 else 0) + (if c_held (lview s) c = None then 0 else 1)"
    and cl: "\<And>c. c \<notin> logged s \<Longrightarrow> c_held (lview s) c = None \<Longrightarrow> c_data (lview s) c = c_disk (lview s) c"
    using inv by (simp_all add: log_inv_def)
  show ?thesis
    apply (rule wp_lbio)
    apply (rule wp_cong_post [OF brelse_spec [OF w buf held]])
    subgoal using clean ref by (cases "b \<in> logged s") simp_all
    subgoal premises p for _ t
    proof -
      have "log_inv (s\<lparr>lg_bio := t\<rparr>)"
        by (rule log_inv_cong(1) [OF inv]) (use p held all cl clean in \<open>auto split: if_splits\<close>)
      with p show ?thesis by simp
    qed
    done
qed

text \<open>
  The interface the file system uses inside a transaction, in terms of the contents of the blocks as
  the file system sees them, the locked blocks and the blocks already in the transaction.
  \<open>fs_room k\<close>: there is an open transaction, and \<open>k\<close> more blocks can be logged while up to three
  buffers are locked.
\<close>

definition fs_room :: "nat \<Rightarrow> log \<Rightarrow> bool" where
  "fs_room k s \<longleftrightarrow> 1 \<le> lg_outstanding s \<and> lh_n s + int k < lg_size s \<and> lh_n s + int k + 3 \<le> int NBUF"

definition ldata :: "log \<Rightarrow> u32 \<Rightarrow> block" where
  "ldata s = c_data (lview s)"

definition lheld :: "log \<Rightarrow> u32 \<Rightarrow> int option" where
  "lheld s = c_held (lview s)"

definition lbuf :: "log \<Rightarrow> nat \<Rightarrow> u32 \<Rightarrow> bool" where
  "lbuf s i b \<longleftrightarrow> is_buf (lg_bio s) i b \<and> c_held (lview s) b \<noteq> None"

text \<open>What a step inside a transaction leaves alone.\<close>

definition same_txn :: "log \<Rightarrow> log \<Rightarrow> bool" where
  "same_txn s t \<longleftrightarrow> lg_start t = lg_start s \<and> lg_size t = lg_size s \<and> lg_outstanding t = lg_outstanding s
     \<and> lg_committing t = lg_committing s \<and> c_disk (lview t) = c_disk (lview s) \<and> c_trace (lview t) = c_trace (lview s)"

lemma same_txn_refl [simp]: "same_txn s s"
  by (simp add: same_txn_def)

lemma same_txn_trans: "same_txn s t \<Longrightarrow> same_txn t u \<Longrightarrow> same_txn s u"
  by (simp add: same_txn_def)

lemma card_logged: "log_inv s \<Longrightarrow> int (card (logged s)) = lh_n s"
  by (simp add: logged_def log_blocks_def card_image inj_on_def log_inv_def log_list_def distinct_map)

lemma finite_logged [simp]: "finite (logged s)"
  by (simp add: logged_def log_blocks_def)

lemma busy_room:
  assumes inv: "log_inv s" and room: "lh_n s + int (card H) < int NBUF" and fin: "finite H"
    and H: "{b. lheld s b \<noteq> None} \<subseteq> H"
  shows "card (busy s) < NBUF"
proof -
  have "card (busy s) \<le> card (logged s \<union> H)"
    using H fin busy_eq [OF inv] by (intro card_mono) (auto simp: lheld_def)
  also have "\<dots> \<le> card (logged s) + card H" by (rule card_Un_le)
  finally show ?thesis using card_logged [OF inv] room by linarith
qed

lemma lbuf_is_buf: "lbuf s i b \<Longrightarrow> is_buf (lg_bio s) i b"
  by (simp add: lbuf_def)

lemma keeps_lbuf:
  assumes "log_inv s" "keeps (lg_bio s) t" "is_buf (lg_bio s) i b" "c_held (lview s) b \<noteq> None"
  shows "is_buf t i b"
  using assms by (auto simp: keeps_def log_inv_def)

lemma tread:
  assumes inv: "log_inv s" and free: "lheld s b = None" and H: "{c. lheld s c \<noteq> None} \<subseteq> H" "finite H" "card H \<le> 2"
    and room: "lh_n s + 3 \<le> int NBUF"
  shows "wp (lbio (bread me ROOTDEV b)) (\<lambda>i t. log_inv t \<and> same_txn s t \<and> lbuf t i b \<and> logged t = logged s
     \<and> lh_n t = lh_n s \<and> (\<forall>j c. lbuf s j c \<longrightarrow> lbuf t j c) \<and> ldata t = ldata s
     \<and> lheld t = (lheld s)(b := Some me)) s"
proof -
  have "card (busy s) < NBUF"
    using busy_room [OF inv _ H(2,1)] H(3) room by linarith
  then show ?thesis
    apply (intro wp_cong_post [OF lread_spec [OF inv]])
    subgoal using free by (simp add: lheld_def)
    subgoal by simp
    subgoal using keeps_lbuf [OF inv]
      by (auto simp: lheld_def ldata_def lbuf_def same_txn_def log_frame_def logged_def)
    done
qed

lemma tstore:
  assumes inv: "log_inv s" and buf: "lbuf s i b"
  shows "wp (lbio (bstore i g)) (\<lambda>_ t. log_inv t \<and> same_txn s t \<and> logged t = logged s
     \<and> lh_n t = lh_n s \<and> (\<forall>j c. lbuf s j c \<longrightarrow> lbuf t j c) \<and> ldata t = (ldata s)(b := g (ldata s b))
     \<and> lheld t = lheld s) s"
proof -
  from buf obtain p where "is_buf (lg_bio s) i b" "c_held (lview s) b = Some p"
    by (auto simp: lbuf_def)
  from lstore_spec [OF inv this] show ?thesis
    by (rule wp_cong_post) (use keeps_lbuf [OF inv] in
      \<open>auto simp: lheld_def ldata_def lbuf_def same_txn_def log_frame_def logged_def\<close>)
qed

lemma tlog_write:
  assumes inv: "log_inv s" and buf: "lbuf s i b" and home: "home (lg_start s) (lg_size s) b"
    and room: "fs_room 1 s"
  shows "wp (log_write i) (\<lambda>_ t. log_inv t \<and> same_txn s t \<and> logged t = insert b (logged s)
     \<and> lh_n t = (if b \<in> logged s then lh_n s else lh_n s + 1) \<and> (\<forall>j c. lbuf s j c \<longrightarrow> lbuf t j c)
     \<and> ldata t = ldata s \<and> lheld t = lheld s) s"
proof -
  from buf obtain p where b: "is_buf (lg_bio s) i b" "c_held (lview s) b = Some p"
    by (auto simp: lbuf_def)
  have "lh_n s < int LOGSIZE" "lh_n s < lg_size s - 1" "lh_n s + 1 < int NBUF \<or> b \<in> logged s" "1 \<le> lg_outstanding s"
    using room by (auto simp: fs_room_def LOGSIZE_def MAXOPBLOCKS_def NBUF_def)
  from log_write_spec [OF inv b home this] show ?thesis
    by (rule wp_cong_post) (use keeps_lbuf [OF inv] in \<open>auto simp: lheld_def ldata_def lbuf_def same_txn_def\<close>)
qed

lemma trelse:
  assumes inv: "log_inv s" and buf: "is_buf (lg_bio s) i b" and me: "lheld s b = Some me"
    and clean: "b \<in> logged s \<or> ldata s b = c_disk (lview s) b"
  shows "wp (lbio (brelse me i)) (\<lambda>_ t. log_inv t \<and> same_txn s t \<and> logged t = logged s
     \<and> lh_n t = lh_n s \<and> (\<forall>j c. c \<noteq> b \<longrightarrow> lbuf s j c \<longrightarrow> lbuf t j c) \<and> ldata t = ldata s
     \<and> lheld t = (lheld s)(b := None)) s"
proof -
  from lrelse_spec [OF inv buf] me clean
  have "wp (lbio (brelse me i)) (\<lambda>_ t. log_inv t \<and> log_frame s t
     \<and> keeps (lg_bio s) (lg_bio t) \<and> lview t = (lview s)\<lparr>c_ref := (c_ref (lview s))(b := c_ref (lview s) b - 1),
          c_held := (c_held (lview s))(b := None)\<rparr>) s"
    by (simp add: lheld_def ldata_def)
  then show ?thesis
    by (rule wp_cong_post) (use keeps_lbuf [OF inv] in
      \<open>auto simp: lheld_def ldata_def lbuf_def same_txn_def log_frame_def logged_def\<close>)
qed

text \<open>
  The use of the log that the comment before \<open>log_write\<close> prescribes: read a block, modify it,
  \<open>log_write\<close> it, release it.
\<close>

definition logged_update :: "int \<Rightarrow> u32 \<Rightarrow> (block \<Rightarrow> block) \<Rightarrow> (log, unit) km" where
  "logged_update me b g =
    mbind (lbio (bread me ROOTDEV b)) (\<lambda>i.
    mbind (lbio (bstore i g)) (\<lambda>_.
    mbind (log_write i) (\<lambda>_.
    lbio (brelse me i))))"

lemma logged_update_spec:
  assumes inv: "log_inv s" and free: "lheld s = (\<lambda>_. None)" and home: "home (lg_start s) (lg_size s) b"
    and room: "fs_room 1 s"
  shows "wp (logged_update me b g) (\<lambda>_ t. log_inv t \<and> same_txn s t \<and> logged t = insert b (logged s)
     \<and> lh_n t = (if b \<in> logged s then lh_n s else lh_n s + 1)
     \<and> ldata t = (ldata s)(b := g (ldata s b)) \<and> lheld t = (\<lambda>_. None)) s"
  unfolding logged_update_def
  apply (rule wp_seq [OF tread [OF inv, where H = "{}"]])
  subgoal using free by simp
  subgoal using free by simp
  subgoal by simp
  subgoal by simp
  subgoal using room by (simp add: fs_room_def)
  subgoal for i t
    apply (rule wp_seq [OF tstore [where b = b]])
    subgoal by simp
    subgoal by simp
    subgoal for _ u
      apply (rule wp_seq [OF tlog_write [where b = b]])
      subgoal by simp
      subgoal by simp
      subgoal using home by (simp add: same_txn_def)
      subgoal using room by (simp add: fs_room_def same_txn_def)
      subgoal for _ v
        apply (rule wp_cong_post [OF trelse [where b = b]])
        subgoal by simp
        subgoal by (blast intro: lbuf_is_buf)
        subgoal by simp
        subgoal by simp
        using free by (auto simp: same_txn_def)
      done
    done
  done

lemma commit_log_inv:
  assumes inv: "log_inv s" and ul: "unlocked s" and n: "0 < lh_n s"
  shows "wp (commit me) (\<lambda>_ t. log_inv t \<and> unlocked t \<and> lh_n t = 0
     \<and> (\<forall>b. home (lg_start s) (lg_size s) b \<longrightarrow> c_disk (lview t) b = ldata s b \<and> ldata t b = ldata s b)
     \<and> c_trace (lview t) = c_trace (lview s) @ commit_writes s
     \<and> log_frame (s\<lparr>lh_n := 0\<rparr>) t) s"
proof (rule wp_cong_post [OF commit_spec [OF assms]])
  fix x t
  assume p: "log_frame (s\<lparr>lh_n := 0\<rparr>) t \<and> bio_wf (lg_bio t)
     \<and> lview t = (flushed (commit_writes s) (lview s))\<lparr>c_ref := \<lambda>_. 0\<rparr>"
  let ?D = "apply_writes (commit_writes s) (c_disk (lview s))"
  have ll: "log_list (lg_start s) (lg_size s) (lh_n s) (lh_block s)" using inv by (simp add: log_inv_def)
  have R: "home (lg_start s) (lg_size s) b \<Longrightarrow> apply_writes (recovery_writes (lg_start s) ?D) ?D b = ldata s b" for b
    using crash_replay [OF inv ul order_refl] n by (auto simp: commit_prefix(3) ldata_def)
  have h: "?D (lg_start s) = hdr_put 0 (lh_block s) (hdr_put (lh_n s) (lh_block s) (c_data (lview s) (lg_start s)))"
    by (simp add: commit_writes_def Let_def apply_writes_def)
  have hn: "hdr_n (?D (lg_start s)) = 0"
    unfolding h by (rule hdr_put_n) simp_all
  have disk: "?D b = ldata s b" if "home (lg_start s) (lg_size s) b" for b
    using R [OF that] hn home_ne(1) [OF ll that] by (simp add: recovery_writes_def)
  have both: "apply_writes (commit_writes s) (c_data (lview s)) b = ?D b" for b
  proof (cases "b \<in> fst ` set (commit_writes s)")
    case True
    then show ?thesis by (rule apply_writes_written)
  next
    case False
    then have "b \<notin> logged s"
      by (force simp: commit_writes_def Let_def logged_def log_blocks_def)
    then have "c_data (lview s) b = c_disk (lview s) b"
      using inv ul by (simp add: log_inv_def unlocked_def)
    then show ?thesis using False by (simp add: apply_writes_other)
  qed
  have "log_list (lg_start s) (lg_size s) 0 bl" for bl using ll by (rule log_list_empty)
  moreover have "logged t = {}" using p by (simp add: logged_def log_blocks_def log_frame_def)
  ultimately have "log_inv t"
    using p inv ul hn both by (simp add: log_inv_def log_frame_def unlocked_def NBUF_def)
  then show "log_inv t \<and> unlocked t \<and> lh_n t = 0
     \<and> (\<forall>b. home (lg_start s) (lg_size s) b \<longrightarrow> c_disk (lview t) b = ldata s b \<and> ldata t b = ldata s b)
     \<and> c_trace (lview t) = c_trace (lview s) @ commit_writes s
     \<and> log_frame (s\<lparr>lh_n := 0\<rparr>) t"
    using p ul disk both by (auto simp: unlocked_def log_frame_def ldata_def)
qed

lemma initlog_spec:
  assumes b: "booted d r"
    and ll: "log_list (sb_logstart sb) (sint (sb_nlog sb)) (hdr_n (d (sb_logstart sb))) (hdr_block (d (sb_logstart sb)))"
  shows "wp (initlog me ROOTDEV sb) (\<lambda>_ t. booted (apply_writes (recovery_writes (sb_logstart sb) d) d) t
     \<and> c_trace (lview t) = c_trace (lview r) @ recovery_writes (sb_logstart sb) d
     \<and> log_inv t \<and> lh_n t = 0 \<and> lg_outstanding t = lg_outstanding r \<and> lg_committing t = lg_committing r
     \<and> lg_start t = sb_logstart sb \<and> lg_size t = sint (sb_nlog sb)) r"
proof -
  let ?r = "r\<lparr>lg_start := sb_logstart sb, lg_size := sint (sb_nlog sb), lg_dev := ROOTDEV\<rparr>"
  let ?D = "apply_writes (recovery_writes (sb_logstart sb) d) d"
  have "booted d ?r" using b by (simp add: booted_def)
  note R = recover_spec [of d ?r me, simplified, OF this ll]
  have "hdr_n (?D (sb_logstart sb)) = 0"
    by (simp add: recovery_writes_def hdr_n_def)
  then have inv: "booted ?D t \<Longrightarrow> lh_n t = 0 \<Longrightarrow> lg_start t = sb_logstart sb \<Longrightarrow> lg_size t = sint (sb_nlog sb)
     \<Longrightarrow> lg_dev t = ROOTDEV \<Longrightarrow> log_inv t" for t
    using log_list_empty [OF ll] by (simp add: log_inv_def booted_def logged_def log_blocks_def NBUF_def)
  have "wp (initlog me ROOTDEV sb) Q r = wp (recover_from_log me) Q ?r" for Q
    by (simp add: initlog_def wp_simps LOGSIZE_def MAXOPBLOCKS_def BSIZE_def)
  then show ?thesis
    by (simp only:) (rule wp_cong_post [OF R], use inv in auto)
qed

section \<open>Properties\<close>

text \<open>An example: a file system with the layout \<open>mkfs\<close> gives it, and one open transaction that changed block 46.\<close>

definition boot_log :: log where
  "boot_log = \<lparr>lg_bio = boot_bio (\<lambda>_ _. 0), lg_start = 2, lg_size = 30, lg_outstanding = 0,
     lg_committing = False, lg_dev = ROOTDEV, lh_n = 0, lh_block = \<lambda>_. 0\<rparr>"

definition example_sb :: superblock where
  "example_sb = \<lparr>sb_magic = 0x10203040, sb_size = 2000, sb_nblocks = 1767, sb_ninodes = 200, sb_nlog = 30,
     sb_logstart = 2, sb_inodestart = 32, sb_bmapstart = 233\<rparr>"

definition example_txn :: log where
  "example_txn = (case mbind begin_op (\<lambda>_. logged_update 1 46 (\<lambda>d. d(0 := 7))) boot_log of
     Ok (_, t) \<Rightarrow> t | _ \<Rightarrow> boot_log)"

lemma home_46: "home 2 30 46"
proof -
  have "(46 :: u32) \<noteq> 2 + of_nat j" if "j < 30" for j
  proof
    assume "(46 :: u32) = 2 + of_nat j"
    then have "of_nat 44 = (of_nat j :: u32)" by (simp add: algebra_simps)
    then have "unat (of_nat 44 :: u32) = unat (of_nat j :: u32)" by (rule arg_cong)
    then show False using that by (simp add: unat_of_nat)
  qed
  then show ?thesis by (simp add: home_def)
qed

lemma boot_log_inv: "log_inv boot_log" "lheld boot_log = (\<lambda>_. None)" "booted (\<lambda>_ _. 0) boot_log"
  by (simp_all add: log_inv_def boot_log_def boot_bio_wf boot_bio_view log_list_def logged_def log_blocks_def
      NBUF_def hdr_n_def lheld_def booted_def LOGSIZE_def)

lemma example_txn:
  "log_inv example_txn" "unlocked example_txn" "lh_n example_txn = 1" "lg_outstanding example_txn = 1"
  "lg_start example_txn = 2" "lg_size example_txn = 30" "\<not> lg_committing example_txn"
  "ldata example_txn = (\<lambda>_ _. 0)(46 := (\<lambda>_. 0)(0 := 7))" "c_disk (lview example_txn) = (\<lambda>_ _. 0)"
proof -
  let ?s = "boot_log\<lparr>lg_outstanding := 1\<rparr>"
  have s: "log_inv ?s" "lheld ?s = (\<lambda>_. None)" "home (lg_start ?s) (lg_size ?s) 46" "fs_room 1 ?s"
    using boot_log_inv home_46
    by (simp_all add: log_inv_def lheld_def fs_room_def boot_log_def NBUF_def logged_def)
  from logged_update_spec [OF s, of 1 "\<lambda>d. d(0 := 7)"] obtain t where
    t: "logged_update 1 46 (\<lambda>d. d(0 := 7)) ?s = Ok ((), t)" "log_inv t" "same_txn ?s t" "lheld t = (\<lambda>_. None)"
       "lh_n t = (if 46 \<in> logged ?s then lh_n ?s else lh_n ?s + 1)"
       "ldata t = (ldata ?s)(46 := (ldata ?s 46)(0 := 7))"
    by (auto simp: wp_iff_Ok)
  have b: "begin_op boot_log = Ok ((), ?s)"
    by (simp add: begin_op_def km_defs boot_log_def MAXOPBLOCKS_def LOGSIZE_def)
  have e: "example_txn = t"
    using b t(1) by (simp add: example_txn_def mbind_Ok)
  have d: "ldata ?s = (\<lambda>_ _. 0)" "c_disk (lview ?s) = (\<lambda>_ _. 0)" "logged ?s = {}"
    by (simp_all add: ldata_def boot_log_def boot_bio_view logged_def log_blocks_def)
  show "log_inv example_txn" "unlocked example_txn" "lh_n example_txn = 1" "lg_outstanding example_txn = 1"
    "lg_start example_txn = 2" "lg_size example_txn = 30" "\<not> lg_committing example_txn"
    "ldata example_txn = (\<lambda>_ _. 0)(46 := (\<lambda>_. 0)(0 := 7))" "c_disk (lview example_txn) = (\<lambda>_ _. 0)"
    using t d e by (simp_all add: unlocked_def lheld_def same_txn_def boot_log_def)
qed

text \<open>
  C1. A commit is atomic with respect to crashes. From a state that satisfies the log invariant,
  with a non-empty transaction and no locked buffer, \<open>commit\<close> returns, and whatever prefix of the
  block writes it issues has reached the disk when the machine stops, the \<open>initlog\<close> of the next boot
  returns with every block outside the log at its contents from before the transaction (when the
  header write had not completed) or every one at the contents the transaction gave it (when it had).
\<close>

theorem commit_crash_atomic:
  assumes "log_inv s" "unlocked s" "0 < lh_n s"
    and "sb_logstart sb = lg_start s" "sint (sb_nlog sb) = lg_size s"
  shows "\<exists>t W. commit me s = Ok ((), t) \<and> c_trace (lview t) = c_trace (lview s) @ W
    \<and> (\<forall>k r. k \<le> length W \<longrightarrow> booted (apply_writes (take k W) (c_disk (lview s))) r \<longrightarrow>
        (\<exists>u. initlog me' ROOTDEV sb r = Ok ((), u) \<and> log_inv u
          \<and> (\<forall>b. home (lg_start s) (lg_size s) b \<longrightarrow>
               c_disk (lview u) b = (if k \<le> nat (lh_n s) then c_disk (lview s) b else c_data (lview s) b))))"
proof -
  from commit_log_inv [OF assms(1-3), of me] obtain t where
    t: "commit me s = Ok ((), t)" "c_trace (lview t) = c_trace (lview s) @ commit_writes s"
    by (auto simp: wp_iff_Ok)
  have "\<exists>u. initlog me' ROOTDEV sb r = Ok ((), u) \<and> log_inv u \<and> (\<forall>b. home (lg_start s) (lg_size s) b \<longrightarrow>
      c_disk (lview u) b = (if k \<le> nat (lh_n s) then c_disk (lview s) b else c_data (lview s) b))"
    if "k \<le> length (commit_writes s)" "booted (apply_writes (take k (commit_writes s)) (c_disk (lview s))) r" for k r
    using initlog_spec [OF that(2), of sb me'] crash_replay [OF assms(1,2) that(1)] assms(4,5)
    by (auto simp: wp_iff_Ok booted_def)
  with t show ?thesis by blast
qed

theorem commit_crash_atomic_witness:
  "\<exists>t W. commit 1 example_txn = Ok ((), t) \<and> c_trace (lview t) = c_trace (lview example_txn) @ W
    \<and> (\<forall>k r. k \<le> length W \<longrightarrow> booted (apply_writes (take k W) (\<lambda>_ _. 0)) r \<longrightarrow>
        (\<exists>u. initlog 1 ROOTDEV example_sb r = Ok ((), u)
          \<and> c_disk (lview u) 46 = (if k \<le> 1 then \<lambda>_. 0 else (\<lambda>_. 0)(0 := 7))))"
proof -
  have c: "c_data (lview example_txn) 46 = (\<lambda>_. 0)(0 := 7)"
    using example_txn(8) by (simp add: ldata_def)
  have pre: "0 < lh_n example_txn" "sb_logstart example_sb = lg_start example_txn"
    "sint (sb_nlog example_sb) = lg_size example_txn"
    using example_txn by (simp_all add: example_sb_def)
  from commit_crash_atomic [OF example_txn(1,2) pre, of 1 1] obtain t W where
    t: "commit 1 example_txn = Ok ((), t)" "c_trace (lview t) = c_trace (lview example_txn) @ W" and
    R: "\<And>k r. k \<le> length W \<Longrightarrow> booted (apply_writes (take k W) (\<lambda>_ _. 0)) r \<Longrightarrow>
      \<exists>u. initlog 1 ROOTDEV example_sb r = Ok ((), u) \<and> (\<forall>b. home 2 30 b \<longrightarrow> c_disk (lview u) b =
        (if k \<le> 1 then \<lambda>_. 0 else c_data (lview example_txn) b))"
    unfolding example_txn nat_one_as_int [symmetric] by metis
  have "\<exists>u. initlog 1 ROOTDEV example_sb r = Ok ((), u)
      \<and> c_disk (lview u) 46 = (if k \<le> 1 then \<lambda>_. 0 else (\<lambda>_. 0)(0 := 7))"
    if "k \<le> length W" "booted (apply_writes (take k W) (\<lambda>_ _. 0)) r" for k r
    using R [OF that] home_46 unfolding c [symmetric] by blast
  with t show ?thesis by blast
qed

text \<open>
  C2. Recovery itself may be interrupted any number of times. If the log header on disk is well formed,
  then after any prefix of the block writes of \<open>recover_from_log\<close> the header on disk is again well
  formed, and recovery started from there returns and leaves every block outside the log exactly as
  the uninterrupted recovery does.
\<close>

theorem recovery_crash_idempotent:
  assumes "booted d r" "booted (apply_writes (take k W) d) r'"
    and "log_list (sb_logstart sb) (sint (sb_nlog sb)) (hdr_n (d (sb_logstart sb))) (hdr_block (d (sb_logstart sb)))"
    and "initlog me ROOTDEV sb r = Ok ((), u)" "c_trace (lview u) = c_trace (lview r) @ W"
  shows "\<exists>u'. initlog me' ROOTDEV sb r' = Ok ((), u')
    \<and> (\<forall>b. home (sb_logstart sb) (sint (sb_nlog sb)) b \<longrightarrow> c_disk (lview u') b = c_disk (lview u) b)"
proof -
  let ?W = "recovery_writes (sb_logstart sb) d"
  note U = wpD [OF initlog_spec [OF assms(1,3)] assms(4)]
  then have W: "W = ?W" using assms(5) by simp
  have take: "take k ?W = take (min k (length ?W)) ?W" by (simp add: min_def)
  have r': "booted (apply_writes (take (min k (length ?W)) ?W) d) r'"
    using assms(2) W take by simp
  note R = recovery_replay [of "sb_logstart sb" _ d, OF assms(3), of "min k (length ?W)"]
  from initlog_spec [OF r', of sb me'] R U show ?thesis
    by (auto simp: wp_iff_Ok booted_def)
qed

definition example_crashed :: "u32 \<Rightarrow> block" where
  "example_crashed = (\<lambda>_ _. 0)(2 := put32 4 46 (put32 0 1 (\<lambda>_. 0)), 3 := \<lambda>_. 9)"

lemma example_crashed:
  "hdr_n (example_crashed 2) = 1" "hdr_block (example_crashed 2) 0 = 46"
  "log_list 2 30 1 (hdr_block (example_crashed 2))"
  "booted d (boot_log\<lparr>lg_bio := boot_bio d\<rparr>)"
  using home_46
  by (simp_all add: example_crashed_def hdr_n_def hdr_block_def log_list_def LOGSIZE_def MAXOPBLOCKS_def
      booted_def boot_bio_wf boot_bio_view)

theorem recovery_crash_idempotent_witness:
  "\<exists>u u' W. initlog 1 ROOTDEV example_sb (boot_log\<lparr>lg_bio := boot_bio example_crashed\<rparr>) = Ok ((), u)
    \<and> c_trace (lview u) = W \<and> length W = 2
    \<and> initlog 1 ROOTDEV example_sb (boot_log\<lparr>lg_bio := boot_bio (apply_writes (take 1 W) example_crashed)\<rparr>) = Ok ((), u')
    \<and> c_disk (lview u') 46 = c_disk (lview u) 46"
proof -
  let ?r = "boot_log\<lparr>lg_bio := boot_bio example_crashed\<rparr>"
  have ll: "log_list (sb_logstart example_sb) (sint (sb_nlog example_sb))
      (hdr_n (example_crashed (sb_logstart example_sb))) (hdr_block (example_crashed (sb_logstart example_sb)))"
    using example_crashed by (simp add: example_sb_def)
  have home: "home (sb_logstart example_sb) (sint (sb_nlog example_sb)) 46"
    using home_46 by (simp add: example_sb_def)
  from initlog_spec [of example_crashed ?r example_sb 1, OF example_crashed(4) ll] obtain u where
    u: "initlog 1 ROOTDEV example_sb ?r = Ok ((), u)"
       "c_trace (lview u) = c_trace (lview ?r) @ recovery_writes (sb_logstart example_sb) example_crashed"
    by (auto simp: wp_iff_Ok)
  have tr: "c_trace (lview ?r) = []" by (simp add: boot_bio_view)
  have "length (recovery_writes (sb_logstart example_sb) example_crashed) = 2"
    using example_crashed(1) by (simp add: recovery_writes_def example_sb_def)
  with u tr home recovery_crash_idempotent [of example_crashed ?r 1
      "recovery_writes (sb_logstart example_sb) example_crashed" _ example_sb 1 u 1,
      OF example_crashed(4) example_crashed(4) ll u]
  show ?thesis by (rule_tac x = u in exI) auto
qed

text \<open>
  C6. A transaction that ends takes effect. With the log invariant, no locked buffer and one
  outstanding operation, \<open>end_op\<close> returns, the log is empty again and its invariant holds, nothing is
  outstanding, and every block outside the log has on disk, and in the cache, the contents it had in
  the cache before.
\<close>

theorem end_op_commits:
  assumes "log_inv s" "unlocked s" "lg_outstanding s = 1" "\<not> lg_committing s"
  shows "\<exists>t. end_op me s = Ok ((), t) \<and> log_inv t \<and> unlocked t \<and> lh_n t = 0 \<and> lg_outstanding t = 0
    \<and> \<not> lg_committing t \<and> (\<forall>b. home (lg_start s) (lg_size s) b \<longrightarrow>
        c_disk (lview t) b = c_data (lview s) b \<and> c_data (lview t) b = c_data (lview s) b)"
proof -
  let ?s = "s\<lparr>lg_outstanding := 0, lg_committing := True\<rparr>"
  have s: "log_inv ?s" "unlocked ?s"
    using assms by (simp_all add: log_inv_def unlocked_def logged_def)
  have down: "lg_outstanding_update (\<lambda>n. n - 1) s\<lparr>lg_committing := True\<rparr> = ?s"
    using assms(3) by (intro log.equality) simp_all
  have "wp (commit me) (\<lambda>_ t. log_inv t \<and> unlocked t \<and> lh_n t = 0 \<and> lg_outstanding t = 0
     \<and> (\<forall>b. home (lg_start s) (lg_size s) b \<longrightarrow>
        c_disk (lview t) b = c_data (lview s) b \<and> c_data (lview t) b = c_data (lview s) b)) ?s"
  proof (cases "0 < lh_n s")
    case True
    then show ?thesis
      by (intro wp_cong_post [OF commit_log_inv [OF s]]) (auto simp: ldata_def log_frame_def)
  next
    case False
    then have "lh_n s = 0" using assms(1) by (simp add: log_inv_def log_list_def)
    moreover from this have "logged s = {}" by (simp add: logged_def log_blocks_def)
    ultimately show ?thesis
      using assms s by (simp add: commit_def wp_simps log_inv_def unlocked_def)
  qed
  then have "wp (end_op me) (\<lambda>_ t. log_inv t \<and> unlocked t \<and> lh_n t = 0 \<and> lg_outstanding t = 0
    \<and> \<not> lg_committing t \<and> (\<forall>b. home (lg_start s) (lg_size s) b \<longrightarrow>
        c_disk (lview t) b = c_data (lview s) b \<and> c_data (lview t) b = c_data (lview s) b)) s"
    using assms(3,4) unfolding end_op_def wp_simps
    by (simp add: down) (erule wp_cong_post, auto simp: wp_simps log_inv_def unlocked_def logged_def)
  then show ?thesis by (auto simp: wp_iff_Ok)
qed

theorem end_op_commits_witness:
  "\<exists>t. end_op 1 example_txn = Ok ((), t) \<and> log_inv t \<and> c_disk (lview t) 46 0 = 7 \<and> lg_outstanding t = 0"
proof -
  have "c_data (lview example_txn) 46 0 = 7" using example_txn(8) by (simp add: ldata_def)
  with end_op_commits [OF example_txn(1,2,4,7), of 1] home_46 show ?thesis
    unfolding example_txn(5,6) by metis
qed



end
