(* ===== verification/Cstring.thy ===== *)
theory Cstring
  imports Kernel_Prelude
begin

text \<open>
  \<open>kernel/string.c\<close> over byte memory.

  \<open>memset\<close> and \<open>memmove\<close> act on one memory, so that overlapping ranges are what they are in C. The
  string functions read through a pointer: such a pointer is the function from offsets to the bytes it
  points at, and the destination of a copy is the array it writes into, which in every use in the
  kernel is disjoint from the source.

  Shown: \<open>memmove\<close> is the simultaneous copy also when the ranges overlap; \<open>strncmp\<close> decides equality
  of the first \<open>n\<close> bytes up to the terminator; the copies write what they promise, never more than
  \<open>n\<close> bytes, and \<open>safestrcpy\<close> always terminates its result; \<open>strlen\<close> returns exactly when there is a
  terminator.
\<close>

section \<open>Model\<close>

type_synonym ptr = "nat \<Rightarrow> u8"

fun memset_loop :: "nat \<Rightarrow> nat \<Rightarrow> nat \<Rightarrow> u8 \<Rightarrow> block \<Rightarrow> block" where
  "memset_loop i 0 dst c m = m"
| "memset_loop i (Suc k) dst c m = memset_loop (Suc i) k dst c (m(dst + i := c))"

definition memset :: "nat \<Rightarrow> u32 \<Rightarrow> nat \<Rightarrow> block \<Rightarrow> block" where
  "memset dst c n m = memset_loop 0 n dst (ucast c) m"

fun memcmp :: "ptr \<Rightarrow> ptr \<Rightarrow> nat \<Rightarrow> int" where
  "memcmp s1 s2 0 = 0"
| "memcmp s1 s2 (Suc n) =
     (if s1 0 \<noteq> s2 0 then uint (s1 0) - uint (s2 0)
      else memcmp (\<lambda>i. s1 (Suc i)) (\<lambda>i. s2 (Suc i)) n)"

text \<open>The two loops of \<open>memmove\<close>: downwards from the ends, and upwards.\<close>

fun copy_down :: "nat \<Rightarrow> nat \<Rightarrow> nat \<Rightarrow> block \<Rightarrow> block" where
  "copy_down d s 0 m = m"
| "copy_down d s (Suc n) m = copy_down (d - 1) (s - 1) n (m(d - 1 := m (s - 1)))"

fun copy_up :: "nat \<Rightarrow> nat \<Rightarrow> nat \<Rightarrow> block \<Rightarrow> block" where
  "copy_up d s 0 m = m"
| "copy_up d s (Suc n) m = copy_up (Suc d) (Suc s) n (m(d := m s))"

definition memmove :: "nat \<Rightarrow> nat \<Rightarrow> nat \<Rightarrow> block \<Rightarrow> block" where
  "memmove dst src n m =
     (if n = 0 then m
      else if src < dst \<and> src + n > dst then copy_down (dst + n) (src + n) n m
      else copy_up dst src n m)"

definition memcpy :: "nat \<Rightarrow> nat \<Rightarrow> nat \<Rightarrow> block \<Rightarrow> block" where
  "memcpy dst src n m = memmove dst src n m"

fun strncmp :: "ptr \<Rightarrow> ptr \<Rightarrow> nat \<Rightarrow> int" where
  "strncmp p q 0 = 0"
| "strncmp p q (Suc n) =
     (if p 0 \<noteq> 0 \<and> p 0 = q 0 then strncmp (\<lambda>i. p (Suc i)) (\<lambda>i. q (Suc i)) n
      else uint (p 0) - uint (q 0))"

text \<open>
  \<open>strncpy\<close>: the copying loop stops after the terminator or after \<open>n\<close> bytes; the second loop fills
  the rest with zeros.  \<open>k\<close> is how many bytes have been written, \<open>n\<close> how many are left.
\<close>

fun zero_fill :: "nat \<Rightarrow> nat \<Rightarrow> ptr \<Rightarrow> ptr" where
  "zero_fill k 0 s = s"
| "zero_fill k (Suc n) s = zero_fill (Suc k) n (s(k := 0))"

fun strncpy_loop :: "nat \<Rightarrow> nat \<Rightarrow> ptr \<Rightarrow> ptr \<Rightarrow> ptr" where
  "strncpy_loop k 0 s t = s"
| "strncpy_loop k (Suc n) s t =
     (let s' = s(k := t k) in if t k \<noteq> 0 then strncpy_loop (Suc k) n s' t else zero_fill (Suc k) n s')"

definition strncpy :: "ptr \<Rightarrow> ptr \<Rightarrow> int \<Rightarrow> ptr" where
  "strncpy s t n = strncpy_loop 0 (nat n) s t"

text \<open>\<open>safestrcpy\<close>: at most \<open>n - 1\<close> bytes are copied, then the terminator is written.\<close>

fun safestrcpy_loop :: "nat \<Rightarrow> nat \<Rightarrow> ptr \<Rightarrow> ptr \<Rightarrow> ptr" where
  "safestrcpy_loop k 0 s t = s(k := 0)"
| "safestrcpy_loop k (Suc n) s t =
     (let s' = s(k := t k) in if t k \<noteq> 0 then safestrcpy_loop (Suc k) n s' t else s'(Suc k := 0))"

definition safestrcpy :: "ptr \<Rightarrow> ptr \<Rightarrow> int \<Rightarrow> ptr" where
  "safestrcpy s t n = (if n \<le> 0 then s else safestrcpy_loop 0 (nat n - 1) s t)"

text \<open>\<open>strlen\<close> runs until it meets a zero byte; \<open>None\<close>: there is none.\<close>

partial_function (option) strlen_from :: "ptr \<Rightarrow> nat \<Rightarrow> nat option" where
  "strlen_from s n = (if s n \<noteq> 0 then strlen_from s (Suc n) else Some n)"

definition strlen :: "ptr \<Rightarrow> nat option" where
  "strlen s = strlen_from s 0"

section \<open>Lemmas\<close>

lemma memset_loop_apply:
  "memset_loop i k dst c m a = (if dst + i \<le> a \<and> a < dst + i + k then c else m a)"
  by (induction k arbitrary: i m) auto

lemma memset_apply: "memset dst c n m a = (if dst \<le> a \<and> a < dst + n then ucast c else m a)"
  by (simp add: memset_def memset_loop_apply)

lemma copy_up_apply:
  assumes "d \<le> s \<or> s + n \<le> d"
  shows "copy_up d s n m a = (if d \<le> a \<and> a < d + n then m (s + (a - d)) else m a)"
  using assms
proof (induction n arbitrary: d s m)
  case (Suc n)
  have IH: "copy_up (Suc d) (Suc s) n m' a = (if Suc d \<le> a \<and> a < Suc d + n then m' (Suc s + (a - Suc d)) else m' a)" for m'
    using Suc.prems by (intro Suc.IH) auto
  have idx: "Suc s + (a - Suc d) = s + (a - d)" "s + (a - d) \<noteq> d" if "d < a" "a < Suc d + n"
    using that Suc.prems by auto
  show ?case
    using idx by (cases "d < a"; cases "a < Suc d + n") (auto simp: IH)
qed auto

lemma copy_down_apply:
  assumes "s \<le> d"
  shows "copy_down (d + n) (s + n) n m a = (if d \<le> a \<and> a < d + n then m (s + (a - d)) else m a)"
proof (induction n arbitrary: m)
  case 0
  then show ?case by auto
next
  case (Suc n)
  have "s + (a - d) \<noteq> d + n" if "a < d + n" "d \<le> a" using that assms by linarith
  then show ?case
    using Suc by (auto simp: less_Suc_eq)
qed

lemma memmove_apply: "memmove dst src n m a = (if dst \<le> a \<and> a < dst + n then m (src + (a - dst)) else m a)"
  using copy_up_apply [of dst src n m a] copy_down_apply [of src dst n m a]
  by (auto simp: memmove_def)

lemma memcmp_eq: "memcmp s1 s2 n = 0 \<longleftrightarrow> (\<forall>i<n. s1 i = s2 i)"
proof (induction s1 s2 n rule: memcmp.induct)
  case (2 s1 s2 n)
  have "(\<forall>i<Suc n. s1 i = s2 i) \<longleftrightarrow> s1 0 = s2 0 \<and> (\<forall>i<n. s1 (Suc i) = s2 (Suc i))"
    by (auto simp: less_Suc_eq_0_disj)
  moreover have "uint (s1 0) - uint (s2 0) = 0 \<longleftrightarrow> s1 0 = s2 0" by (simp add: word_uint_eq_iff)
  ultimately show ?case using 2 by auto
qed simp

text \<open>The bytes of a string field of length \<open>n\<close> that matter: up to the terminator.\<close>

primrec cstr :: "nat \<Rightarrow> ptr \<Rightarrow> u8 list" where
  "cstr 0 p = []"
| "cstr (Suc n) p = (if p 0 = 0 then [] else p 0 # cstr n (\<lambda>i. p (Suc i)))"

lemma strncmp_eq: "strncmp p q n = 0 \<longleftrightarrow> cstr n p = cstr n q"
proof (induction p q n rule: strncmp.induct)
  case (2 p q n)
  show ?case
  proof (cases "p 0 \<noteq> 0 \<and> p 0 = q 0")
    case True
    then show ?thesis using 2 by auto
  next
    case False
    have "uint (p 0) - uint (q 0) = 0 \<longleftrightarrow> p 0 = q 0" by (simp add: word_uint_eq_iff)
    then show ?thesis using False by auto
  qed
qed simp

lemma cstr_cong: "(\<And>i. i < n \<Longrightarrow> p i = q i) \<Longrightarrow> cstr n p = cstr n q"
proof (induction n arbitrary: p q)
  case (Suc n)
  have "cstr n (\<lambda>i. p (Suc i)) = cstr n (\<lambda>i. q (Suc i))"
    by (rule Suc.IH) (rule Suc.prems, simp)
  moreover have "p 0 = q 0" by (rule Suc.prems) simp
  ultimately show ?case by simp
qed simp

lemma zero_fill_apply: "zero_fill k n s i = (if k \<le> i \<and> i < k + n then 0 else s i)"
  by (induction n arbitrary: k s) auto

text \<open>\<open>strncpy\<close>: byte \<open>i < n\<close> is that of the source unless the source ended before.\<close>

lemma strncpy_loop_apply:
  "strncpy_loop k n s t i =
     (if k \<le> i \<and> i < k + n then (if \<exists>j. k \<le> j \<and> j < i \<and> t j = 0 then 0 else t i) else s i)"
proof (induction n arbitrary: k s)
  case (Suc n)
  show ?case
  proof (cases "t k \<noteq> 0")
    case True
    have "(\<exists>j. k \<le> j \<and> j < i \<and> t j = 0) = (\<exists>j. Suc k \<le> j \<and> j < i \<and> t j = 0)"
      using True by (metis Suc_leI Suc_leD le_neq_implies_less)
    with True Suc show ?thesis by (auto simp: Let_def)
  next
    case False
    then show ?thesis by (auto simp: Let_def zero_fill_apply)
  qed
qed auto

lemma strncpy_apply:
  "strncpy s t n i = (if int i < n then (if \<exists>j<i. t j = 0 then 0 else t i) else s i)"
  by (auto simp: strncpy_def strncpy_loop_apply)

lemma cstr_strncpy: "cstr (nat n) (strncpy s t n) = cstr (nat n) t"
proof -
  have "cstr k p = cstr k q" if "\<And>i. i < k \<Longrightarrow> p i = (if \<exists>j<i. q j = 0 then 0 else q i)" for k p q
    using that
  proof (induction k arbitrary: p q)
    case (Suc k)
    have "p 0 = q 0" using Suc.prems [of 0] by simp
    moreover have "cstr k (\<lambda>i. p (Suc i)) = cstr k (\<lambda>i. q (Suc i))" if "q 0 \<noteq> 0"
    proof (rule Suc.IH)
      fix i assume "i < k"
      moreover have "(\<exists>j<Suc i. q j = 0) = (\<exists>j<i. q (Suc j) = 0)"
        using that by (auto simp: less_Suc_eq_0_disj)
      ultimately show "p (Suc i) = (if \<exists>j<i. q (Suc j) = 0 then 0 else q (Suc i))"
        using Suc.prems [of "Suc i"] by simp
    qed
    ultimately show ?case by simp
  qed simp
  from this [of "nat n" "strncpy s t n" t] show ?thesis
    by (metis strncpy_apply zless_nat_conj zless_nat_eq_int_zless)
qed

lemma safestrcpy_loop_frame: "k + n < i \<Longrightarrow> safestrcpy_loop k n s t i = s i"
  by (induction n arbitrary: k s) (auto simp: Let_def)

lemma safestrcpy_loop_before: "i < k \<Longrightarrow> safestrcpy_loop k n s t i = s i"
  by (induction n arbitrary: k s) (auto simp: Let_def)

lemma safestrcpy_loop_copy:
  assumes "i < n" "\<And>j. k \<le> j \<Longrightarrow> j < k + i \<Longrightarrow> t j \<noteq> 0"
  shows "safestrcpy_loop k n s t (k + i) = t (k + i)"
  using assms
proof (induction i arbitrary: k n s)
  case 0
  then show ?case by (cases n) (auto simp: Let_def safestrcpy_loop_before)
next
  case (Suc i)
  then obtain n' where n: "n = Suc n'" "i < n'" by (cases n) auto
  have "t k \<noteq> 0" using Suc.prems(2) [of k] by simp
  then show ?case
    using Suc.IH [OF n(2), of "Suc k" "s(k := t k)"] Suc.prems(2) n by (simp add: Let_def fun_upd_def)
qed

lemma safestrcpy_loop_nul: "\<exists>j\<le>n. safestrcpy_loop k n s t (k + j) = 0
    \<and> (\<forall>i<j. safestrcpy_loop k n s t (k + i) = t (k + i) \<and> t (k + i) \<noteq> 0)"
proof (induction n arbitrary: k s)
  case (Suc n)
  show ?case
  proof (cases "t k \<noteq> 0")
    case True
    from Suc [of "Suc k" "s(k := t k)"] obtain j where j: "j \<le> n" "safestrcpy_loop (Suc k) n (s(k := t k)) t (Suc k + j) = 0"
      "\<forall>i<j. safestrcpy_loop (Suc k) n (s(k := t k)) t (Suc k + i) = t (Suc k + i) \<and> t (Suc k + i) \<noteq> 0" by blast
    show ?thesis
    proof (intro exI [of _ "Suc j"] conjI allI impI)
      fix i assume "i < Suc j"
      then show "safestrcpy_loop k (Suc n) s t (k + i) = t (k + i)" "t (k + i) \<noteq> 0"
        using j(3) True by (cases i; simp add: Let_def safestrcpy_loop_before)+
    qed (use j True in \<open>simp_all add: Let_def\<close>)
  next
    case False
    then show ?thesis by (intro exI [of _ 0]) (simp add: Let_def)
  qed
qed simp

lemma strlen_from_Some:
  assumes "strlen_from s n = Some k"
  shows "n \<le> k \<and> s k = 0 \<and> (\<forall>i. n \<le> i \<longrightarrow> i < k \<longrightarrow> s i \<noteq> 0)"
proof (rule strlen_from.raw_induct [OF _ assms])
  fix f and s :: ptr and n k
  assume IH: "\<And>s n k. f s n = Some k \<Longrightarrow> n \<le> k \<and> s k = 0 \<and> (\<forall>i. n \<le> i \<longrightarrow> i < k \<longrightarrow> s i \<noteq> 0)"
    and eq: "(if s n \<noteq> 0 then f s (Suc n) else Some n) = Some k"
  show "n \<le> k \<and> s k = 0 \<and> (\<forall>i. n \<le> i \<longrightarrow> i < k \<longrightarrow> s i \<noteq> 0)"
  proof (cases "s n = 0")
    case True
    with eq show ?thesis by auto
  next
    case False
    with eq have "f s (Suc n) = Some k" by simp
    note K = IH [OF this]
    have "s i \<noteq> 0" if "n \<le> i" "i < k" for i
      using K False that by (cases "i = n") auto
    with K show ?thesis by auto
  qed
qed

lemma strlen_from_total: "s k = 0 \<Longrightarrow> n \<le> k \<Longrightarrow> \<exists>j. strlen_from s n = Some j"
proof (induction "k - n" arbitrary: n)
  case 0
  then show ?case by (subst strlen_from.simps) auto
next
  case (Suc d)
  then have "d = k - Suc n" "Suc n \<le> k" by auto
  with Suc have "\<exists>j. strlen_from s (Suc n) = Some j" by blast
  then show ?case by (subst strlen_from.simps) auto
qed

end
