(* ===== verification/Riscv.thy ===== *)
theory Riscv
  imports Kernel_Prelude
begin

text \<open>
  The constants and address arithmetic of \<open>kernel/riscv.h\<close> and \<open>kernel/memlayout.h\<close>, on 64-bit words.

  Shown: rounding to pages (and when it wraps), that page-table entries give back the physical page and
  the flags they were made from, and that the three table indices and the page offset determine a
  virtual address below \<open>MAXVA\<close>.
\<close>

section \<open>Model\<close>

definition PGSIZE :: u64 where "PGSIZE = 4096"
definition PGSHIFT :: nat where "PGSHIFT = 12"

definition PGROUNDUP :: "u64 \<Rightarrow> u64" where
  "PGROUNDUP sz = (sz + PGSIZE - 1) AND NOT (PGSIZE - 1)"

definition PGROUNDDOWN :: "u64 \<Rightarrow> u64" where
  "PGROUNDDOWN a = a AND NOT (PGSIZE - 1)"

definition PTE_V :: u64 where "PTE_V = 1"
definition PTE_R :: u64 where "PTE_R = 2"
definition PTE_W :: u64 where "PTE_W = 4"
definition PTE_X :: u64 where "PTE_X = 8"
definition PTE_U :: u64 where "PTE_U = 16"

definition PA2PTE :: "u64 \<Rightarrow> u64" where
  "PA2PTE pa = push_bit 10 (drop_bit 12 pa)"

definition PTE2PA :: "u64 \<Rightarrow> u64" where
  "PTE2PA pte = push_bit 12 (drop_bit 10 pte)"

definition PTE_FLAGS :: "u64 \<Rightarrow> u64" where
  "PTE_FLAGS pte = pte AND 0x3FF"

definition PXMASK :: u64 where "PXMASK = 0x1FF"

definition PXSHIFT :: "nat \<Rightarrow> nat" where
  "PXSHIFT level = PGSHIFT + 9 * level"

definition PX :: "nat \<Rightarrow> u64 \<Rightarrow> u64" where
  "PX level va = drop_bit (PXSHIFT level) va AND PXMASK"

definition MAXVA :: u64 where
  "MAXVA = push_bit (9 + 9 + 9 + 12 - 1) 1"

definition SATP_SV39 :: u64 where "SATP_SV39 = push_bit 60 8"

definition MAKE_SATP :: "u64 \<Rightarrow> u64" where
  "MAKE_SATP pagetable = SATP_SV39 OR drop_bit 12 pagetable"

definition SSTATUS_SPP :: u64 where "SSTATUS_SPP = push_bit 8 1"
definition SSTATUS_SPIE :: u64 where "SSTATUS_SPIE = push_bit 5 1"
definition SSTATUS_SIE :: u64 where "SSTATUS_SIE = push_bit 1 1"

text \<open>\<open>kernel/memlayout.h\<close>.\<close>

definition UART0 :: u64 where "UART0 = 0x10000000"
definition UART0_IRQ :: int where "UART0_IRQ = 10"
definition VIRTIO0 :: u64 where "VIRTIO0 = 0x10001000"
definition VIRTIO0_IRQ :: int where "VIRTIO0_IRQ = 1"
definition PLIC :: u64 where "PLIC = 0x0c000000"
definition KERNBASE :: u64 where "KERNBASE = 0x80000000"
definition PHYSTOP :: u64 where "PHYSTOP = KERNBASE + 128 * 1024 * 1024"
definition TRAMPOLINE :: u64 where "TRAMPOLINE = MAXVA - PGSIZE"

definition KSTACK :: "nat \<Rightarrow> u64" where
  "KSTACK p = TRAMPOLINE - (of_nat p + 1) * 2 * PGSIZE"

definition TRAPFRAME :: u64 where "TRAPFRAME = TRAMPOLINE - PGSIZE"

lemmas riscv_consts = PGSIZE_def PGSHIFT_def PTE_V_def PTE_R_def PTE_W_def PTE_X_def PTE_U_def PXMASK_def
  PXSHIFT_def KERNBASE_def PHYSTOP_def

section \<open>Pages\<close>

lemma page_mask: "NOT (PGSIZE - 1) = NOT (mask 12)"
  by (simp add: PGSIZE_def mask_eq_exp_minus_1)

lemma PGROUNDDOWN_unat: "unat (PGROUNDDOWN a) = unat a div 4096 * 4096"
proof -
  have "PGROUNDDOWN a = push_bit 12 (drop_bit 12 a)"
    unfolding PGROUNDDOWN_def page_mask by (rule bit_word_eqI) (auto simp: bit_simps)
  then have "PGROUNDDOWN a = a div 2 ^ 12 * 2 ^ 12"
    by (simp add: push_bit_eq_mult drop_bit_eq_div)
  then have "unat (PGROUNDDOWN a) = unat (a div 2 ^ 12 * 2 ^ 12)" by simp
  also have "\<dots> = unat a div 4096 * 4096"
  proof -
    have "unat a < 2 ^ 64" using unsigned_less [where ?'a = nat, of a] by simp
    moreover have "unat a div 4096 * 4096 \<le> unat a" "unat a div 4096 \<le> unat a" by simp_all
    ultimately have "unat a div 4096 * 4096 < 2 ^ 64" "unat a div 4096 < 2 ^ 64" by linarith+
    then show ?thesis by (simp add: unat_word_ariths unat_div_distrib)
  qed
  finally show ?thesis .
qed

lemma PGROUNDDOWN_le: "PGROUNDDOWN a \<le> a"
  by (simp add: word_le_nat_alt PGROUNDDOWN_unat)

lemma PGROUNDDOWN_offset: "unat (a - PGROUNDDOWN a) = unat a mod 4096"
  using PGROUNDDOWN_le [of a] by (simp add: unat_sub PGROUNDDOWN_unat minus_div_mult_eq_mod)

lemma PGROUNDUP_eq_DOWN: "PGROUNDUP a = PGROUNDDOWN (a + 4095)"
  by (simp add: PGROUNDUP_def PGROUNDDOWN_def PGSIZE_def add.commute)

lemma PGROUNDUP_unat:
  assumes "unat a + 4095 < 2 ^ 64"
  shows "unat (PGROUNDUP a) = (unat a + 4095) div 4096 * 4096"
proof -
  have "unat (a + 4095) = unat a + 4095"
    using assms by (simp add: unat_add_lem [THEN iffD1])
  then show ?thesis by (simp add: PGROUNDUP_eq_DOWN PGROUNDDOWN_unat)
qed

section \<open>Page-table entries\<close>

lemma PA2PTE_PTE2PA:
  assumes "pa AND (PGSIZE - 1) = 0" "drop_bit 56 pa = 0" "flags AND NOT 0x3FF = 0"
  shows "PTE2PA (PA2PTE pa OR flags) = pa" and "PTE_FLAGS (PA2PTE pa OR flags) = flags"
proof -
  have low: "\<not> bit pa n" if "n < 12" for n
  proof -
    have "bit (pa AND mask 12) n = False"
      using assms(1) by (simp add: PGSIZE_def mask_eq_exp_minus_1)
    then show ?thesis using that by (simp add: bit_simps)
  qed
  have high: "\<not> bit pa n" if "56 \<le> n" for n
  proof -
    have "bit (drop_bit 56 pa) (n - 56) = False" using assms(2) by simp
    then show ?thesis using that by (simp add: bit_simps)
  qed
  have fl: "\<not> bit flags n" if "10 \<le> n" for n
  proof (cases "n < 64")
    case True
    have "(flags AND NOT (mask 10)) = 0"
      using assms(3) by (simp add: mask_eq_exp_minus_1)
    then have "bit (flags AND NOT (mask 10)) n = False" by simp
    then show ?thesis using that True by (simp add: bit_simps)
  next
    case False
    then show ?thesis using bit_imp_le_length [of flags n] by auto
  qed
  show "PTE2PA (PA2PTE pa OR flags) = pa"
    unfolding PTE2PA_def PA2PTE_def
  proof (rule bit_word_eqI)
    fix n assume "n < LENGTH(64)"
    then show "bit (push_bit 12 (drop_bit 10 (push_bit 10 (drop_bit 12 pa) OR flags))) n = bit pa n"
      using low [of n] fl [of "n - 2"] high [of n] by (cases "n < 12") (auto simp: bit_simps)
  qed
  show "PTE_FLAGS (PA2PTE pa OR flags) = flags"
    unfolding PTE_FLAGS_def PA2PTE_def
  proof (rule bit_word_eqI)
    fix n assume "n < LENGTH(64)"
    then have "bit ((push_bit 10 (drop_bit 12 pa) OR flags) AND mask 10) n = bit flags n"
      using fl [of n] by (cases "n < 10") (auto simp: bit_simps)
    then show "bit ((push_bit 10 (drop_bit 12 pa) OR flags) AND 0x3FF) n = bit flags n"
      by (simp add: mask_eq_exp_minus_1)
  qed
qed

text \<open>The nine-bit indices and the offset determine a virtual address below \<open>MAXVA\<close>.\<close>

lemma PX_unat: "unat (PX level va) = unat va div 2 ^ (12 + 9 * level) mod 512"
proof -
  have "PX level va = take_bit 9 (drop_bit (12 + 9 * level) va)"
    by (simp add: PX_def riscv_consts take_bit_eq_mask mask_eq_exp_minus_1)
  then have "unat (PX level va) = take_bit 9 (drop_bit (12 + 9 * level) (take_bit LENGTH(64) (unat va)))"
    by (simp only: unsigned_take_bit_eq unsigned_drop_bit_eq)
  then show ?thesis
    using unsigned_less [where ?'a = nat, of va] by (simp add: take_bit_eq_mod drop_bit_eq_div)
qed

lemma PX_less: "unat (PX level va) < 512"
  by (simp add: PX_unat)

lemma MAXVA_unat: "unat MAXVA = 2 ^ 38"
  by (simp add: MAXVA_def)

lemma va_split:
  assumes "va < MAXVA"
  shows "unat va = unat (PX 2 va) * 2 ^ 30 + unat (PX 1 va) * 2 ^ 21 + unat (PX 0 va) * 2 ^ 12 + unat va mod 4096"
proof -
  let ?v = "unat va"
  define x where "x = ?v div 4096"
  have "?v < 2 ^ 38" using assms by (simp add: word_less_nat_alt MAXVA_unat)
  then have "x < 2 ^ 26" by (simp add: x_def)
  then have "x div 512 div 512 < 512" by simp
  then have top: "x div 512 div 512 mod 512 = x div 512 div 512" by simp
  have v: "?v = x * 4096 + ?v mod 4096" by (simp add: x_def)
  have div: "?v div 2 ^ 12 = x" "?v div 2 ^ 21 = x div 512" "?v div 2 ^ 30 = x div 512 div 512"
    by (simp_all add: x_def div_mult2_eq [symmetric])
  have "x = x div 512 * 512 + x mod 512" "x div 512 = x div 512 div 512 * 512 + x div 512 mod 512" by simp_all
  then have "x = x div 512 div 512 * 262144 + x div 512 mod 512 * 512 + x mod 512" by linarith
  then have "x * 4096 = (x div 512 div 512 * 262144 + x div 512 mod 512 * 512 + x mod 512) * 4096" by (rule arg_cong)
  then have "?v = x div 512 div 512 * 2 ^ 30 + x div 512 mod 512 * 2 ^ 21 + x mod 512 * 2 ^ 12 + ?v mod 4096"
    using v by (simp add: algebra_simps)
  then show ?thesis using div top by (simp add: PX_unat)
qed

end
