(* ===== verification/Kalloc.thy ===== *)
theory Kalloc
  imports Cstring Riscv
begin

text \<open>
  The physical page allocator of \<open>kernel/kalloc.c\<close>.

  Physical memory is a byte array; free pages are linked through their first eight bytes, as
  \<open>struct run\<close> does. \<open>km_end\<close> is the address of the linker symbol \<open>end\<close>. Every function holds
  \<open>kmem.lock\<close> around its accesses to the list, so each is one step.

  Shown: the free list is always a duplicate-free chain of aligned pages between \<open>end\<close> and
  \<open>PHYSTOP\<close>, \<open>nb_free_pages\<close> counts it, \<open>kalloc\<close> hands out a page that was free and touches no other
  byte, \<open>kfree\<close> returns it and touches no other byte, and \<open>kinit\<close> frees exactly the whole pages of
  the range. The locale \<open>page_allocator\<close> is the contract the page-table code relies on.
\<close>

section \<open>Model\<close>

record kmem =
  freelist :: u64
  nb_free_pages :: u64
  pm :: block
  km_end :: u64

definition kfree :: "u64 \<Rightarrow> (kmem, unit) km" where
  "kfree pa =
    mbind (mget km_end) (\<lambda>kend.
    mbind (mpanic_if (pa mod PGSIZE \<noteq> 0 \<or> pa < kend \<or> pa \<ge> PHYSTOP) ''kfree'') (\<lambda>_.
    mbind (mmod (\<lambda>s. s\<lparr>pm := memset (unat pa) 1 (unat PGSIZE) (pm s)\<rparr>)) (\<lambda>_.
    mmod (\<lambda>s. s\<lparr>pm := put64 (unat pa) (freelist s) (pm s), freelist := pa,
                nb_free_pages := nb_free_pages s + 1\<rparr>))))"

definition kalloc :: "(kmem, u64) km" where
  "kalloc =
    mbind (mget freelist) (\<lambda>r.
    mbind (mwhen (r \<noteq> 0) (mmod (\<lambda>s. s\<lparr>freelist := get64 (unat r) (pm s),
                nb_free_pages := nb_free_pages s - 1\<rparr>))) (\<lambda>_.
    mbind (mwhen (r \<noteq> 0) (mmod (\<lambda>s. s\<lparr>pm := memset (unat r) 5 (unat PGSIZE) (pm s)\<rparr>))) (\<lambda>_.
    mret r)))"

text \<open>The loop of \<open>freerange\<close>; the fuel bounds the number of pages below \<open>pa_end\<close>.\<close>

fun freerange_loop :: "nat \<Rightarrow> u64 \<Rightarrow> u64 \<Rightarrow> (kmem, unit) km" where
  "freerange_loop 0 p pa_end = mdiverge"
| "freerange_loop (Suc fuel) p pa_end =
     (if p + PGSIZE \<le> pa_end then mbind (kfree p) (\<lambda>_. freerange_loop fuel (p + PGSIZE) pa_end)
      else mret ())"

definition freerange :: "u64 \<Rightarrow> u64 \<Rightarrow> (kmem, unit) km" where
  "freerange pa_start pa_end = freerange_loop (Suc (unat pa_end div unat PGSIZE)) (PGROUNDUP pa_start) pa_end"

definition kinit :: "(kmem, unit) km" where
  "kinit =
    mbind (mmod (nb_free_pages_update (\<lambda>_. 0))) (\<lambda>_.
    mbind (mget km_end) (\<lambda>kend.
    freerange kend PHYSTOP))"

definition kalloc_free_memory :: "(kmem, u64) km" where
  "kalloc_free_memory = mget (\<lambda>s. nb_free_pages s * PGSIZE)"

section \<open>The free list\<close>

definition page_ok :: "u64 \<Rightarrow> u64 \<Rightarrow> bool" where
  "page_ok kend p \<longleftrightarrow> unat p mod 4096 = 0 \<and> kend \<le> p \<and> p < PHYSTOP"

primrec flist :: "block \<Rightarrow> u64 \<Rightarrow> u64 list \<Rightarrow> bool" where
  "flist m p [] \<longleftrightarrow> p = 0"
| "flist m p (x # xs) \<longleftrightarrow> p = x \<and> flist m (get64 (unat x) m) xs"

definition kmem_list :: "kmem \<Rightarrow> u64 list \<Rightarrow> bool" where
  "kmem_list s xs \<longleftrightarrow> 0 < km_end s \<and> flist (pm s) (freelist s) xs \<and> distinct xs
     \<and> (\<forall>x\<in>set xs. page_ok (km_end s) x) \<and> nb_free_pages s = of_nat (length xs)"

text \<open>The bytes of a page.\<close>

definition page_bytes :: "u64 \<Rightarrow> nat set" where
  "page_bytes p = {unat p..<unat p + 4096}"

lemma PHYSTOP_unat: "unat PHYSTOP = 0x88000000"
  by (simp add: PHYSTOP_def KERNBASE_def)

lemma page_ok_unat: "page_ok kend p \<Longrightarrow> unat p + 4096 \<le> 0x88000000"
proof -
  assume a: "page_ok kend p"
  then have "unat p < 0x88000000" by (simp add: page_ok_def word_less_nat_alt PHYSTOP_unat)
  moreover from a have "unat p mod 4096 = 0" by (simp add: page_ok_def)
  ultimately have "unat p div 4096 < 0x88000" "unat p = unat p div 4096 * 4096" by auto
  then show ?thesis by linarith
qed

lemma page_ok_mod: "page_ok kend p \<Longrightarrow> p mod PGSIZE = 0"
  by (simp add: page_ok_def PGSIZE_def word_unat_eq_iff unat_mod_distrib)

lemma page_disjoint:
  assumes "unat p mod 4096 = 0" "unat q mod 4096 = 0" "p \<noteq> q" "k < 4096" "l < 4096"
  shows "unat p + k \<noteq> unat q + l"
proof
  assume eq: "unat p + k = unat q + l"
  from assms have "(unat p + k) div 4096 = unat p div 4096" "(unat q + l) div 4096 = unat q div 4096"
    by (auto simp: div_add1_eq)
  with eq have "unat p div 4096 = unat q div 4096" by simp
  then have "unat p = unat q" using assms(1,2) by (metis mod_0_imp_dvd dvd_div_eq_iff)
  with assms(3) show False by (simp add: word_unat_eq_iff)
qed

lemma get64_cong: "(\<And>i. i < 8 \<Longrightarrow> m (a + i) = m' (a + i)) \<Longrightarrow> get64 a m = get64 a m'"
proof -
  assume h: "\<And>i. i < 8 \<Longrightarrow> m (a + i) = m' (a + i)"
  have "m a = m' a" "m (a + 1) = m' (a + 1)" "m (a + 2) = m' (a + 2)" "m (a + 3) = m' (a + 3)"
    "m (a + 4) = m' (a + 4)" "m (a + 4 + 1) = m' (a + 4 + 1)" "m (a + 4 + 2) = m' (a + 4 + 2)" "m (a + 4 + 3) = m' (a + 4 + 3)"
    using h [of 0] h [of 1] h [of 2] h [of 3] h [of 4] h [of 5] h [of 6] h [of 7] by (simp_all add: ac_simps)
  then show ?thesis unfolding get64_def get32_def by simp
qed

lemma flist_cong:
  assumes "\<And>x a. x \<in> set xs \<Longrightarrow> a \<in> page_bytes x \<Longrightarrow> m a = m' a"
  shows "flist m p xs = flist m' p xs"
  using assms
proof (induction xs arbitrary: p)
  case (Cons x xs)
  have "get64 (unat x) m = get64 (unat x) m'"
    by (rule get64_cong, rule Cons.prems [of x]) (auto simp: page_bytes_def)
  moreover have "flist m q xs = flist m' q xs" for q
    by (rule Cons.IH) (rule Cons.prems, auto)
  ultimately show ?case by simp
qed simp

lemma page_bytes_disjoint:
  assumes "page_ok e x" "page_ok e y" "x \<noteq> y"
  shows "page_bytes x \<inter> page_bytes y = {}"
proof -
  have "False" if "a \<in> page_bytes x" "a \<in> page_bytes y" for a
    using page_disjoint [of x y "a - unat x" "a - unat y"] assms that
    by (simp add: page_ok_def page_bytes_def less_diff_conv2)
  then show ?thesis by blast
qed

lemma put64_apply_other: "k < off \<or> off + 8 \<le> k \<Longrightarrow> put64 off w b k = b k"
  by (auto simp: put64_def)

section \<open>The operations on the free list\<close>

lemma memset_page: "memset (unat p) c (unat PGSIZE) m a = (if a \<in> page_bytes p then ucast c else m a)"
  by (auto simp: memset_apply PGSIZE_def page_bytes_def)

lemma kfree_spec:
  assumes inv: "kmem_list s xs" and ok: "page_ok (km_end s) pa" and new: "pa \<notin> set xs"
  shows "wp (kfree pa) (\<lambda>_ t. kmem_list t (pa # xs) \<and> km_end t = km_end s
     \<and> (\<forall>a. a \<notin> page_bytes pa \<longrightarrow> pm t a = pm s a)) s"
proof -
  let ?m = "put64 (unat pa) (freelist s) (memset (unat pa) 1 (unat PGSIZE) (pm s))"
  have frame: "?m a = pm s a" if "a \<notin> page_bytes pa" for a
  proof -
    have "a < unat pa \<or> unat pa + 8 \<le> a" using that by (auto simp: page_bytes_def)
    then show ?thesis using that by (simp add: put64_apply_other memset_page)
  qed
  have "flist ?m (freelist s) xs = flist (pm s) (freelist s) xs"
  proof (rule flist_cong)
    fix x a assume "x \<in> set xs" "a \<in> page_bytes x"
    then have "a \<notin> page_bytes pa"
      using page_bytes_disjoint [of "km_end s" x pa] inv ok new by (auto simp: kmem_list_def)
    then show "?m a = pm s a" by (rule frame)
  qed
  then have "kmem_list (s\<lparr>pm := ?m, freelist := pa, nb_free_pages := nb_free_pages s + 1\<rparr>) (pa # xs)"
    using inv ok new by (auto simp: kmem_list_def)
  with frame ok show ?thesis
    by (simp add: kfree_def wp_simps page_ok_mod) (auto simp: page_ok_def not_less)
qed

lemma kfree_panics:
  assumes "\<not> page_ok (km_end s) pa"
  shows "kfree pa s = Panic ''kfree''"
proof -
  have "pa mod PGSIZE = 0 \<longleftrightarrow> unat pa mod 4096 = 0"
    by (simp add: PGSIZE_def word_unat_eq_iff unat_mod_distrib)
  with assms show ?thesis by (auto simp: kfree_def km_defs page_ok_def)
qed

lemma kalloc_none: "kmem_list s [] \<Longrightarrow> kalloc s = Ok (0, s)"
  by (simp add: kalloc_def km_defs kmem_list_def)

lemma kalloc_spec:
  assumes inv: "kmem_list s (x # xs)"
  shows "wp kalloc (\<lambda>r t. r = x \<and> kmem_list t xs \<and> km_end t = km_end s
     \<and> (\<forall>a. pm t a = (if a \<in> page_bytes x then 5 else pm s a))) s"
proof -
  have fl: "freelist s = x" and ok: "page_ok (km_end s) x" and pos: "0 < km_end s"
    using inv by (simp_all add: kmem_list_def)
  then have "x \<noteq> 0" by (auto simp: page_ok_def)
  let ?m = "memset (unat x) 5 (unat PGSIZE) (pm s)"
  have "flist ?m p xs = flist (pm s) p xs" for p
  proof (rule flist_cong)
    fix y a assume "y \<in> set xs" "a \<in> page_bytes y"
    then have "a \<notin> page_bytes x"
      using page_bytes_disjoint [of "km_end s" y x] inv ok by (auto simp: kmem_list_def)
    then show "?m a = pm s a" by (simp add: memset_page)
  qed
  then show ?thesis
    using inv fl \<open>x \<noteq> 0\<close> by (simp add: kalloc_def wp_simps kmem_list_def memset_page)
qed

text \<open>\<open>freerange\<close> frees the whole pages of the range, and its fuel suffices.\<close>

fun pages :: "nat \<Rightarrow> u64 \<Rightarrow> u64 list" where
  "pages 0 p = []"
| "pages (Suc n) p = p # pages n (p + PGSIZE)"

lemma pages_unat:
  assumes "unat p + n * 4096 < 2 ^ 64"
  shows "map unat (pages n p) = map (\<lambda>i. unat p + i * 4096) [0..<n]"
  using assms
proof (induction n arbitrary: p)
  case (Suc n)
  have "unat (p + PGSIZE) = unat p + 4096"
    using Suc.prems by (simp add: PGSIZE_def unat_add_lem [THEN iffD1])
  with Suc.IH [of "p + PGSIZE"] Suc.prems have "map unat (pages n (p + PGSIZE)) = map (\<lambda>i. unat p + 4096 + i * 4096) [0..<n]"
    by simp
  moreover have "map (\<lambda>i. unat p + i * 4096) [0..<Suc n] = unat p # map (\<lambda>i. unat p + 4096 + i * 4096) [0..<n]"
    by (simp only: upt_conv_Cons zero_less_Suc list.map map_Suc_upt [symmetric] map_map comp_def) simp
  ultimately show ?case by simp
qed simp

lemma freerange_loop_spec:
  assumes "kmem_list s xs" "unat p mod 4096 = 0" "km_end s \<le> p" "pa_end \<le> PHYSTOP" "unat p + 4096 < 2 ^ 64"
    and "n = (unat pa_end - unat p) div 4096" "n < fuel" "set (pages n p) \<inter> set xs = {}"
  shows "wp (freerange_loop fuel p pa_end) (\<lambda>_ t. kmem_list t (rev (pages n p) @ xs) \<and> km_end t = km_end s) s"
  using assms
proof (induction n arbitrary: fuel p s xs)
  case 0
  then obtain f where f: "fuel = Suc f" by (cases fuel) auto
  have "unat (p + PGSIZE) = unat p + 4096"
    using 0(5) by (simp add: PGSIZE_def unat_add_lem [THEN iffD1])
  moreover have "unat pa_end - unat p < 4096" using 0(6) by (metis div_eq_0_iff zero_neq_numeral)
  ultimately have "\<not> p + PGSIZE \<le> pa_end" by (simp add: word_le_nat_alt)
  then show ?case using 0 f by (simp add: wp_simps)
next
  case (Suc n)
  then obtain f where f: "fuel = Suc f" "n < f" by (cases fuel) auto
  have up: "unat (p + PGSIZE) = unat p + 4096"
    using Suc(6) by (simp add: PGSIZE_def unat_add_lem [THEN iffD1])
  have pe: "unat pa_end \<le> 0x88000000" using Suc(5) by (simp add: word_le_nat_alt PHYSTOP_unat)
  have more: "unat p + 4096 \<le> unat pa_end" using Suc(7) by linarith
  then have le: "p + PGSIZE \<le> pa_end" by (simp add: word_le_nat_alt up)
  have ok: "page_ok (km_end s) p"
    using Suc(3,4) more pe by (simp add: page_ok_def word_less_nat_alt PHYSTOP_unat)
  have n: "n = (unat pa_end - unat (p + PGSIZE)) div 4096"
  proof -
    have "4096 \<le> unat pa_end - unat p" using more by simp
    from le_div_geq [OF _ this] Suc(7) show ?thesis by (simp add: up)
  qed
  have "n * 4096 \<le> unat pa_end - unat (p + PGSIZE)" using n by simp
  then have "unat (p + PGSIZE) + n * 4096 \<le> unat pa_end" using more up by linarith
  then have "unat (p + PGSIZE) + n * 4096 < 2 ^ 64" using pe by simp
  from arg_cong [OF pages_unat [OF this], of set] have "unat p \<notin> unat ` set (pages n (p + PGSIZE))"
    by (auto simp: up)
  then have "p \<notin> set (pages n (p + PGSIZE))" by blast
  show ?case
    unfolding f freerange_loop.simps using le
    apply (simp add: wp_mbind)
    apply (rule wp_cong_post [OF kfree_spec [OF Suc(2) ok]])
    subgoal using Suc(9) by simp
    subgoal for _ t
      apply (rule wp_cong_post [OF Suc.IH [of t "p # xs" "p + PGSIZE" f]])
      subgoal by simp
      subgoal using Suc(3) up by simp
      subgoal using Suc(4) up by (auto simp: word_le_nat_alt)
      subgoal by (rule Suc(5))
      subgoal using up more pe by simp
      subgoal by (rule n)
      subgoal by (rule f)
      subgoal using Suc(9) \<open>p \<notin> set (pages n (p + PGSIZE))\<close> by auto
      by auto
    done
qed

text \<open>The pages of the list, as a set that the state determines.\<close>

lemma flist_unique: "flist m p xs \<Longrightarrow> flist m p ys \<Longrightarrow> 0 \<notin> set xs \<Longrightarrow> 0 \<notin> set ys \<Longrightarrow> xs = ys"
proof (induction xs arbitrary: p ys)
  case Nil
  then show ?case by (cases ys) auto
next
  case (Cons x xs)
  then obtain ys' where "ys = x # ys'" by (cases ys) auto
  with Cons show ?case by auto
qed

lemma kmem_list_unique: "kmem_list s xs \<Longrightarrow> kmem_list s ys \<Longrightarrow> xs = ys"
proof -
  have "0 \<notin> set zs" if "kmem_list s zs" for zs
    using that by (force simp: kmem_list_def page_ok_def)
  then show "kmem_list s xs \<Longrightarrow> kmem_list s ys \<Longrightarrow> xs = ys"
    by (auto simp: kmem_list_def intro: flist_unique)
qed

definition kmem_wf :: "kmem \<Rightarrow> bool" where
  "kmem_wf s \<longleftrightarrow> (\<exists>xs. kmem_list s xs)"

definition free_pages :: "kmem \<Rightarrow> u64 set" where
  "free_pages s = {x. \<exists>xs. kmem_list s xs \<and> x \<in> set xs}"

lemma free_pages_eq: "kmem_list s xs \<Longrightarrow> free_pages s = set xs"
  using kmem_list_unique by (auto simp: free_pages_def)

text \<open>
  The contract of a page allocator: allocation takes some free page and changes no byte outside it, or
  fails when nothing is free; freeing puts a page back and changes no byte outside it.
\<close>

locale page_allocator =
  fixes wf :: "'s \<Rightarrow> bool"
    and free :: "'s \<Rightarrow> u64 set"
    and usable :: "'s \<Rightarrow> u64 \<Rightarrow> bool"
    and mem :: "'s \<Rightarrow> block"
    and alloc :: "('s, u64) km"
    and release_page :: "u64 \<Rightarrow> ('s, unit) km"
  assumes alloc_law: "wf s \<Longrightarrow> wp alloc (\<lambda>p t. wf t \<and> usable t = usable s
      \<and> (if free s = {} then p = 0 \<and> t = s
         else p \<in> free s \<and> usable s p \<and> p \<noteq> 0 \<and> free t = free s - {p}
           \<and> (\<forall>a. a \<notin> page_bytes p \<longrightarrow> mem t a = mem s a))) s"
    and release_law: "wf s \<Longrightarrow> usable s p \<Longrightarrow> p \<notin> free s
      \<Longrightarrow> wp (release_page p) (\<lambda>_ t. wf t \<and> usable t = usable s \<and> free t = insert p (free s)
        \<and> (\<forall>a. a \<notin> page_bytes p \<longrightarrow> mem t a = mem s a)) s"
    and free_usable: "wf s \<Longrightarrow> p \<in> free s \<Longrightarrow> usable s p"
begin

text \<open>A page that is allocated and freed again leaves the free set and all other bytes as they were.\<close>

lemma alloc_release:
  assumes "wf s" "free s \<noteq> {}"
  shows "wp (mbind alloc release_page) (\<lambda>_ t. wf t \<and> free t = free s
     \<and> (\<exists>p\<in>free s. \<forall>a. a \<notin> page_bytes p \<longrightarrow> mem t a = mem s a)) s"
  apply (rule wp_seq [OF alloc_law [OF assms(1)]])
  subgoal for p t
    apply (rule wp_cong_post [OF release_law [of t p]])
    using assms by auto
  done

end

lemma kalloc_law:
  assumes "kmem_wf s"
  shows "wp kalloc (\<lambda>p t. kmem_wf t \<and> page_ok (km_end t) = page_ok (km_end s)
      \<and> (if free_pages s = {} then p = 0 \<and> t = s
         else p \<in> free_pages s \<and> page_ok (km_end s) p \<and> p \<noteq> 0 \<and> free_pages t = free_pages s - {p}
           \<and> (\<forall>a. a \<notin> page_bytes p \<longrightarrow> pm t a = pm s a))) s"
proof -
  from assms obtain xs where xs: "kmem_list s xs" by (auto simp: kmem_wf_def)
  show ?thesis
  proof (cases xs)
    case Nil
    then show ?thesis
      using xs kalloc_none [of s] assms by (simp add: free_pages_eq wp_iff_Ok)
  next
    case (Cons x ys)
    have "x \<noteq> 0" "page_ok (km_end s) x" "distinct xs"
      using xs Cons by (auto simp: kmem_list_def page_ok_def)
    with xs Cons show ?thesis
      by (intro wp_cong_post [OF kalloc_spec [of s x ys]])
        (auto simp: free_pages_eq [of s xs] free_pages_eq [of _ ys] kmem_wf_def)
  qed
qed

lemma kfree_law:
  assumes "kmem_wf s" "page_ok (km_end s) p" "p \<notin> free_pages s"
  shows "wp (kfree p) (\<lambda>_ t. kmem_wf t \<and> page_ok (km_end t) = page_ok (km_end s) \<and> free_pages t = insert p (free_pages s)
        \<and> (\<forall>a. a \<notin> page_bytes p \<longrightarrow> pm t a = pm s a)) s"
proof -
  from assms obtain xs where xs: "kmem_list s xs" by (auto simp: kmem_wf_def)
  with assms show ?thesis
    by (intro wp_cong_post [OF kfree_spec [OF xs]])
      (auto simp: free_pages_eq [OF xs] free_pages_eq [of _ "p # xs"] kmem_wf_def)
qed

interpretation pg: page_allocator kmem_wf free_pages "\<lambda>s. page_ok (km_end s)" pm kalloc kfree
proof unfold_locales
  show "kmem_wf s \<Longrightarrow> p \<in> free_pages s \<Longrightarrow> page_ok (km_end s) p" for s p
    by (auto simp: free_pages_def kmem_list_def)
qed (use kalloc_law kfree_law in auto)

lemma pages_all:
  assumes "unat kend + 4095 < 2 ^ 64" "p = PGROUNDUP kend" "n = (unat PHYSTOP - unat p) div 4096" "unat p \<le> unat PHYSTOP"
  shows "set (pages n p) = {q. page_ok kend q}"
proof -
  have pu: "unat p = (unat kend + 4095) div 4096 * 4096"
    using PGROUNDUP_unat [OF assms(1)] assms(2) by simp
  then have pm: "unat p mod 4096 = 0" by simp
  have "n * 4096 \<le> unat PHYSTOP - unat p" using assms(3) by simp
  then have "unat p + n * 4096 \<le> 0x88000000" using assms(4) by (simp add: PHYSTOP_unat)
  then have "unat p + n * 4096 < 2 ^ 64" by simp
  from arg_cong [OF pages_unat [OF this], of set]
  have im: "unat ` set (pages n p) = (\<lambda>i. unat p + i * 4096) ` {..<n}" by (auto simp: lessThan_atLeast0)
  have top: "unat PHYSTOP = unat p + n * 4096"
  proof -
    have "(unat PHYSTOP - unat p) mod 4096 = 0"
      using pm assms(4) by (simp add: PHYSTOP_unat mod_eq_0_iff_dvd)
    then have "n * 4096 = unat PHYSTOP - unat p" using assms(3) by (metis mod_0_imp_dvd dvd_div_mult_self)
    then show ?thesis using assms(4) by simp
  qed
  have "page_ok kend q \<longleftrightarrow> unat q \<in> (\<lambda>i. unat p + i * 4096) ` {..<n}" for q
  proof
    assume q: "page_ok kend q"
    then have qm: "unat q mod 4096 = 0" and "unat kend \<le> unat q" and lt: "unat q < unat PHYSTOP"
      by (simp_all add: page_ok_def word_le_nat_alt word_less_nat_alt)
    then have "(unat kend + 4095) div 4096 \<le> (unat q + 4095) div 4096" by (simp add: div_le_mono)
    moreover have "(unat q + 4095) div 4096 = unat q div 4096" using qm by (simp add: div_add1_eq)
    ultimately have "unat p \<le> unat q" using pu qm by (metis mult_le_mono1 mod_0_imp_dvd dvd_div_mult_self)
    moreover have "(unat q - unat p) mod 4096 = 0"
      using pm qm \<open>unat p \<le> unat q\<close> by (simp add: mod_eq_0_iff_dvd)
    ultimately have "unat q = unat p + (unat q - unat p) div 4096 * 4096"
      by (simp add: mod_0_imp_dvd)
    moreover have "(unat q - unat p) div 4096 < n"
      using lt top \<open>unat p \<le> unat q\<close> by (simp add: less_mult_imp_div_less)
    ultimately show "unat q \<in> (\<lambda>i. unat p + i * 4096) ` {..<n}" by blast
  next
    assume "unat q \<in> (\<lambda>i. unat p + i * 4096) ` {..<n}"
    then obtain j where j: "j < n" "unat q = unat p + j * 4096" by auto
    have "unat kend \<le> unat p" unfolding pu by linarith
    moreover have "unat q < unat PHYSTOP" using j top by simp
    ultimately show "page_ok kend q"
      using j pm by (simp add: page_ok_def word_le_nat_alt word_less_nat_alt)
  qed
  moreover have "inj (unat :: u64 \<Rightarrow> nat)"
    by (rule injI) (simp add: word_unat_eq_iff)
  ultimately have "q \<in> set (pages n p) \<longleftrightarrow> page_ok kend q" for q
    unfolding im [symmetric] by (simp add: inj_image_mem_iff)
  then show ?thesis by blast
qed

section \<open>Properties\<close>

text \<open>
  C8. \<open>kinit\<close> returns, and then the free pages are exactly the page-aligned pages from \<open>end\<close> to
  \<open>PHYSTOP\<close>, on a well-formed list; \<open>kalloc_free_memory\<close> reports their total size in bytes.
\<close>

theorem kinit_frees_memory:
  assumes "freelist s = 0" "0 < km_end s" "unat (PGROUNDUP (km_end s)) \<le> unat PHYSTOP" "unat (km_end s) + 4095 < 2 ^ 64"
  shows "\<exists>t. kinit s = Ok ((), t) \<and> kmem_wf t \<and> free_pages t = {p. page_ok (km_end s) p}
    \<and> kalloc_free_memory t = Ok (of_nat (card (free_pages t)) * PGSIZE, t)"
proof -
  let ?s = "s\<lparr>nb_free_pages := 0\<rparr>" and ?p = "PGROUNDUP (km_end s)"
  let ?n = "(unat PHYSTOP - unat ?p) div 4096"
  have s: "kmem_list ?s []" using assms by (simp add: kmem_list_def)
  have up: "unat ?p = (unat (km_end s) + 4095) div 4096 * 4096" by (rule PGROUNDUP_unat [OF assms(4)])
  have "km_end s \<le> ?p" unfolding word_le_nat_alt up by linarith
  moreover have "unat ?p + 4096 < 2 ^ 64" using assms(3) by (simp add: PHYSTOP_unat)
  moreover have "?n < Suc (unat PHYSTOP div unat PGSIZE)" by (simp add: PGSIZE_def div_le_mono less_Suc_eq_le)
  ultimately have "wp (freerange (km_end s) PHYSTOP) (\<lambda>_ t. kmem_list t (rev (pages ?n ?p)) \<and> km_end t = km_end s) ?s"
    using freerange_loop_spec [OF s, of ?p PHYSTOP ?n "Suc (unat PHYSTOP div unat PGSIZE)"]
    unfolding freerange_def by (simp add: up del: freerange_loop.simps)
  then have "wp kinit (\<lambda>_ t. kmem_list t (rev (pages ?n ?p)) \<and> km_end t = km_end s) s"
    by (simp add: kinit_def wp_simps)
  then obtain t where t: "kinit s = Ok ((), t)" "kmem_list t (rev (pages ?n ?p))"
    by (auto simp: wp_iff_Ok)
  have "free_pages t = {p. page_ok (km_end s) p}"
    using free_pages_eq [OF t(2)] pages_all [OF assms(4) refl refl assms(3)] by simp
  moreover have "nb_free_pages t = of_nat (card (free_pages t))"
    using t(2) free_pages_eq [OF t(2)] by (auto simp: kmem_list_def distinct_card)
  ultimately show ?thesis
    using t by (auto simp: kmem_wf_def kalloc_free_memory_def mget_def)
qed

definition example_kmem :: kmem where
  "example_kmem = \<lparr>freelist = 0, nb_free_pages = 0, pm = \<lambda>_. 0, km_end = 0x80021000\<rparr>"

theorem kinit_frees_memory_witness:
  "\<exists>t. kinit example_kmem = Ok ((), t) \<and> kmem_wf t \<and> free_pages t = {p. page_ok 0x80021000 p}"
proof -
  have "unat (PGROUNDUP 0x80021000) = 0x80021000" by (simp add: PGROUNDUP_unat)
  then show ?thesis
    using kinit_frees_memory [of example_kmem] by (auto simp: example_kmem_def PHYSTOP_unat)
qed

text \<open>
  C9. \<open>kalloc\<close> on a well-formed allocator always returns. If no page is free it returns the null
  pointer and changes nothing. Otherwise it returns a page that was free, aligned and inside the
  managed range, removes exactly this page from the free pages, fills it with 5s, and changes no byte of
  any other page.
\<close>

theorem kalloc_correct:
  assumes "kmem_wf s"
  shows "\<exists>p t. kalloc s = Ok (p, t) \<and> kmem_wf t \<and>
    (if free_pages s = {} then p = 0 \<and> t = s
     else p \<in> free_pages s \<and> page_ok (km_end s) p \<and> p \<noteq> 0 \<and> free_pages t = free_pages s - {p}
       \<and> (\<forall>a. pm t a = (if a \<in> page_bytes p then 5 else pm s a)))"
proof -
  from assms obtain xs where xs: "kmem_list s xs" by (auto simp: kmem_wf_def)
  have "wp kalloc (\<lambda>p t. (p \<noteq> 0 \<longrightarrow> (\<forall>a. pm t a = (if a \<in> page_bytes p then 5 else pm s a)))) s"
  proof (cases xs)
    case Nil
    then show ?thesis using xs kalloc_none [of s] by (simp add: wp_iff_Ok)
  next
    case (Cons x ys)
    then show ?thesis using kalloc_spec [of s x ys] xs by (auto elim!: wp_cong_post)
  qed
  then obtain p t where t: "kalloc s = Ok (p, t)"
    "p \<noteq> 0 \<Longrightarrow> \<forall>a. pm t a = (if a \<in> page_bytes p then 5 else pm s a)"
    by (auto simp: wp_iff_Ok)
  from wpD [OF kalloc_law [OF assms] t(1)] t show ?thesis
    by (intro exI [of _ p] exI [of _ t]) (auto split: if_splits)
qed

definition example_one_page :: kmem where
  "example_one_page = \<lparr>freelist = 0x80021000, nb_free_pages = 1, pm = \<lambda>_. 0, km_end = 0x80021000\<rparr>"

lemma example_one_page: "kmem_list example_one_page [0x80021000]"
  by (simp add: example_one_page_def kmem_list_def page_ok_def PHYSTOP_def KERNBASE_def)

theorem kalloc_correct_witness:
  "\<exists>p t. kalloc example_one_page = Ok (p, t) \<and> p = 0x80021000 \<and> free_pages t = {} \<and> pm t 0x80021000 = 5"
proof -
  have "kmem_wf example_one_page" "free_pages example_one_page = {0x80021000}"
    using example_one_page free_pages_eq by (auto simp: kmem_wf_def)
  with kalloc_correct [of example_one_page] show ?thesis by (auto simp: page_bytes_def)
qed



end
