(* ===== verification/Vm.thy ===== *)
theory Vm
  imports Kalloc
begin

text \<open>
  \<open>kernel/vm.c\<close>: Sv39 page tables in physical memory, and the copies between user and kernel memory.

  The state is that of the page allocator, whose memory holds the page tables. A page table is the
  physical address of its root page; an entry is the eight bytes at its address. Kernel buffers outside
  the allocator (the sources of \<open>copyout\<close>, the destinations of \<open>copyin\<close> and \<open>copyinstr\<close>) are byte
  lists: \<open>copyin\<close> and \<open>copyinstr\<close> return the bytes they stored before they stopped, also when they fail.
  \<open>etext\<close>, \<open>trampoline\<close> and the stack pages of \<open>proc_mapstacks\<close> are arguments of \<open>kvmmake\<close>.

  \<open>Pagetable\<close> states the lookup a page table implements and shows that \<open>walk\<close> and \<open>mappages\<close> respect
  it; \<open>Usercopy\<close> relates \<open>copyout\<close> and \<open>copyin\<close> to it.
\<close>

section \<open>Memory accesses\<close>

text \<open>A load, a store, a \<open>memset\<close> and a \<open>memmove\<close> of the kernel on physical memory.\<close>

definition kload64 :: "u64 \<Rightarrow> (kmem, u64) km" where
  [km_defs]: "kload64 a = mget (\<lambda>s. get64 (unat a) (pm s))"

definition kstore64 :: "u64 \<Rightarrow> u64 \<Rightarrow> (kmem, unit) km" where
  [km_defs]: "kstore64 a w = mmod (\<lambda>s. s\<lparr>pm := put64 (unat a) w (pm s)\<rparr>)"

definition kmemset :: "u64 \<Rightarrow> u32 \<Rightarrow> u64 \<Rightarrow> (kmem, unit) km" where
  [km_defs]: "kmemset a c n = mmod (\<lambda>s. s\<lparr>pm := memset (unat a) c (unat n) (pm s)\<rparr>)"

definition kmemmove :: "u64 \<Rightarrow> u64 \<Rightarrow> u64 \<Rightarrow> (kmem, unit) km" where
  [km_defs]: "kmemmove d a n = mmod (\<lambda>s. s\<lparr>pm := memmove (unat d) (unat a) (unat n) (pm s)\<rparr>)"

definition store_bytes :: "nat \<Rightarrow> u8 list \<Rightarrow> block \<Rightarrow> block" where
  "store_bytes a bs m = (\<lambda>i. if a \<le> i \<and> i < a + length bs then bs ! (i - a) else m i)"

definition load_bytes :: "nat \<Rightarrow> nat \<Rightarrow> block \<Rightarrow> u8 list" where
  "load_bytes a n m = map (\<lambda>i. m (a + i)) [0..<n]"

section \<open>Page tables\<close>

fun walk_loop :: "nat \<Rightarrow> u64 \<Rightarrow> u64 \<Rightarrow> bool \<Rightarrow> (kmem, u64) km" where
  "walk_loop 0 pagetable va alloc = mret (pagetable + 8 * PX 0 va)"
| "walk_loop (Suc l) pagetable va alloc =
    (let pte = pagetable + 8 * PX (Suc l) va in
     mbind (kload64 pte) (\<lambda>e.
     if e AND PTE_V \<noteq> 0 then walk_loop l (PTE2PA e) va alloc
     else if \<not> alloc then mret 0
     else
       mbind kalloc (\<lambda>p.
       if p = 0 then mret 0
       else
         mbind (kmemset p 0 PGSIZE) (\<lambda>_.
         mbind (kstore64 pte (PA2PTE p OR PTE_V)) (\<lambda>_.
         walk_loop l p va alloc)))))"

definition walk :: "u64 \<Rightarrow> u64 \<Rightarrow> bool \<Rightarrow> (kmem, u64) km" where
  "walk pagetable va alloc =
    mbind (mpanic_if (va \<ge> MAXVA) ''walk'') (\<lambda>_.
    walk_loop 2 pagetable va alloc)"

definition walkaddr :: "u64 \<Rightarrow> u64 \<Rightarrow> (kmem, u64) km" where
  "walkaddr pagetable va =
    (if va \<ge> MAXVA then mret 0
     else
       mbind (walk pagetable va False) (\<lambda>pte.
       if pte = 0 then mret 0
       else
         mbind (kload64 pte) (\<lambda>e.
         if e AND PTE_V = 0 then mret 0
         else if e AND PTE_U = 0 then mret 0
         else mret (PTE2PA e))))"

text \<open>The endless loop of \<open>mappages\<close> makes \<open>size / PGSIZE\<close> rounds; that many are its fuel.\<close>

fun mappages_loop :: "nat \<Rightarrow> u64 \<Rightarrow> u64 \<Rightarrow> u64 \<Rightarrow> u64 \<Rightarrow> u64 \<Rightarrow> (kmem, int) km" where
  "mappages_loop 0 pagetable a lst pa perm = mdiverge"
| "mappages_loop (Suc fuel) pagetable a lst pa perm =
    mbind (walk pagetable a True) (\<lambda>pte.
    if pte = 0 then mret (- 1)
    else
      mbind (kload64 pte) (\<lambda>e.
      mbind (mpanic_if (e AND PTE_V \<noteq> 0) ''mappages: remap'') (\<lambda>_.
      mbind (kstore64 pte (PA2PTE pa OR perm OR PTE_V)) (\<lambda>_.
      if a = lst then mret 0
      else mappages_loop fuel pagetable (a + PGSIZE) lst (pa + PGSIZE) perm))))"

definition mappages :: "u64 \<Rightarrow> u64 \<Rightarrow> u64 \<Rightarrow> u64 \<Rightarrow> u64 \<Rightarrow> (kmem, int) km" where
  "mappages pagetable va sz pa perm =
    mbind (mpanic_if (va mod PGSIZE \<noteq> 0) ''mappages: va not aligned'') (\<lambda>_.
    mbind (mpanic_if (sz mod PGSIZE \<noteq> 0) ''mappages: size not aligned'') (\<lambda>_.
    mbind (mpanic_if (sz = 0) ''mappages: size'') (\<lambda>_.
    mappages_loop (unat (sz div PGSIZE)) pagetable va (va + sz - PGSIZE) pa perm)))"

definition kvmmap :: "u64 \<Rightarrow> u64 \<Rightarrow> u64 \<Rightarrow> u64 \<Rightarrow> u64 \<Rightarrow> (kmem, unit) km" where
  "kvmmap kpgtbl va pa sz perm =
    mbind (mappages kpgtbl va sz pa perm) (\<lambda>r.
    mpanic_if (r \<noteq> 0) ''kvmmap'')"

text \<open>\<open>proc_mapstacks\<close> of \<open>kernel/proc.c\<close>: one page per process, below the trampoline.\<close>

definition proc_mapstacks :: "nat \<Rightarrow> u64 \<Rightarrow> (kmem, unit) km" where
  "proc_mapstacks nproc kpgtbl =
    mfor [0..<nproc] (\<lambda>i.
      mbind kalloc (\<lambda>pa.
      mbind (mpanic_if (pa = 0) ''kalloc'') (\<lambda>_.
      kvmmap kpgtbl (KSTACK i) pa PGSIZE (PTE_R OR PTE_W))))"

definition kvmmake :: "u64 \<Rightarrow> u64 \<Rightarrow> nat \<Rightarrow> (kmem, u64) km" where
  "kvmmake etext trampoline nproc =
    mbind kalloc (\<lambda>kpgtbl.
    mbind (kmemset kpgtbl 0 PGSIZE) (\<lambda>_.
    mbind (kvmmap kpgtbl UART0 UART0 PGSIZE (PTE_R OR PTE_W)) (\<lambda>_.
    mbind (kvmmap kpgtbl VIRTIO0 VIRTIO0 PGSIZE (PTE_R OR PTE_W)) (\<lambda>_.
    mbind (kvmmap kpgtbl PLIC PLIC 0x4000000 (PTE_R OR PTE_W)) (\<lambda>_.
    mbind (kvmmap kpgtbl KERNBASE KERNBASE (etext - KERNBASE) (PTE_R OR PTE_X)) (\<lambda>_.
    mbind (kvmmap kpgtbl etext etext (PHYSTOP - etext) (PTE_R OR PTE_W)) (\<lambda>_.
    mbind (kvmmap kpgtbl TRAMPOLINE trampoline PGSIZE (PTE_R OR PTE_X)) (\<lambda>_.
    mbind (proc_mapstacks nproc kpgtbl) (\<lambda>_.
    mret kpgtbl)))))))))"

text \<open>\<open>uvmunmap\<close>: at most \<open>npages\<close> rounds.\<close>

fun uvmunmap_loop :: "nat \<Rightarrow> u64 \<Rightarrow> u64 \<Rightarrow> u64 \<Rightarrow> bool \<Rightarrow> (kmem, unit) km" where
  "uvmunmap_loop 0 pagetable a stop do_free = mdiverge"
| "uvmunmap_loop (Suc fuel) pagetable a stop do_free =
    (if a < stop then
       mbind (walk pagetable a False) (\<lambda>pte.
       mbind (mpanic_if (pte = 0) ''uvmunmap: walk'') (\<lambda>_.
       mbind (kload64 pte) (\<lambda>e.
       mbind (mpanic_if (e AND PTE_V = 0) ''uvmunmap: not mapped'') (\<lambda>_.
       mbind (mpanic_if (PTE_FLAGS e = PTE_V) ''uvmunmap: not a leaf'') (\<lambda>_.
       mbind (mwhen do_free (kfree (PTE2PA e))) (\<lambda>_.
       mbind (kstore64 pte 0) (\<lambda>_.
       uvmunmap_loop fuel pagetable (a + PGSIZE) stop do_free)))))))
     else mret ())"

definition uvmunmap :: "u64 \<Rightarrow> u64 \<Rightarrow> u64 \<Rightarrow> bool \<Rightarrow> (kmem, unit) km" where
  "uvmunmap pagetable va npages do_free =
    mbind (mpanic_if (va mod PGSIZE \<noteq> 0) ''uvmunmap: not aligned'') (\<lambda>_.
    uvmunmap_loop (Suc (unat npages)) pagetable va (va + npages * PGSIZE) do_free)"

definition uvmcreate :: "(kmem, u64) km" where
  "uvmcreate =
    mbind kalloc (\<lambda>pagetable.
    if pagetable = 0 then mret 0
    else
      mbind (kmemset pagetable 0 PGSIZE) (\<lambda>_.
      mret pagetable))"

definition uvmfirst :: "u64 \<Rightarrow> u8 list \<Rightarrow> (kmem, unit) km" where
  "uvmfirst pagetable src =
    mbind (mpanic_if (length src \<ge> unat PGSIZE) ''uvmfirst: more than a page'') (\<lambda>_.
    mbind kalloc (\<lambda>mem.
    mbind (kmemset mem 0 PGSIZE) (\<lambda>_.
    mbind (mappages pagetable 0 PGSIZE mem (PTE_W OR PTE_R OR PTE_X OR PTE_U)) (\<lambda>_.
    mmod (\<lambda>s. s\<lparr>pm := store_bytes (unat mem) src (pm s)\<rparr>)))))"

definition uvmdealloc :: "u64 \<Rightarrow> u64 \<Rightarrow> u64 \<Rightarrow> (kmem, u64) km" where
  "uvmdealloc pagetable oldsz newsz =
    (if newsz \<ge> oldsz then mret oldsz
     else
       mbind (mwhen (PGROUNDUP newsz < PGROUNDUP oldsz)
         (uvmunmap pagetable (PGROUNDUP newsz)
            (scast (ucast ((PGROUNDUP oldsz - PGROUNDUP newsz) div PGSIZE) :: u32)) True)) (\<lambda>_.
       mret newsz))"

fun uvmalloc_loop :: "nat \<Rightarrow> u64 \<Rightarrow> u64 \<Rightarrow> u64 \<Rightarrow> u64 \<Rightarrow> u64 \<Rightarrow> (kmem, u64) km" where
  "uvmalloc_loop 0 pagetable a oldsz newsz xperm = mdiverge"
| "uvmalloc_loop (Suc fuel) pagetable a oldsz newsz xperm =
    (if a < newsz then
       mbind kalloc (\<lambda>mem.
       if mem = 0 then
         mbind (uvmdealloc pagetable a oldsz) (\<lambda>_.
         mret 0)
       else
         mbind (kmemset mem 0 PGSIZE) (\<lambda>_.
         mbind (mappages pagetable a PGSIZE mem (PTE_R OR PTE_U OR xperm)) (\<lambda>r.
         if r \<noteq> 0 then
           mbind (kfree mem) (\<lambda>_.
           mbind (uvmdealloc pagetable a oldsz) (\<lambda>_.
           mret 0))
         else uvmalloc_loop fuel pagetable (a + PGSIZE) oldsz newsz xperm)))
     else mret newsz)"

definition uvmalloc :: "u64 \<Rightarrow> u64 \<Rightarrow> u64 \<Rightarrow> u64 \<Rightarrow> (kmem, u64) km" where
  "uvmalloc pagetable oldsz newsz xperm =
    (if newsz < oldsz then mret oldsz
     else
       let old = PGROUNDUP oldsz in
       uvmalloc_loop (Suc (Suc (unat newsz div unat PGSIZE))) pagetable old old newsz xperm)"

text \<open>
  \<open>freewalk\<close> recurses through the non-leaf entries; a page table has three levels, so its root needs
  depth three, and deeper nesting (which no page table of the kernel has) is \<open>Diverges\<close>.
\<close>

fun freewalk_at :: "nat \<Rightarrow> u64 \<Rightarrow> (kmem, unit) km" where
  "freewalk_at 0 pagetable = mdiverge"
| "freewalk_at (Suc depth) pagetable =
    mbind (mfor [0..<512] (\<lambda>i.
      mbind (kload64 (pagetable + 8 * of_nat i)) (\<lambda>pte.
      if pte AND PTE_V \<noteq> 0 \<and> pte AND (PTE_R OR PTE_W OR PTE_X) = 0 then
        mbind (freewalk_at depth (PTE2PA pte)) (\<lambda>_.
        kstore64 (pagetable + 8 * of_nat i) 0)
      else mpanic_if (pte AND PTE_V \<noteq> 0) ''freewalk: leaf''))) (\<lambda>_.
    kfree pagetable)"

definition freewalk :: "u64 \<Rightarrow> (kmem, unit) km" where
  "freewalk pagetable = freewalk_at 3 pagetable"

definition uvmfree :: "u64 \<Rightarrow> u64 \<Rightarrow> (kmem, unit) km" where
  "uvmfree pagetable sz =
    mbind (mwhen (sz > 0) (uvmunmap pagetable 0 (PGROUNDUP sz div PGSIZE) True)) (\<lambda>_.
    freewalk pagetable)"

fun uvmcopy_loop :: "nat \<Rightarrow> u64 \<Rightarrow> u64 \<Rightarrow> u64 \<Rightarrow> u64 \<Rightarrow> (kmem, int) km" where
  "uvmcopy_loop 0 old new i sz = mdiverge"
| "uvmcopy_loop (Suc fuel) old new i sz =
    (if i < sz then
       mbind (walk old i False) (\<lambda>pte.
       mbind (mpanic_if (pte = 0) ''uvmcopy: pte should exist'') (\<lambda>_.
       mbind (kload64 pte) (\<lambda>e.
       mbind (mpanic_if (e AND PTE_V = 0) ''uvmcopy: page not present'') (\<lambda>_.
       let pa = PTE2PA e; flags = PTE_FLAGS e;
           err = mbind (uvmunmap new 0 (i div PGSIZE) True) (\<lambda>_. mret (- 1)) in
       mbind kalloc (\<lambda>mem.
       if mem = 0 then err
       else
         mbind (kmemmove mem pa PGSIZE) (\<lambda>_.
         mbind (mappages new i PGSIZE mem flags) (\<lambda>r.
         if r \<noteq> 0 then mbind (kfree mem) (\<lambda>_. err)
         else uvmcopy_loop fuel old new (i + PGSIZE) sz)))))))
     else mret 0)"

definition uvmcopy :: "u64 \<Rightarrow> u64 \<Rightarrow> u64 \<Rightarrow> (kmem, int) km" where
  "uvmcopy old new sz = uvmcopy_loop (Suc (Suc (unat sz div unat PGSIZE))) old new 0 sz"

definition uvmclear :: "u64 \<Rightarrow> u64 \<Rightarrow> (kmem, unit) km" where
  "uvmclear pagetable va =
    mbind (walk pagetable va False) (\<lambda>pte.
    mbind (mpanic_if (pte = 0) ''uvmclear'') (\<lambda>_.
    mbind (kload64 pte) (\<lambda>e.
    kstore64 pte (e AND NOT PTE_U))))"

section \<open>Copies between user and kernel memory\<close>

text \<open>How many bytes one round of the copying loops handles: to the end of the page, at most \<open>len\<close>.\<close>

definition chunk :: "u64 \<Rightarrow> nat \<Rightarrow> nat" where
  "chunk va len = min (unat (PGSIZE - (va - PGROUNDDOWN va))) len"

lemma chunk_pos: "0 < len \<Longrightarrow> 0 < chunk va len"
proof -
  assume len: "0 < len"
  have "unat (va - PGROUNDDOWN va) < 4096" by (simp add: PGROUNDDOWN_offset)
  then have "va - PGROUNDDOWN va < PGSIZE" by (simp add: word_less_nat_alt PGSIZE_def)
  then have "PGSIZE - (va - PGROUNDDOWN va) \<noteq> 0" by auto
  then have "unat (PGSIZE - (va - PGROUNDDOWN va)) \<noteq> 0" by (simp only: unat_eq_zero) simp
  with len show ?thesis by (simp add: chunk_def)
qed

function copyout :: "u64 \<Rightarrow> u64 \<Rightarrow> u8 list \<Rightarrow> (kmem, int) km" where
  "copyout pagetable dstva src =
    (if src = [] then mret 0
     else
       let va0 = PGROUNDDOWN dstva; n = chunk dstva (length src) in
       if va0 \<ge> MAXVA then mret (- 1)
       else
         mbind (walk pagetable va0 False) (\<lambda>pte.
         if pte = 0 then mret (- 1)
         else
           mbind (kload64 pte) (\<lambda>e.
           if e AND PTE_V = 0 \<or> e AND PTE_U = 0 \<or> e AND PTE_W = 0 then mret (- 1)
           else
             mbind (mmod (\<lambda>s. s\<lparr>pm := store_bytes (unat (PTE2PA e + (dstva - va0))) (take n src) (pm s)\<rparr>)) (\<lambda>_.
             copyout pagetable (va0 + PGSIZE) (drop n src)))))"
  by pat_completeness auto
termination
  by (relation "measure (\<lambda>(pagetable, dstva, src). length src)") (auto simp: chunk_pos)

declare copyout.simps [simp del]

text \<open>\<open>copyin\<close> returns its result and the bytes that are in the destination when it stops.\<close>

function copyin :: "u64 \<Rightarrow> u64 \<Rightarrow> nat \<Rightarrow> (kmem, int \<times> u8 list) km" where
  "copyin pagetable srcva len =
    (if len = 0 then mret (0, [])
     else
       let va0 = PGROUNDDOWN srcva; n = chunk srcva len in
       mbind (walkaddr pagetable va0) (\<lambda>pa0.
       if pa0 = 0 then mret (- 1, [])
       else
         mbind (mget (\<lambda>s. load_bytes (unat (pa0 + (srcva - va0))) n (pm s))) (\<lambda>bs.
         mbind (copyin pagetable (va0 + PGSIZE) (len - n)) (\<lambda>(r, rest).
         mret (r, bs @ rest)))))"
  by pat_completeness auto
termination
  by (relation "measure (\<lambda>(pagetable, srcva, len). len)") (auto simp: chunk_pos)

declare copyin.simps [simp del]

text \<open>
  The inner loop of \<open>copyinstr\<close> over the bytes of one page: the bytes stored (with the terminator, if it
  was met) and whether it was.
\<close>

fun scan_nul :: "u8 list \<Rightarrow> u8 list \<times> bool" where
  "scan_nul [] = ([], False)"
| "scan_nul (b # bs) =
    (if b = 0 then ([0], True) else let (cs, got) = scan_nul bs in (b # cs, got))"

function copyinstr :: "u64 \<Rightarrow> u64 \<Rightarrow> nat \<Rightarrow> (kmem, int \<times> u8 list) km" where
  "copyinstr pagetable srcva mx =
    (if mx = 0 then mret (- 1, [])
     else
       let va0 = PGROUNDDOWN srcva; n = chunk srcva mx in
       mbind (walkaddr pagetable va0) (\<lambda>pa0.
       if pa0 = 0 then mret (- 1, [])
       else
         mbind (mget (\<lambda>s. scan_nul (load_bytes (unat (pa0 + (srcva - va0))) n (pm s)))) (\<lambda>(bs, got_null).
         if got_null then mret (0, bs)
         else
           mbind (copyinstr pagetable (va0 + PGSIZE) (mx - n)) (\<lambda>(r, rest).
           mret (r, bs @ rest)))))"
  by pat_completeness auto
termination
  by (relation "measure (\<lambda>(pagetable, srcva, mx). mx)") (auto simp: chunk_pos)

declare copyinstr.simps [simp del]

end
