(* ===== verification/Pagetable.thy ===== *)
theory Pagetable
  imports Vm
begin

text \<open>
  What the page tables of \<open>Vm\<close> mean, and that \<open>walk\<close> and \<open>mappages\<close> respect it.

  \<open>leaf\<close> is the lookup a page table implements: the leaf entry of a virtual address, zero where a
  level is missing. \<open>tree\<close> is the set of pages a table consists of; \<open>twf\<close> says that these pages
  are pages of the allocator, linked as a tree. The operations keep the tree disjoint from the free
  pages.
\<close>

section \<open>Page tables as trees\<close>

definition valid :: "u64 \<Rightarrow> bool" where
  "valid e \<longleftrightarrow> e AND PTE_V \<noteq> 0"

definition ent :: "block \<Rightarrow> u64 \<Rightarrow> nat \<Rightarrow> u64" where
  "ent m pt i = get64 (unat pt + 8 * i) m"

primrec leaf :: "nat \<Rightarrow> block \<Rightarrow> u64 \<Rightarrow> u64 \<Rightarrow> u64" where
  "leaf 0 m pt va = ent m pt (unat (PX 0 va))"
| "leaf (Suc l) m pt va =
     (let e = ent m pt (unat (PX (Suc l) va)) in if valid e then leaf l m (PTE2PA e) va else 0)"

text \<open>The address of the leaf entry, if all its levels are there.\<close>

primrec slot_of :: "nat \<Rightarrow> block \<Rightarrow> u64 \<Rightarrow> u64 \<Rightarrow> u64 option" where
  "slot_of 0 m pt va = Some (pt + 8 * PX 0 va)"
| "slot_of (Suc l) m pt va =
     (let e = ent m pt (unat (PX (Suc l) va)) in if valid e then slot_of l m (PTE2PA e) va else None)"

primrec tree :: "nat \<Rightarrow> block \<Rightarrow> u64 \<Rightarrow> u64 set" where
  "tree 0 m pt = {pt}"
| "tree (Suc l) m pt = insert pt (\<Union>i\<in>{i. i < 512 \<and> valid (ent m pt i)}. tree l m (PTE2PA (ent m pt i)))"

primrec twf :: "nat \<Rightarrow> (u64 \<Rightarrow> bool) \<Rightarrow> block \<Rightarrow> u64 \<Rightarrow> bool" where
  "twf 0 ok m pt \<longleftrightarrow> ok pt"
| "twf (Suc l) ok m pt \<longleftrightarrow> ok pt
     \<and> (\<forall>i<512. valid (ent m pt i) \<longrightarrow> twf l ok m (PTE2PA (ent m pt i)) \<and> pt \<notin> tree l m (PTE2PA (ent m pt i)))
     \<and> (\<forall>i<512. \<forall>j<512. i \<noteq> j \<longrightarrow> valid (ent m pt i) \<longrightarrow> valid (ent m pt j) \<longrightarrow>
          tree l m (PTE2PA (ent m pt i)) \<inter> tree l m (PTE2PA (ent m pt j)) = {})"

definition bytes_of :: "u64 set \<Rightarrow> nat set" where
  "bytes_of P = (\<Union>p\<in>P. page_bytes p)"

lemma bytes_of_simps [simp]: "bytes_of {} = {}" "bytes_of (insert p P) = page_bytes p \<union> bytes_of P"
  "bytes_of (P \<union> Q) = bytes_of P \<union> bytes_of Q"
  by (auto simp: bytes_of_def)

lemma bytes_of_mono: "P \<subseteq> Q \<Longrightarrow> bytes_of P \<subseteq> bytes_of Q"
  by (auto simp: bytes_of_def)

lemma bytes_of_disjoint:
  assumes "\<And>p. p \<in> P \<Longrightarrow> page_ok e p" "\<And>p. p \<in> Q \<Longrightarrow> page_ok e p" "P \<inter> Q = {}"
  shows "bytes_of P \<inter> bytes_of Q = {}"
proof -
  have "page_bytes p \<inter> page_bytes q = {}" if "p \<in> P" "q \<in> Q" for p q
    using page_bytes_disjoint [of e p q] assms that by blast
  then show ?thesis unfolding bytes_of_def by blast
qed

lemma ent_cong: "(\<And>a. a \<in> page_bytes pt \<Longrightarrow> m a = m' a) \<Longrightarrow> i < 512 \<Longrightarrow> ent m pt i = ent m' pt i"
  unfolding ent_def by (rule get64_cong) (auto simp: page_bytes_def)

lemma PX_lt: "unat (PX l va) < 512"
  by (rule PX_less)

lemma tree_root [simp]: "pt \<in> tree l m pt"
  by (cases l) auto

lemma tree_cong:
  assumes "\<And>a. a \<in> bytes_of (tree l m pt) \<Longrightarrow> m a = m' a"
  shows "tree l m' pt = tree l m pt" "twf l ok m' pt = twf l ok m pt" "leaf l m' pt va = leaf l m pt va"
    "slot_of l m' pt va = slot_of l m pt va"
proof -
  have "tree l m' pt = tree l m pt \<and> twf l ok m' pt = twf l ok m pt \<and> leaf l m' pt va = leaf l m pt va
      \<and> slot_of l m' pt va = slot_of l m pt va"
    using assms
  proof (induction l arbitrary: pt)
    case 0
    then show ?case using ent_cong [of pt m' m] PX_lt by auto
  next
    case (Suc l)
    have e: "ent m' pt i = ent m pt i" if "i < 512" for i
      by (rule ent_cong [OF _ that]) (use Suc.prems in auto)
    have IH: "tree l m' (PTE2PA (ent m pt i)) = tree l m (PTE2PA (ent m pt i))
        \<and> twf l ok m' (PTE2PA (ent m pt i)) = twf l ok m (PTE2PA (ent m pt i))
        \<and> leaf l m' (PTE2PA (ent m pt i)) va = leaf l m (PTE2PA (ent m pt i)) va
        \<and> slot_of l m' (PTE2PA (ent m pt i)) va = slot_of l m (PTE2PA (ent m pt i)) va"
      if "i < 512" "valid (ent m pt i)" for i
    proof (rule Suc.IH)
      fix a assume "a \<in> bytes_of (tree l m (PTE2PA (ent m pt i)))"
      then have "a \<in> bytes_of (tree (Suc l) m pt)" using that by (auto simp: bytes_of_def)
      then show "m a = m' a" by (rule Suc.prems)
    qed
    have "tree (Suc l) m' pt = tree (Suc l) m pt" using e IH by auto
    moreover have "twf (Suc l) ok m' pt = twf (Suc l) ok m pt" using e IH by (simp cong: conj_cong)
    moreover have "leaf (Suc l) m' pt va = leaf (Suc l) m pt va" "slot_of (Suc l) m' pt va = slot_of (Suc l) m pt va"
      using e [OF PX_lt] IH [OF PX_lt] by (simp_all add: Let_def)
    ultimately show ?case by blast
  qed
  then show "tree l m' pt = tree l m pt" "twf l ok m' pt = twf l ok m pt" "leaf l m' pt va = leaf l m pt va"
    "slot_of l m' pt va = slot_of l m pt va" by blast+
qed

lemma twf_ok: "twf l ok m pt \<Longrightarrow> p \<in> tree l m pt \<Longrightarrow> ok p"
  by (induction l arbitrary: pt) auto

lemma twf_children:
  assumes "twf (Suc l) ok m pt" "i < 512" "valid (ent m pt i)"
  shows "twf l ok m (PTE2PA (ent m pt i))" "pt \<notin> tree l m (PTE2PA (ent m pt i))"
    "tree l m (PTE2PA (ent m pt i)) \<subseteq> tree (Suc l) m pt"
    "\<And>j. j < 512 \<Longrightarrow> j \<noteq> i \<Longrightarrow> valid (ent m pt j) \<Longrightarrow>
       tree l m (PTE2PA (ent m pt j)) \<inter> tree l m (PTE2PA (ent m pt i)) = {}"
  using assms by auto

lemma twf_root: "twf l ok m pt \<Longrightarrow> ok pt"
  by (cases l) auto

text \<open>A zeroed page is the empty table of every level.\<close>

lemma zero_page:
  assumes "\<And>a. a \<in> page_bytes pt \<Longrightarrow> m a = 0" "ok pt"
  shows "tree l m pt = {pt}" "twf l ok m pt" "leaf l m pt va = 0"
proof -
  have e: "ent m pt i = 0" if "i < 512" for i
    using ent_cong [of pt m "\<lambda>_. 0" i] assms(1) that by (simp add: ent_def)
  then show "tree l m pt = {pt}" "twf l ok m pt" "leaf l m pt va = 0"
    using assms(2) PX_lt by (cases l; simp add: valid_def Let_def)+
qed

text \<open>\<open>walk\<close> without allocation is the lookup, and changes nothing.\<close>

lemma entry_addr:
  assumes "page_ok kend pt" "i < 512"
  shows "unat (pt + 8 * of_nat i) = unat pt + 8 * i"
proof -
  have "unat pt + 4096 \<le> 0x88000000" by (rule page_ok_unat [OF assms(1)])
  moreover have "unat (8 * of_nat i :: u64) = 8 * i"
    using assms(2) by (simp add: unat_word_ariths unat_of_nat)
  ultimately show ?thesis using assms(2) by (simp add: unat_word_ariths)
qed

lemma entry_addr_PX:
  "page_ok kend pt \<Longrightarrow> unat (pt + 8 * PX l va) = unat pt + 8 * unat (PX l va)"
  using entry_addr [OF _ PX_lt, of kend pt l va] by simp

lemma walk_loop_lookup:
  assumes "twf l (page_ok kend) (pm s) pt"
  shows "walk_loop l pt va False s = Ok (case slot_of l (pm s) pt va of None \<Rightarrow> 0 | Some a \<Rightarrow> a, s)"
  using assms
proof (induction l arbitrary: pt)
  case 0
  then show ?case by (simp add: km_defs)
next
  case (Suc l)
  have "unat (pt + 8 * PX (Suc l) va) = unat pt + 8 * unat (PX (Suc l) va)"
    by (rule entry_addr_PX) (use Suc.prems in auto)
  moreover have "valid (ent (pm s) pt (unat (PX (Suc l) va))) \<Longrightarrow>
      twf l (page_ok kend) (pm s) (PTE2PA (ent (pm s) pt (unat (PX (Suc l) va))))"
    using Suc.prems PX_lt by auto
  ultimately show ?case using Suc.IH by (simp add: km_defs Let_def ent_def valid_def)
qed

lemma leaf_slot:
  "twf l (page_ok kend) m pt \<Longrightarrow>
     leaf l m pt va = (case slot_of l m pt va of None \<Rightarrow> 0 | Some a \<Rightarrow> get64 (unat a) m)"
proof (induction l arbitrary: pt)
  case 0
  then show ?case by (simp add: entry_addr_PX ent_def)
next
  case (Suc l)
  then show ?case using PX_lt by (auto simp: Let_def)
qed

lemma slot_nonzero: "twf l (page_ok kend) m pt \<Longrightarrow> 0 < kend \<Longrightarrow> slot_of l m pt va = Some a \<Longrightarrow> a \<noteq> 0"
proof (induction l arbitrary: pt)
  case 0
  then have "unat a = unat pt + 8 * unat (PX 0 va)" by (auto simp: entry_addr_PX)
  moreover have "0 < unat pt" using 0 by (auto simp: page_ok_def word_le_nat_alt word_less_nat_alt)
  ultimately show ?case by auto
next
  case (Suc l)
  then show ?case using PX_lt by (auto simp: Let_def split: if_splits)
qed

section \<open>Walking with allocation\<close>

text \<open>A table whose pages are pages of the allocator, and not free.\<close>

definition table :: "nat \<Rightarrow> kmem \<Rightarrow> u64 \<Rightarrow> bool" where
  "table l s pt \<longleftrightarrow> kmem_wf s \<and> twf l (page_ok (km_end s)) (pm s) pt \<and> tree l (pm s) pt \<inter> free_pages s = {}"

text \<open>
  What an operation on a table may do: take pages from the allocator into the tree, and change bytes
  of the tree and of these pages only.
\<close>

definition grows :: "nat \<Rightarrow> u64 \<Rightarrow> kmem \<Rightarrow> kmem \<Rightarrow> bool" where
  "grows l pt s t \<longleftrightarrow> km_end t = km_end s \<and> free_pages t \<subseteq> free_pages s
     \<and> tree l (pm s) pt \<subseteq> tree l (pm t) pt
     \<and> tree l (pm t) pt \<subseteq> tree l (pm s) pt \<union> (free_pages s - free_pages t)
     \<and> (\<forall>a. a \<notin> bytes_of (tree l (pm s) pt \<union> free_pages s) \<longrightarrow> pm t a = pm s a)"

lemma free_page_ok: "kmem_wf s \<Longrightarrow> p \<in> free_pages s \<Longrightarrow> page_ok (km_end s) p"
  by (rule pg.free_usable)

lemma table_frame:
  assumes "kmem_wf s" "twf l (page_ok (km_end s)) (pm s) q" "tree l (pm s) q \<inter> (P \<union> free_pages s) = {}"
    and "\<And>p. p \<in> P \<Longrightarrow> page_ok (km_end s) p"
    and "\<And>a. a \<notin> bytes_of (P \<union> free_pages s) \<Longrightarrow> m' a = pm s a"
  shows "tree l m' q = tree l (pm s) q" "twf l ok m' q = twf l ok (pm s) q" "leaf l m' q va = leaf l (pm s) q va"
    "slot_of l m' q va = slot_of l (pm s) q va"
proof -
  have "bytes_of (tree l (pm s) q) \<inter> bytes_of (P \<union> free_pages s) = {}"
    by (rule bytes_of_disjoint [of _ "km_end s"]) (use assms twf_ok free_page_ok in blast)+
  then have "\<And>a. a \<in> bytes_of (tree l (pm s) q) \<Longrightarrow> pm s a = m' a"
    using assms(5) by (metis disjoint_iff)
  then show "tree l m' q = tree l (pm s) q" "twf l ok m' q = twf l ok (pm s) q"
    "leaf l m' q va = leaf l (pm s) q va" "slot_of l m' q va = slot_of l (pm s) q va"
    using tree_cong [of l "pm s" q m'] by blast+
qed

text \<open>Growing one subtree of a table grows the table and changes no other entry.\<close>

lemma grows_child:
  assumes tab: "table (Suc l) s pt" and i: "i < 512" "valid (ent (pm s) pt i)" and c: "c = PTE2PA (ent (pm s) pt i)"
    and t: "table l t c" "grows l c s t"
  shows "table (Suc l) t pt" "grows (Suc l) pt s t" "\<And>j. j < 512 \<Longrightarrow> ent (pm t) pt j = ent (pm s) pt j"
    "\<And>j va. j < 512 \<Longrightarrow> j \<noteq> i \<Longrightarrow> valid (ent (pm s) pt j) \<Longrightarrow>
       leaf l (pm t) (PTE2PA (ent (pm s) pt j)) va = leaf l (pm s) (PTE2PA (ent (pm s) pt j)) va"
proof -
  have w: "kmem_wf s" "kmem_wf t" and tw: "twf (Suc l) (page_ok (km_end s)) (pm s) pt"
    and dis: "tree (Suc l) (pm s) pt \<inter> free_pages s = {}" and e: "km_end t = km_end s"
    using tab t by (simp_all add: table_def grows_def)
  have okpt: "page_ok (km_end s) pt" using tw by simp
  have "twf l (page_ok (km_end s)) (pm s) c" using tw i c by simp
  then have okc: "p \<in> tree l (pm s) c \<Longrightarrow> page_ok (km_end s) p" for p
    by (rule twf_ok)
  have frame: "a \<notin> bytes_of (tree l (pm s) c \<union> free_pages s) \<Longrightarrow> pm t a = pm s a" for a
    using t by (simp add: grows_def)
  have "page_bytes pt \<inter> bytes_of (tree l (pm s) c \<union> free_pages s) = {}"
  proof -
    have "pt \<notin> tree l (pm s) c \<union> free_pages s" using tw i c dis by auto
    then have "bytes_of {pt} \<inter> bytes_of (tree l (pm s) c \<union> free_pages s) = {}"
      by (intro bytes_of_disjoint [of _ "km_end s"]) (use okpt okc free_page_ok [OF w(1)] in auto)
    then show ?thesis by simp
  qed
  then have same: "pm t a = pm s a" if "a \<in> page_bytes pt" for a
    using that frame by blast
  show ent: "ent (pm t) pt j = ent (pm s) pt j" if "j < 512" for j
    by (rule ent_cong [OF same that])
  have other: "tree l (pm t) (PTE2PA (ent (pm s) pt j)) = tree l (pm s) (PTE2PA (ent (pm s) pt j))"
    "twf l ok (pm t) (PTE2PA (ent (pm s) pt j)) = twf l ok (pm s) (PTE2PA (ent (pm s) pt j))"
    "leaf l (pm t) (PTE2PA (ent (pm s) pt j)) va = leaf l (pm s) (PTE2PA (ent (pm s) pt j)) va"
    if "j < 512" "j \<noteq> i" "valid (ent (pm s) pt j)" for j ok va
  proof -
    have "tree l (pm s) (PTE2PA (ent (pm s) pt j)) \<inter> (tree l (pm s) c \<union> free_pages s) = {}"
      using twf_children(4) [OF tw i that(1,2,3)] twf_children(3) [OF tw that(1,3)] c dis by blast
    note F = table_frame [OF w(1) _ this okc frame]
    have "twf l (page_ok (km_end s)) (pm s) (PTE2PA (ent (pm s) pt j))" using tw that by simp
    from F [OF this] show "tree l (pm t) (PTE2PA (ent (pm s) pt j)) = tree l (pm s) (PTE2PA (ent (pm s) pt j))"
      "twf l ok (pm t) (PTE2PA (ent (pm s) pt j)) = twf l ok (pm s) (PTE2PA (ent (pm s) pt j))"
      "leaf l (pm t) (PTE2PA (ent (pm s) pt j)) va = leaf l (pm s) (PTE2PA (ent (pm s) pt j)) va" by blast+
  qed
  show "\<And>j va. j < 512 \<Longrightarrow> j \<noteq> i \<Longrightarrow> valid (ent (pm s) pt j) \<Longrightarrow>
       leaf l (pm t) (PTE2PA (ent (pm s) pt j)) va = leaf l (pm s) (PTE2PA (ent (pm s) pt j)) va"
    by (rule other(3))
  have grow_c: "tree l (pm s) c \<subseteq> tree l (pm t) c" "tree l (pm t) c \<subseteq> tree l (pm s) c \<union> (free_pages s - free_pages t)"
    and fr: "free_pages t \<subseteq> free_pages s"
    using t by (simp_all add: grows_def)
  have tr: "tree (Suc l) (pm t) pt = insert pt (tree l (pm t) c \<union>
      (\<Union>j\<in>{j. j < 512 \<and> j \<noteq> i \<and> valid (ent (pm s) pt j)}. tree l (pm s) (PTE2PA (ent (pm s) pt j))))"
    using i c by (auto simp: ent other(1)) (metis other(1))+
  have tr0: "tree (Suc l) (pm s) pt = insert pt (tree l (pm s) c \<union>
      (\<Union>j\<in>{j. j < 512 \<and> j \<noteq> i \<and> valid (ent (pm s) pt j)}. tree l (pm s) (PTE2PA (ent (pm s) pt j))))"
    using i c by auto
  show "grows (Suc l) pt s t"
    unfolding grows_def
  proof (intro conjI allI impI)
    show "tree (Suc l) (pm s) pt \<subseteq> tree (Suc l) (pm t) pt"
      unfolding tr tr0 using grow_c by blast
    show "tree (Suc l) (pm t) pt \<subseteq> tree (Suc l) (pm s) pt \<union> (free_pages s - free_pages t)"
      unfolding tr tr0 using grow_c by blast
    show "pm t a = pm s a" if "a \<notin> bytes_of (tree (Suc l) (pm s) pt \<union> free_pages s)" for a
      using that frame unfolding tr0 by simp
  qed (use e fr in auto)
  have "twf (Suc l) (page_ok (km_end s)) (pm t) pt"
    unfolding twf.simps
  proof (intro conjI allI impI)
    fix j assume j: "j < 512" "valid (ent (pm t) pt j)"
    then have vj: "valid (ent (pm s) pt j)" by (simp add: ent)
    show "twf l (page_ok (km_end s)) (pm t) (PTE2PA (ent (pm t) pt j))"
      using t e c other(2) [of j] tw j vj by (cases "j = i") (auto simp: ent table_def)
    show "pt \<notin> tree l (pm t) (PTE2PA (ent (pm t) pt j))"
      using grow_c c other(1) [of j] tw j vj dis by (cases "j = i") (auto simp: ent)
  next
    fix j k assume jk: "j < 512" "k < 512" "j \<noteq> k" "valid (ent (pm t) pt j)" "valid (ent (pm t) pt k)"
    then have v: "valid (ent (pm s) pt j)" "valid (ent (pm s) pt k)" by (simp_all add: ent)
    have far: "tree l (pm t) c \<inter> tree l (pm s) (PTE2PA (ent (pm s) pt q)) = {}"
      if "q < 512" "q \<noteq> i" "valid (ent (pm s) pt q)" for q
      using grow_c twf_children(4) [OF tw i that] twf_children(3) [OF tw that(1,3)] dis c by blast
    show "tree l (pm t) (PTE2PA (ent (pm t) pt j)) \<inter> tree l (pm t) (PTE2PA (ent (pm t) pt k)) = {}"
      using jk v far [of j] far [of k] other(1) [of j] other(1) [of k] tw c
      by (cases "j = i"; cases "k = i") (auto simp: ent)
  qed (rule okpt)
  moreover have "tree (Suc l) (pm t) pt \<inter> free_pages t = {}"
    using t dis fr unfolding tr tr0 table_def by blast
  ultimately show "table (Suc l) t pt" using w e by (simp add: table_def)
qed

lemma PTE_roundtrip:
  assumes "page_ok kend p"
  shows "PTE2PA (PA2PTE p OR PTE_V) = p" "valid (PA2PTE p OR PTE_V)"
proof -
  have le: "unat p + 4096 \<le> 0x88000000" and al: "unat p mod 4096 = 0"
    using page_ok_unat [OF assms] assms by (simp_all add: page_ok_def)
  have "p AND (PGSIZE - 1) = 0"
  proof -
    have "p AND mask 12 = p mod 2 ^ 12" by (simp add: take_bit_eq_mask [symmetric] take_bit_eq_mod)
    moreover have "p mod 2 ^ 12 = 0" using al by (simp add: word_unat_eq_iff unat_mod_distrib)
    ultimately show ?thesis by (simp add: PGSIZE_def mask_eq_exp_minus_1)
  qed
  moreover have "drop_bit 56 p = 0"
  proof -
    have "unat (drop_bit 56 p) = drop_bit 56 (take_bit LENGTH(64) (unat p))"
      by (simp only: unsigned_drop_bit_eq)
    then have "unat (drop_bit 56 p) = unat p div 2 ^ 56"
      using unsigned_less [where ?'a = nat, of p] by (simp only: drop_bit_eq_div take_bit_eq_mod) simp
    then have "unat (drop_bit 56 p) = unat (0 :: u64)" using le by simp
    then show ?thesis by (simp only: word_unat_eq_iff)
  qed
  ultimately show "PTE2PA (PA2PTE p OR PTE_V) = p"
    by (intro PA2PTE_PTE2PA(1)) (simp_all add: PTE_V_def)
  have "bit (PA2PTE p OR PTE_V) 0" by (simp add: PTE_V_def bit_simps)
  then have "bit ((PA2PTE p OR PTE_V) AND PTE_V) 0" by (simp add: PTE_V_def bit_simps)
  then show "valid (PA2PTE p OR PTE_V)" unfolding valid_def by (metis bit_0_eq bot_apply bot_bool_def)
qed

text \<open>Linking a fresh zeroed page into an empty entry of a table.\<close>

lemma link_page:
  assumes tab: "table (Suc l) s pt" and i: "i < 512" "\<not> valid (ent (pm s) pt i)"
    and w: "kmem_wf t" "km_end t = km_end s" "free_pages t = free_pages s - {p}" and p: "p \<in> free_pages s"
    and m: "pm t = put64 (unat pt + 8 * i) (PA2PTE p OR PTE_V) m"
    and zero: "\<And>a. a \<in> page_bytes p \<Longrightarrow> m a = 0"
    and frame: "\<And>a. a \<notin> page_bytes p \<Longrightarrow> m a = pm s a"
  shows "table (Suc l) t pt" "grows (Suc l) pt s t" "ent (pm t) pt i = PA2PTE p OR PTE_V"
    "\<And>va. leaf (Suc l) (pm t) pt va = leaf (Suc l) (pm s) pt va"
proof -
  have tw: "twf (Suc l) (page_ok (km_end s)) (pm s) pt" and ws: "kmem_wf s"
    and dis: "tree (Suc l) (pm s) pt \<inter> free_pages s = {}"
    using tab by (simp_all add: table_def)
  have okp: "page_ok (km_end s) p" by (rule free_page_ok [OF ws p])
  have okpt: "page_ok (km_end s) pt" using tw by simp
  note pte = PTE_roundtrip [OF okp]
  have "p \<noteq> pt" using dis p by auto
  then have pp: "page_bytes p \<inter> page_bytes pt = {}" by (rule page_bytes_disjoint [OF okp okpt])
  show e: "ent (pm t) pt i = PA2PTE p OR PTE_V" by (simp add: m ent_def)
  have ej: "ent (pm t) pt j = ent (pm s) pt j" if "j < 512" "j \<noteq> i" for j
  proof -
    have "ent (pm t) pt j = ent m pt j"
      unfolding ent_def m by (rule get64_put64_other) (use that in linarith)
    also have "\<dots> = ent (pm s) pt j" by (rule ent_cong [OF _ that(1)]) (use frame pp in blast)
    finally show ?thesis .
  qed
  have fr: "pm t a = pm s a" if "a \<notin> page_bytes p" "a \<notin> page_bytes pt" for a
  proof -
    have "a < unat pt + 8 * i \<or> unat pt + 8 * i + 8 \<le> a" using that(2) i by (auto simp: page_bytes_def)
    then show ?thesis using frame [OF that(1)] by (simp add: m put64_apply_other)
  qed
  have zp: "pm t a = 0" if "a \<in> page_bytes p" for a
  proof -
    have "a \<notin> page_bytes pt" using pp that by blast
    then have "a < unat pt + 8 * i \<or> unat pt + 8 * i + 8 \<le> a" using i by (auto simp: page_bytes_def)
    then show ?thesis using zero [OF that] by (simp add: m put64_apply_other)
  qed
  note zpage = zero_page [where pt = p and m = "pm t" and ok = "page_ok (km_end s)", OF zp okp]
  have other: "tree l (pm t) (PTE2PA (ent (pm s) pt j)) = tree l (pm s) (PTE2PA (ent (pm s) pt j))"
    "twf l ok (pm t) (PTE2PA (ent (pm s) pt j)) = twf l ok (pm s) (PTE2PA (ent (pm s) pt j))"
    "leaf l (pm t) (PTE2PA (ent (pm s) pt j)) va = leaf l (pm s) (PTE2PA (ent (pm s) pt j)) va"
    if "j < 512" "valid (ent (pm s) pt j)" for j ok va
  proof -
    have t: "twf l (page_ok (km_end s)) (pm s) (PTE2PA (ent (pm s) pt j))" using tw that by simp
    have d: "tree l (pm s) (PTE2PA (ent (pm s) pt j)) \<inter> ({pt} \<union> free_pages s) = {}"
      using tw dis that by auto
    have ok: "\<And>q. q \<in> {pt} \<Longrightarrow> page_ok (km_end s) q" using okpt by simp
    have f: "\<And>a. a \<notin> bytes_of ({pt} \<union> free_pages s) \<Longrightarrow> pm t a = pm s a"
      using fr p by (auto simp: bytes_of_def)
    note F = table_frame [OF ws t d ok f]
    show "tree l (pm t) (PTE2PA (ent (pm s) pt j)) = tree l (pm s) (PTE2PA (ent (pm s) pt j))"
      "twf l ok (pm t) (PTE2PA (ent (pm s) pt j)) = twf l ok (pm s) (PTE2PA (ent (pm s) pt j))"
      "leaf l (pm t) (PTE2PA (ent (pm s) pt j)) va = leaf l (pm s) (PTE2PA (ent (pm s) pt j)) va"
      using F by blast+
  qed
  have tr: "tree (Suc l) (pm t) pt = insert p (tree (Suc l) (pm s) pt)"
  proof -
    have "{j. j < 512 \<and> valid (ent (pm t) pt j)} = insert i {j. j < 512 \<and> valid (ent (pm s) pt j)}"
      using i e ej pte(2) by (auto, metis+)
    moreover have "tree l (pm t) (PTE2PA (ent (pm t) pt j)) = tree l (pm s) (PTE2PA (ent (pm s) pt j))"
      if "j < 512" "valid (ent (pm s) pt j)" for j
      using other(1) [OF that] ej [OF that(1)] that i by metis
    ultimately show ?thesis using e pte zpage(1) by auto
  qed
  show "grows (Suc l) pt s t"
    unfolding grows_def tr using w p fr by (auto simp: bytes_of_def)
  have "twf (Suc l) (page_ok (km_end s)) (pm t) pt"
    unfolding twf.simps
  proof (intro conjI allI impI)
    fix j assume j: "j < 512" "valid (ent (pm t) pt j)"
    show "twf l (page_ok (km_end s)) (pm t) (PTE2PA (ent (pm t) pt j))"
      using e pte zpage(2) other(2) [of j] ej [of j] tw j by (cases "j = i") auto
    show "pt \<notin> tree l (pm t) (PTE2PA (ent (pm t) pt j))"
      using e pte zpage(1) other(1) [of j] ej [of j] tw j \<open>p \<noteq> pt\<close> by (cases "j = i") auto
  next
    fix j k assume jk: "j < 512" "k < 512" "j \<noteq> k" "valid (ent (pm t) pt j)" "valid (ent (pm t) pt k)"
    have far: "p \<notin> tree l (pm s) (PTE2PA (ent (pm s) pt q))" if "q < 512" "valid (ent (pm s) pt q)" for q
      using dis p that by auto
    show "tree l (pm t) (PTE2PA (ent (pm t) pt j)) \<inter> tree l (pm t) (PTE2PA (ent (pm t) pt k)) = {}"
      using jk far [of j] far [of k] other(1) [of j] other(1) [of k] ej [of j] ej [of k] e pte zpage(1) tw
      by (cases "j = i"; cases "k = i") auto
  qed (rule okpt)
  moreover have "tree (Suc l) (pm t) pt \<inter> free_pages t = {}"
    unfolding tr using w dis by blast
  ultimately show "table (Suc l) t pt" using w by (simp add: table_def)
  show "leaf (Suc l) (pm t) pt va = leaf (Suc l) (pm s) pt va" for va
    using e ej [OF PX_lt, of "Suc l" va] other(3) [OF PX_lt, of "Suc l" va] pte zpage(3) i
    by (cases "unat (PX (Suc l) va) = i") (auto simp: Let_def)
qed

lemma kmem_wf_pm:
  assumes "kmem_wf s" "\<And>a. a \<in> bytes_of (free_pages s) \<Longrightarrow> m a = pm s a"
  shows "kmem_wf (s\<lparr>pm := m\<rparr>)" "free_pages (s\<lparr>pm := m\<rparr>) = free_pages s"
proof -
  from assms(1) obtain xs where xs: "kmem_list s xs" by (auto simp: kmem_wf_def)
  have "flist m (freelist s) xs = flist (pm s) (freelist s) xs"
    by (rule flist_cong) (use assms(2) free_pages_eq [OF xs] in \<open>auto simp: bytes_of_def\<close>)
  then have "kmem_list (s\<lparr>pm := m\<rparr>) xs" using xs by (simp add: kmem_list_def)
  then show "kmem_wf (s\<lparr>pm := m\<rparr>)" "free_pages (s\<lparr>pm := m\<rparr>) = free_pages s"
    using free_pages_eq xs by (auto simp: kmem_wf_def)
qed

lemma kalloc_end:
  assumes "kmem_wf s"
  shows "wp kalloc (\<lambda>p t. km_end t = km_end s \<and> kmem_wf t \<and> (if free_pages s = {} then p = 0 \<and> t = s
         else p \<in> free_pages s \<and> page_ok (km_end s) p \<and> p \<noteq> 0 \<and> free_pages t = free_pages s - {p}
           \<and> (\<forall>a. a \<notin> page_bytes p \<longrightarrow> pm t a = pm s a))) s"
proof -
  have "kalloc s = Ok (p, t) \<Longrightarrow> km_end t = km_end s" for p t
    by (auto simp: kalloc_def km_defs split: if_splits)
  with kalloc_law [OF assms] show ?thesis unfolding wp_iff_Ok by metis
qed

lemma grows_refl [simp]: "grows l pt s s"
  by (simp add: grows_def)

lemma grows_trans:
  assumes "kmem_wf s" "kmem_wf t" "grows l pt s t" "grows l pt t u"
  shows "grows l pt s u"
proof -
  have "bytes_of (tree l (pm t) pt \<union> free_pages t) \<subseteq> bytes_of (tree l (pm s) pt \<union> free_pages s)"
    by (rule bytes_of_mono) (use assms in \<open>auto simp: grows_def\<close>)
  then have "\<forall>a. a \<notin> bytes_of (tree l (pm s) pt \<union> free_pages s) \<longrightarrow> pm u a = pm s a"
    using assms unfolding grows_def by (metis subset_iff)
  moreover have "tree l (pm u) pt \<subseteq> tree l (pm s) pt \<union> (free_pages s - free_pages u)"
    using assms unfolding grows_def by blast
  moreover have "km_end u = km_end s" "free_pages u \<subseteq> free_pages s" "tree l (pm s) pt \<subseteq> tree l (pm u) pt"
    using assms unfolding grows_def by auto
  ultimately show ?thesis unfolding grows_def by blast
qed

text \<open>The step of the walk into a subtable that is there.\<close>

lemma into_child:
  assumes tab: "table (Suc l) s pt" and v: "valid (ent (pm s) pt (unat (PX (Suc l) va)))"
    and rec: "wp (walk_loop l (PTE2PA (ent (pm s) pt (unat (PX (Suc l) va)))) va True) (\<lambda>r t.
        table l t (PTE2PA (ent (pm s) pt (unat (PX (Suc l) va))))
        \<and> grows l (PTE2PA (ent (pm s) pt (unat (PX (Suc l) va)))) s t
        \<and> (\<forall>v. leaf l (pm t) (PTE2PA (ent (pm s) pt (unat (PX (Suc l) va)))) v
             = leaf l (pm s) (PTE2PA (ent (pm s) pt (unat (PX (Suc l) va)))) v)
        \<and> (r \<noteq> 0 \<longrightarrow> slot_of l (pm t) (PTE2PA (ent (pm s) pt (unat (PX (Suc l) va)))) va = Some r)
        \<and> (r = 0 \<longrightarrow> free_pages t = {})) s"
  shows "wp (walk_loop l (PTE2PA (ent (pm s) pt (unat (PX (Suc l) va)))) va True) (\<lambda>r t.
       table (Suc l) t pt \<and> grows (Suc l) pt s t
       \<and> (\<forall>v. leaf (Suc l) (pm t) pt v = leaf (Suc l) (pm s) pt v)
       \<and> (r \<noteq> 0 \<longrightarrow> slot_of (Suc l) (pm t) pt va = Some r) \<and> (r = 0 \<longrightarrow> free_pages t = {})) s"
proof (rule wp_cong_post [OF rec])
  let ?i = "unat (PX (Suc l) va)"
  let ?c = "PTE2PA (ent (pm s) pt ?i)"
  fix r t
  assume p: "table l t ?c \<and> grows l ?c s t \<and> (\<forall>v. leaf l (pm t) ?c v = leaf l (pm s) ?c v)
     \<and> (r \<noteq> 0 \<longrightarrow> slot_of l (pm t) ?c va = Some r) \<and> (r = 0 \<longrightarrow> free_pages t = {})"
  note G = grows_child [OF tab PX_lt v refl conjunct1 [OF p] conjunct1 [OF conjunct2 [OF p]]]
  have "leaf (Suc l) (pm t) pt v = leaf (Suc l) (pm s) pt v" for v
    using G(3) [OF PX_lt, of "Suc l" v] G(4) [OF PX_lt, of "Suc l" v v] p
    by (cases "unat (PX (Suc l) v) = ?i") (auto simp: Let_def)
  then show "table (Suc l) t pt \<and> grows (Suc l) pt s t
     \<and> (\<forall>v. leaf (Suc l) (pm t) pt v = leaf (Suc l) (pm s) pt v)
     \<and> (r \<noteq> 0 \<longrightarrow> slot_of (Suc l) (pm t) pt va = Some r) \<and> (r = 0 \<longrightarrow> free_pages t = {})"
    using G(1,2) G(3) [OF PX_lt] p v by (simp add: Let_def)
qed

lemma table_child:
  assumes "table (Suc l) s pt" "i < 512" "valid (ent (pm s) pt i)"
  shows "table l s (PTE2PA (ent (pm s) pt i))"
proof -
  have "twf (Suc l) (page_ok (km_end s)) (pm s) pt" using assms by (simp add: table_def)
  from twf_children(1,3) [OF this assms(2,3)] assms(1) show ?thesis unfolding table_def by blast
qed

lemma walk_loop_alloc:
  assumes "table l s pt" "0 < km_end s"
  shows "wp (walk_loop l pt va True) (\<lambda>r t. table l t pt \<and> grows l pt s t
     \<and> (\<forall>v. leaf l (pm t) pt v = leaf l (pm s) pt v)
     \<and> (r \<noteq> 0 \<longrightarrow> slot_of l (pm t) pt va = Some r) \<and> (r = 0 \<longrightarrow> free_pages t = {})) s"
  using assms
proof (induction l arbitrary: pt s)
  case 0
  have "slot_of 0 (pm s) pt va \<noteq> Some 0"
    using slot_nonzero [of 0 "km_end s" "pm s" pt va 0] 0 by (auto simp: table_def)
  then show ?case using 0 by (auto simp: wp_simps grows_def)
next
  case (Suc l)
  let ?i = "unat (PX (Suc l) va)"
  let ?e = "ent (pm s) pt ?i"
  have tw: "twf (Suc l) (page_ok (km_end s)) (pm s) pt" and w: "kmem_wf s"
    using Suc.prems by (simp_all add: table_def)
  have addr: "unat (pt + 8 * PX (Suc l) va) = unat pt + 8 * ?i"
    by (rule entry_addr_PX) (use tw in auto)
  have load: "get64 (unat (pt + 8 * PX (Suc l) va)) (pm s) = ?e" by (simp add: addr ent_def)
  show ?case
  proof (cases "valid ?e")
    case True
    from into_child [OF Suc.prems(1) True Suc.IH [OF table_child [OF Suc.prems(1) PX_lt True] Suc.prems(2)]]
    show ?thesis
      using True unfolding walk_loop.simps Let_def kload64_def wp_mbind wp_mget load valid_def by simp
  next
    case False
    show ?thesis
      using False unfolding walk_loop.simps Let_def kload64_def wp_mbind wp_mget load valid_def
      apply simp
      apply (rule wp_seq [OF kalloc_end [OF w]])
      subgoal for p t
        apply (cases "free_pages s = {}")
        subgoal using Suc.prems(1) grows_refl [of "Suc l" pt s] by (simp add: wp_simps del: tree.simps slot_of.simps)
        subgoal premises pr
        proof -
          let ?m = "memset (unat p) 0 (unat PGSIZE) (pm t)"
          let ?t = "t\<lparr>pm := put64 (unat pt + 8 * ?i) (PA2PTE p OR PTE_V) ?m\<rparr>"
          have p: "p \<in> free_pages s" "p \<noteq> 0" "free_pages t = free_pages s - {p}" "kmem_wf t"
            "\<And>a. a \<notin> page_bytes p \<Longrightarrow> pm t a = pm s a"
            using pr by auto
          have off: "page_bytes q \<inter> page_bytes p = {}" if "q \<in> free_pages t \<or> q = pt" for q
            using page_bytes_disjoint [of "km_end s" q p] that p(1,3) free_page_ok [OF w] tw Suc.prems(1)
            by (auto simp: table_def)
          have offpt: "page_bytes q \<inter> page_bytes pt = {}" if "q \<in> free_pages t" for q
            using page_bytes_disjoint [of "km_end s" q pt] that p(3) free_page_ok [OF w] tw Suc.prems(1)
            by (auto simp: table_def)
          have st: "put64 (unat pt + 8 * ?i) e ?m a = pm t a" if "a \<notin> page_bytes p" "a \<notin> page_bytes pt" for a e
          proof -
            have "a < unat pt + 8 * ?i \<or> unat pt + 8 * ?i + 8 \<le> a"
              using that(2) PX_lt [of "Suc l" va] by (auto simp: page_bytes_def)
            then show ?thesis using that(1) by (simp add: put64_apply_other memset_page)
          qed
          have t: "kmem_wf ?t" "free_pages ?t = free_pages t"
          proof -
            have "put64 (unat pt + 8 * ?i) (PA2PTE p OR PTE_V) ?m a = pm t a" if "a \<in> bytes_of (free_pages t)" for a
            proof -
              from that obtain q where "q \<in> free_pages t" "a \<in> page_bytes q" by (auto simp: bytes_of_def)
              then show ?thesis using off [of q] offpt [of q] by (intro st) auto
            qed
            from kmem_wf_pm [OF p(4) this] show "kmem_wf ?t" "free_pages ?t = free_pages t" by auto
          qed
          have ends: "km_end t = km_end s" using pr by auto
          have L: "table (Suc l) ?t pt" "grows (Suc l) pt s ?t" "ent (pm ?t) pt ?i = PA2PTE p OR PTE_V"
            "\<And>va. leaf (Suc l) (pm ?t) pt va = leaf (Suc l) (pm s) pt va"
          proof -
            have k: "km_end ?t = km_end s" "free_pages ?t = free_pages s - {p}"
              "pm ?t = put64 (unat pt + 8 * ?i) (PA2PTE p OR PTE_V) ?m"
              using ends t(2) p(3) by simp_all
            have z: "\<And>a. a \<in> page_bytes p \<Longrightarrow> ?m a = 0" "\<And>a. a \<notin> page_bytes p \<Longrightarrow> ?m a = pm s a"
              using p(5) by (simp_all add: memset_page)
            note K = link_page [OF Suc.prems(1) PX_lt False t(1) k(1,2) p(1) k(3) z]
            show "table (Suc l) ?t pt" "grows (Suc l) pt s ?t" "ent (pm ?t) pt ?i = PA2PTE p OR PTE_V"
              "\<And>va. leaf (Suc l) (pm ?t) pt va = leaf (Suc l) (pm s) pt va"
              by (rule K; assumption)+
          qed
          have w1: "wp (walk_loop l p va True) (\<lambda>r u. table (Suc l) u pt \<and> grows (Suc l) pt s u
             \<and> (\<forall>v. leaf (Suc l) (pm u) pt v = leaf (Suc l) (pm s) pt v)
             \<and> (r \<noteq> 0 \<longrightarrow> slot_of (Suc l) (pm u) pt va = Some r) \<and> (r = 0 \<longrightarrow> free_pages u = {})) ?t"
          proof -
            have v: "valid (ent (pm ?t) pt ?i)" "PTE2PA (ent (pm ?t) pt ?i) = p"
              using L(3) PTE_roundtrip [OF free_page_ok [OF w p(1)]] by simp_all
            have c: "table l ?t p" using table_child [OF L(1) PX_lt v(1)] v(2) by simp
            have "0 < km_end ?t" using Suc.prems(2) ends by simp
            from into_child [OF L(1) v(1)] Suc.IH [OF c this] v(2)
            have "wp (walk_loop l p va True) (\<lambda>r u. table (Suc l) u pt \<and> grows (Suc l) pt ?t u
             \<and> (\<forall>v. leaf (Suc l) (pm u) pt v = leaf (Suc l) (pm ?t) pt v)
             \<and> (r \<noteq> 0 \<longrightarrow> slot_of (Suc l) (pm u) pt va = Some r) \<and> (r = 0 \<longrightarrow> free_pages u = {})) ?t"
              by (simp only:)
            then show ?thesis
              by (rule wp_cong_post) (use L(4) grows_trans [OF w t(1) L(2)] in metis)
          qed
          show ?thesis
            using p(2) w1 by (simp add: wp_simps kmemset_def kstore64_def addr)
        qed
        done
      done
  qed
qed

section \<open>Mapping pages\<close>

text \<open>Storing a leaf entry changes the lookup at exactly one page.\<close>

definition same_page :: "u64 \<Rightarrow> u64 \<Rightarrow> bool" where
  "same_page v w \<longleftrightarrow> PX 0 v = PX 0 w \<and> PX 1 v = PX 1 w \<and> PX 2 v = PX 2 w"

primrec same_idx :: "nat \<Rightarrow> u64 \<Rightarrow> u64 \<Rightarrow> bool" where
  "same_idx 0 v w \<longleftrightarrow> PX 0 v = PX 0 w"
| "same_idx (Suc l) v w \<longleftrightarrow> PX (Suc l) v = PX (Suc l) w \<and> same_idx l v w"

lemma store_leaf:
  assumes "table l s pt" "slot_of l (pm s) pt va = Some r"
  shows "table l (s\<lparr>pm := put64 (unat r) e (pm s)\<rparr>) pt \<and> grows l pt s (s\<lparr>pm := put64 (unat r) e (pm s)\<rparr>)
    \<and> free_pages (s\<lparr>pm := put64 (unat r) e (pm s)\<rparr>) = free_pages s
    \<and> (\<forall>v. leaf l (put64 (unat r) e (pm s)) pt v = (if same_idx l v va then e else leaf l (pm s) pt v))"
  using assms
proof (induction l arbitrary: pt)
  case 0
  let ?i = "unat (PX 0 va)"
  let ?m = "put64 (unat r) e (pm s)"
  have w: "kmem_wf s" and ok: "page_ok (km_end s) pt" and nf: "pt \<notin> free_pages s"
    using 0 by (simp_all add: table_def)
  have r: "unat r = unat pt + 8 * ?i" using 0 ok by (auto simp: entry_addr_PX)
  have frame: "?m a = pm s a" if "a \<notin> page_bytes pt" for a
  proof -
    have "a < unat r \<or> unat r + 8 \<le> a" using that PX_lt [of 0 va] by (auto simp: page_bytes_def r)
    then show ?thesis by (simp add: put64_apply_other)
  qed
  have fr: "?m a = pm s a" if "a \<in> bytes_of (free_pages s)" for a
  proof -
    from that obtain q where "q \<in> free_pages s" "a \<in> page_bytes q" by (auto simp: bytes_of_def)
    then show ?thesis
      using page_bytes_disjoint [of "km_end s" q pt] free_page_ok [OF w] ok nf by (intro frame) auto
  qed
  have "ent ?m pt j = (if j = ?i then e else ent (pm s) pt j)" for j
  proof (cases "j = ?i")
    case False
    then have "unat pt + 8 * j + 8 \<le> unat r \<or> unat r + 8 \<le> unat pt + 8 * j" unfolding r by linarith
    then show ?thesis using False by (simp add: ent_def)
  qed (simp add: ent_def r)
  moreover have "(unat (PX 0 v) = ?i) = (PX 0 v = PX 0 va)" for v by (simp add: word_unat_eq_iff)
  ultimately show ?case
    using kmem_wf_pm [OF w fr] ok nf frame by (auto simp: table_def grows_def)
next
  case (Suc l)
  let ?i = "unat (PX (Suc l) va)"
  let ?c = "PTE2PA (ent (pm s) pt ?i)"
  let ?t = "s\<lparr>pm := put64 (unat r) e (pm s)\<rparr>"
  have v: "valid (ent (pm s) pt ?i)" and sl: "slot_of l (pm s) ?c va = Some r"
    using Suc.prems(2) by (auto simp: Let_def split: if_splits)
  note IH = Suc.IH [OF table_child [OF Suc.prems(1) PX_lt v] sl]
  note G = grows_child [OF Suc.prems(1) PX_lt v refl conjunct1 [OF IH] conjunct1 [OF conjunct2 [OF IH]]]
  have "leaf (Suc l) (pm ?t) pt w = (if same_idx (Suc l) w va then e else leaf (Suc l) (pm s) pt w)" for w
  proof (cases "PX (Suc l) w = PX (Suc l) va")
    case True
    then show ?thesis using G(3) [OF PX_lt, of "Suc l" va] IH v by (simp add: Let_def)
  next
    case False
    then have "unat (PX (Suc l) w) \<noteq> ?i" by (simp add: word_unat_eq_iff)
    then show ?thesis
      using G(3) [OF PX_lt, of "Suc l" w] G(4) [OF PX_lt, of "Suc l" w w] False by (simp add: Let_def)
  qed
  then show ?case using G(1,2) IH by simp
qed

lemma same_idx_page: "same_idx 2 v w \<longleftrightarrow> same_page v w"
  by (simp add: same_page_def numeral_2_eq_2) auto

text \<open>The lookup of a three-level table.\<close>

abbreviation pte_of :: "kmem \<Rightarrow> u64 \<Rightarrow> u64 \<Rightarrow> u64" where
  "pte_of s pt va \<equiv> leaf 2 (pm s) pt va"

text \<open>One round of \<open>mappages\<close>.\<close>

lemma map_one:
  assumes tab: "table 2 s pt" and pos: "0 < km_end s" and va: "va < MAXVA" and new: "\<not> valid (pte_of s pt va)"
    and fail: "\<And>t. table 2 t pt \<Longrightarrow> grows 2 pt s t \<Longrightarrow> free_pages t = {} \<Longrightarrow> pte_of t pt = pte_of s pt \<Longrightarrow> Q (- 1) t"
    and cont: "\<And>t. table 2 t pt \<Longrightarrow> grows 2 pt s t \<Longrightarrow>
      pte_of t pt = (\<lambda>v. if same_page v va then PA2PTE pa OR perm OR PTE_V else pte_of s pt v) \<Longrightarrow>
      if va = lst then Q 0 t else wp (mappages_loop f pt (va + PGSIZE) lst (pa + PGSIZE) perm) Q t"
  shows "wp (mappages_loop (Suc f) pt va lst pa perm) Q s"
  unfolding mappages_loop.simps walk_def
  apply (simp only: mbind_assoc wp_mbind wp_mpanic_if)
  apply (rule conjI)
  subgoal using va by simp
  apply (rule wp_cong_post [OF walk_loop_alloc [OF tab pos]])
  subgoal premises p for r t
  proof (cases "r = 0")
    case True
    then have "Q (- 1) t" using p by (intro fail) auto
    then show ?thesis using True by (simp add: wp_simps)
  next
    case False
    then have sl: "slot_of 2 (pm t) pt va = Some r" and tab: "table 2 t pt" and g: "grows 2 pt s t"
      and same: "\<And>v. leaf 2 (pm t) pt v = leaf 2 (pm s) pt v" using p by auto
    have "get64 (unat r) (pm t) = pte_of t pt va"
      using leaf_slot [of 2 "km_end t" "pm t" pt va] tab sl by (simp add: table_def)
    then have nv: "get64 (unat r) (pm t) AND PTE_V = 0" using new same by (simp add: valid_def)
    let ?t = "t\<lparr>pm := put64 (unat r) (PA2PTE pa OR perm OR PTE_V) (pm t)\<rparr>"
    note S = store_leaf [OF tab sl, of "PA2PTE pa OR perm OR PTE_V"]
    have "kmem_wf s" "kmem_wf t" using tab assms(1) by (simp_all add: table_def)
    from grows_trans [OF this g] S have "grows 2 pt s ?t" by blast
    moreover have "pte_of ?t pt = (\<lambda>v. if same_page v va then PA2PTE pa OR perm OR PTE_V else pte_of s pt v)"
      using S same by (auto simp: fun_eq_iff same_idx_page)
    ultimately have "if va = lst then Q 0 ?t else wp (mappages_loop f pt (va + PGSIZE) lst (pa + PGSIZE) perm) Q ?t"
      using S by (intro cont) auto
    then show ?thesis using False nv by (simp add: wp_simps kload64_def kstore64_def)
  qed
  done

text \<open>The lookup after mapping \<open>k\<close> consecutive pages.\<close>

definition mapped :: "nat \<Rightarrow> u64 \<Rightarrow> u64 \<Rightarrow> u64 \<Rightarrow> (u64 \<Rightarrow> u64) \<Rightarrow> u64 \<Rightarrow> u64" where
  "mapped k va pa perm f v =
     (case List.find (\<lambda>i. same_page v (va + of_nat i * PGSIZE)) [0..<k] of
        Some i \<Rightarrow> PA2PTE (pa + of_nat i * PGSIZE) OR perm OR PTE_V | None \<Rightarrow> f v)"

lemma same_page_refl [simp]: "same_page v v"
  by (simp add: same_page_def)

lemma same_page_eq:
  assumes "same_page v w" "v < MAXVA" "w < MAXVA" "unat v mod 4096 = unat w mod 4096"
  shows "v = w"
  using va_split [OF assms(2)] va_split [OF assms(3)] assms(1,4) by (simp add: same_page_def word_unat_eq_iff)

lemma page_step:
  assumes "unat va + n * 4096 \<le> 2 ^ 38" "i < n"
  shows "unat (va + of_nat i * PGSIZE) = unat va + i * 4096"
    and "va + of_nat i * PGSIZE < MAXVA"
proof -
  have "i * 4096 + 4096 \<le> n * 4096" using assms(2) by simp
  then have le: "unat va + i * 4096 < 2 ^ 38" using assms(1) by linarith
  have "unat (of_nat i * PGSIZE) = i * 4096"
    using le by (simp add: PGSIZE_def unat_word_ariths unat_of_nat)
  then show "unat (va + of_nat i * PGSIZE) = unat va + i * 4096"
    using le by (simp add: unat_word_ariths)
  then show "va + of_nat i * PGSIZE < MAXVA"
    using le by (simp add: word_less_nat_alt MAXVA_unat)
qed

lemma pages_apart:
  assumes "unat va + n * 4096 \<le> 2 ^ 38" "unat va mod 4096 = 0" "i < n" "j < n"
    and "same_page (va + of_nat i * PGSIZE) (va + of_nat j * PGSIZE)"
  shows "i = j"
proof -
  have "va + of_nat i * PGSIZE = va + of_nat j * PGSIZE"
    by (rule same_page_eq [OF assms(5) page_step(2) page_step(2)])
      (use assms page_step(1) [OF assms(1,3)] page_step(1) [OF assms(1,4)] in auto)
  then have "unat (va + of_nat i * PGSIZE) = unat (va + of_nat j * PGSIZE)" by simp
  then show ?thesis using page_step(1) [OF assms(1,3)] page_step(1) [OF assms(1,4)] by simp
qed

lemma mapped_0 [simp]: "mapped 0 va pa perm f = f"
  by (rule ext) (simp add: mapped_def)

lemma mapped_Suc:
  "mapped (Suc k) va pa perm f v =
     (if same_page v va then PA2PTE pa OR perm OR PTE_V else mapped k (va + PGSIZE) (pa + PGSIZE) perm f v)"
proof -
  have "[0..<Suc k] = 0 # map Suc [0..<k]" by (simp add: upt_conv_Cons map_Suc_upt)
  moreover have "List.find P (map Suc xs) = map_option Suc (List.find (\<lambda>i. P (Suc i)) xs)" for P and xs :: "nat list"
    by (induction xs) auto
  ultimately show ?thesis
    by (auto simp: mapped_def distrib_right add.assoc split: option.splits simp del: upt_Suc)
qed

lemma mapped_upd:
  assumes "\<And>i. i < k \<Longrightarrow> \<not> (same_page v (va + of_nat i * PGSIZE) \<and> same_page v w)"
  shows "mapped k va pa perm (\<lambda>u. if same_page u w then e else f u) v =
    (if same_page v w then e else mapped k va pa perm f v)"
proof -
  have "List.find (\<lambda>i. same_page v (va + of_nat i * PGSIZE)) [0..<k] = None" if "same_page v w"
    using assms that by (simp add: find_None_iff)
  then show ?thesis by (simp add: mapped_def split: option.splits)
qed

lemma same_page_sym: "same_page v w = same_page w v"
  by (auto simp: same_page_def)

lemma same_page_trans: "same_page u v \<Longrightarrow> same_page v w \<Longrightarrow> same_page u w"
  by (auto simp: same_page_def)

lemma mappages_loop_spec:
  assumes "table 2 s pt" "0 < km_end s" "unat va mod 4096 = 0" "unat va + Suc n * 4096 \<le> 2 ^ 38"
    and "\<And>i. i \<le> n \<Longrightarrow> \<not> valid (pte_of s pt (va + of_nat i * PGSIZE))"
  shows "wp (mappages_loop (Suc n) pt va (va + of_nat n * PGSIZE) pa perm) (\<lambda>r t. table 2 t pt \<and> grows 2 pt s t
     \<and> (\<exists>k\<le>Suc n. pte_of t pt = mapped k va pa perm (pte_of s pt)
         \<and> (r = 0 \<and> k = Suc n \<or> r = - 1 \<and> k \<le> n \<and> free_pages t = {}))) s"
  using assms
proof (induction n arbitrary: s va pa)
  case 0
  have "va < MAXVA" using 0(4) by (simp add: word_less_nat_alt MAXVA_unat)
  then show ?case
    apply (rule map_one [OF 0(1,2)])
    subgoal using 0(5) [of 0] by simp
    subgoal by (intro conjI exI [of _ 0]) auto
    subgoal by (auto intro!: exI [of _ "Suc 0"] simp: fun_eq_iff mapped_Suc)
    done
next
  case (Suc n)
  have "va < MAXVA" using Suc.prems(4) by (simp add: word_less_nat_alt MAXVA_unat)
  have up: "unat (va + PGSIZE) = unat va + 4096"
    using page_step(1) [OF Suc.prems(4), of 1] by simp
  have sh: "va + of_nat (Suc n) * PGSIZE = va + PGSIZE + of_nat n * PGSIZE" by (simp add: distrib_right)
  have "va \<noteq> va + of_nat (Suc n) * PGSIZE"
    using page_step(1) [OF Suc.prems(4), of "Suc n"] by (metis add_cancel_right_right lessI mult_eq_0_iff nat.distinct(1) zero_neq_numeral)
  have ns: "\<not> same_page (va + PGSIZE + of_nat i * PGSIZE) va" if "i \<le> n" for i
    using pages_apart [OF Suc.prems(4,3), of "Suc i" 0] that by (auto simp: distrib_right add.assoc)
  show ?case
    apply (rule map_one [OF Suc.prems(1,2) \<open>va < MAXVA\<close>])
    subgoal using Suc.prems(5) [of 0] by simp
    subgoal by (intro conjI exI [of _ 0]) auto
    subgoal premises t for t
    proof -
      have "kmem_wf s" "kmem_wf t" using t Suc.prems(1) by (simp_all add: table_def)
      note tr = grows_trans [OF this t(2)]
      have "0 < km_end t" using t(2) Suc.prems(2) by (simp add: grows_def)
      moreover have "\<not> valid (pte_of t pt (va + PGSIZE + of_nat i * PGSIZE))" if "i \<le> n" for i
        using Suc.prems(5) [of "Suc i"] that ns [OF that] unfolding t(3) by (simp add: distrib_right add.assoc)
      ultimately have "wp (mappages_loop (Suc n) pt (va + PGSIZE) (va + PGSIZE + of_nat n * PGSIZE) (pa + PGSIZE) perm)
        (\<lambda>r u. table 2 u pt \<and> grows 2 pt t u
          \<and> (\<exists>k\<le>Suc n. pte_of u pt = mapped k (va + PGSIZE) (pa + PGSIZE) perm (pte_of t pt)
             \<and> (r = 0 \<and> k = Suc n \<or> r = - 1 \<and> k \<le> n \<and> free_pages u = {}))) t"
        using Suc.prems(3,4) up t(1) by (intro Suc.IH) simp_all
      moreover have "mapped k (va + PGSIZE) (pa + PGSIZE) perm (pte_of t pt) = mapped (Suc k) va pa perm (pte_of s pt)"
        if "k \<le> Suc n" for k
      proof (rule ext)
        fix v
        have "\<not> (same_page v (va + PGSIZE + of_nat i * PGSIZE) \<and> same_page v va)" if "i < k" for i
          using ns [of i] that \<open>k \<le> Suc n\<close> by (metis less_Suc_eq_le less_le_trans same_page_sym same_page_trans)
        then show "mapped k (va + PGSIZE) (pa + PGSIZE) perm (pte_of t pt) v = mapped (Suc k) va pa perm (pte_of s pt) v"
          unfolding t(3) mapped_Suc by (rule mapped_upd)
      qed
      ultimately have "wp (mappages_loop (Suc n) pt (va + PGSIZE) (va + of_nat (Suc n) * PGSIZE) (pa + PGSIZE) perm)
        (\<lambda>r u. table 2 u pt \<and> grows 2 pt s u
          \<and> (\<exists>k\<le>Suc (Suc n). pte_of u pt = mapped k va pa perm (pte_of s pt)
             \<and> (r = 0 \<and> k = Suc (Suc n) \<or> r = - 1 \<and> k \<le> Suc n \<and> free_pages u = {}))) t"
        unfolding sh
        by (elim wp_cong_post) (use tr in \<open>metis Suc_le_mono\<close>)
      then show ?thesis using \<open>va \<noteq> va + of_nat (Suc n) * PGSIZE\<close> by simp
    qed
    done
qed

section \<open>Mapping a range\<close>

text \<open>
  C3. On a well-formed page table none of whose pages in the range is mapped, \<open>mappages\<close> of a non-empty
  page-aligned range below \<open>MAXVA\<close> always returns. If it returns 0, the lookup of the table has gained
  exactly the pages of the range, page \<open>i\<close> mapped to \<open>pa + i * PGSIZE\<close> with the permissions and
  \<open>PTE_V\<close>; if it returns -1 the allocator is exhausted and a proper prefix of the range is mapped. In
  both cases the table stays well formed (a tree of allocated pages disjoint from the free pages), and
  only bytes of its pages and of pages taken from the allocator change.
\<close>

theorem mappages_correct:
  assumes "table 2 s pt" "0 < km_end s" "unat va mod 4096 = 0" "unat sz = Suc n * 4096"
    and "unat va + unat sz \<le> 2 ^ 38"
    and "\<forall>i\<le>n. \<not> valid (pte_of s pt (va + of_nat i * PGSIZE))"
  shows "\<exists>r t. mappages pt va sz pa perm s = Ok (r, t) \<and> table 2 t pt \<and> grows 2 pt s t
     \<and> (\<exists>k\<le>Suc n. pte_of t pt = mapped k va pa perm (pte_of s pt)
         \<and> (r = 0 \<and> k = Suc n \<or> r = - 1 \<and> k \<le> n \<and> free_pages t = {}))"
proof -
  have sz: "sz = of_nat (Suc n) * PGSIZE"
    using arg_cong [OF assms(4), of "of_nat :: nat \<Rightarrow> u64"] by (simp add: PGSIZE_def)
  have "unat (sz div PGSIZE) = Suc n" using assms(4) by (simp add: unat_div_distrib PGSIZE_def)
  moreover have "va mod PGSIZE = 0" "sz mod PGSIZE = 0" "sz \<noteq> 0"
    using assms(3,4) by (auto simp: PGSIZE_def word_unat_eq_iff unat_mod_distrib)
  moreover have "va + sz - PGSIZE = va + of_nat n * PGSIZE" by (simp add: sz distrib_right)
  ultimately have "mappages pt va sz pa perm = mappages_loop (Suc n) pt va (va + of_nat n * PGSIZE) pa perm"
    by (simp add: mappages_def mpanic_if_def add_diff_eq [symmetric] del: mappages_loop.simps add_diff_eq)
  then show ?thesis
    using mappages_loop_spec [of s pt va n pa perm] assms by (simp only: wp_iff_Ok) simp
qed

definition example_table :: kmem where
  "example_table = \<lparr>freelist = 0x80024000, nb_free_pages = 2, pm = put64 0x80024000 0x80025000 (\<lambda>_. 0), km_end = 0x80021000\<rparr>"

lemma example_table_list: "kmem_list example_table [0x80024000, 0x80025000]"
  by (simp add: example_table_def kmem_list_def page_ok_def PHYSTOP_def KERNBASE_def)

lemma example_table:
  "table 2 example_table 0x80023000" "pte_of example_table 0x80023000 va = 0"
  "free_pages example_table = {0x80024000, 0x80025000}"
proof -
  have z: "pm example_table a = 0" if "a \<in> page_bytes 0x80023000" for a
    using that by (simp add: example_table_def page_bytes_def put64_apply_other)
  note Z = zero_page [OF z, where ok = "page_ok (km_end example_table)" and pt = "0x80023000"]
  have ok: "page_ok (km_end example_table) 0x80023000"
    by (simp add: page_ok_def example_table_def PHYSTOP_def KERNBASE_def)
  show f: "free_pages example_table = {0x80024000, 0x80025000}" using free_pages_eq [OF example_table_list] by simp
  show "table 2 example_table 0x80023000" "pte_of example_table 0x80023000 va = 0"
    using Z [OF _ ok] example_table_list f by (auto simp: table_def kmem_wf_def)
qed

theorem mappages_correct_witness:
  "\<exists>r t. mappages 0x80023000 0x1000 0x2000 0x80030000 (PTE_R OR PTE_U) example_table = Ok (r, t)
     \<and> table 2 t 0x80023000
     \<and> (r = 0 \<longrightarrow> pte_of t 0x80023000 0x2000 = PA2PTE 0x80031000 OR (PTE_R OR PTE_U) OR PTE_V)"
proof -
  have v: "\<forall>i\<le>1. \<not> valid (pte_of example_table 0x80023000 (0x1000 + of_nat i * PGSIZE))"
    by (simp add: example_table valid_def)
  have "mapped (Suc 1) 0x1000 0x80030000 p f 0x2000 = PA2PTE 0x80031000 OR p OR PTE_V" for p f
    by (simp add: mapped_def PGSIZE_def same_page_def PX_def riscv_consts)
  then show ?thesis
    using mappages_correct [OF example_table(1) _ _ _ _ v, of "0x2000" "0x80030000" "PTE_R OR PTE_U"]
    by (fastforce simp: example_table_def)
qed

end
