(* ===== verification/Usercopy.thy ===== *)
theory Usercopy
  imports Pagetable
begin

text \<open>
  The copies between kernel and user memory (\<open>copyout\<close>, \<open>copyin\<close>) against the lookup of the page
  table.

  \<open>user_ok\<close> says that a virtual address is mapped for user mode with the given permission bits;
  \<open>paddr\<close> is the physical byte it is mapped to. Shown: \<open>copyout\<close> is the byte-wise store through this
  translation, up to the first page that is not user-writable, and so touches no other byte;
  \<open>copyin\<close> is the byte-wise load; what \<open>copyout\<close> has written \<open>copyin\<close> reads back.
\<close>

section \<open>Translation\<close>

definition user_ok :: "u64 \<Rightarrow> kmem \<Rightarrow> u64 \<Rightarrow> u64 \<Rightarrow> bool" where
  "user_ok perm s pt va \<longleftrightarrow> va < MAXVA \<and> valid (pte_of s pt va) \<and> pte_of s pt va AND PTE_U \<noteq> 0
     \<and> pte_of s pt va AND perm = perm"

definition paddr :: "kmem \<Rightarrow> u64 \<Rightarrow> u64 \<Rightarrow> nat" where
  "paddr s pt va = unat (PTE2PA (pte_of s pt va)) + unat va mod 4096"

text \<open>The pages user code can access come from the allocator and are neither page-table pages nor free.\<close>

definition data_pages :: "kmem \<Rightarrow> u64 \<Rightarrow> bool" where
  "data_pages s pt \<longleftrightarrow> (\<forall>va. user_ok 0 s pt va \<longrightarrow>
     page_ok (km_end s) (PTE2PA (pte_of s pt va)) \<and>
     page_bytes (PTE2PA (pte_of s pt va)) \<inter> bytes_of (tree 2 (pm s) pt \<union> free_pages s) = {})"

lemma user_ok_0: "user_ok p s pt va \<Longrightarrow> user_ok 0 s pt va"
  by (simp add: user_ok_def)

text \<open>No two user pages share memory.\<close>

definition unshared :: "kmem \<Rightarrow> u64 \<Rightarrow> bool" where
  "unshared s pt \<longleftrightarrow> (\<forall>v w. user_ok 0 s pt v \<longrightarrow> user_ok 0 s pt w \<longrightarrow>
     PTE2PA (pte_of s pt v) = PTE2PA (pte_of s pt w) \<longrightarrow> same_page v w)"

primrec ustore :: "(u64 \<Rightarrow> nat) \<Rightarrow> u64 \<Rightarrow> u8 list \<Rightarrow> block \<Rightarrow> block" where
  "ustore f va [] m = m"
| "ustore f va (b # bs) m = ustore f (va + 1) bs (m(f va := b))"

definition uload :: "(u64 \<Rightarrow> nat) \<Rightarrow> u64 \<Rightarrow> nat \<Rightarrow> block \<Rightarrow> u8 list" where
  "uload f va n m = map (\<lambda>i. m (f (va + of_nat i))) [0..<n]"

lemma ustore_append: "ustore f va (xs @ ys) m = ustore f (va + of_nat (length xs)) ys (ustore f va xs m)"
  by (induction xs arbitrary: va m) (simp_all add: add.assoc)

lemma uload_append: "uload f va (m + n) b = uload f va m b @ uload f (va + of_nat m) n b"
  by (induction n) (simp_all add: uload_def add.assoc)

lemma length_uload [simp]: "length (uload f va n m) = n"
  by (simp add: uload_def)

lemma ustore_other: "(\<And>i. i < length bs \<Longrightarrow> f (va + of_nat i) \<noteq> a) \<Longrightarrow> ustore f va bs m a = m a"
proof (induction bs arbitrary: va m)
  case (Cons b bs)
  have "f (va + 1 + of_nat i) \<noteq> a" if "i < length bs" for i
    using Cons.prems [of "Suc i"] that by (simp add: add.assoc)
  moreover have "f va \<noteq> a" using Cons.prems [of 0] by simp
  ultimately show ?case using Cons.IH by simp
qed simp

lemma ustore_same:
  assumes "i < length bs" "\<And>j. j < length bs \<Longrightarrow> f (va + of_nat j) = f (va + of_nat i) \<Longrightarrow> j = i"
  shows "ustore f va bs m (f (va + of_nat i)) = bs ! i"
  using assms
proof (induction bs arbitrary: va m i)
  case (Cons b bs)
  show ?case
  proof (cases i)
    case 0
    have "f (va + 1 + of_nat j) \<noteq> f va" if "j < length bs" for j
      using Cons.prems(2) [of "Suc j"] that 0 by (auto simp: add.assoc)
    then show ?thesis using 0 by (simp add: ustore_other)
  next
    case (Suc k)
    have "j = k" if "j < length bs" "f (va + 1 + of_nat j) = f (va + 1 + of_nat k)" for j
      using Cons.prems(2) [of "Suc j"] that Suc by (simp add: add.assoc)
    from Cons.IH [of k "va + 1" "m(f va := b)", OF _ this] Cons.prems(1) Suc show ?thesis
      by (simp add: add.assoc fun_upd_def)
  qed
qed simp

lemma ustore_linear:
  "(\<And>i. i < length bs \<Longrightarrow> f (va + of_nat i) = a + i) \<Longrightarrow> ustore f va bs m = store_bytes a bs m"
proof (induction bs arbitrary: va a m)
  case (Cons b bs)
  have "f (va + 1 + of_nat i) = Suc a + i" if "i < length bs" for i
    using Cons.prems [of "Suc i"] that by (simp add: add.assoc)
  moreover have "f va = a" using Cons.prems [of 0] by simp
  ultimately have "ustore f va (b # bs) m = store_bytes (Suc a) bs (m(a := b))"
    using Cons.IH by (simp add: fun_upd_def)
  also have "\<dots> = store_bytes a (b # bs) m"
  proof
    fix i
    show "store_bytes (Suc a) bs (m(a := b)) i = store_bytes a (b # bs) m i"
      by (cases "Suc a \<le> i") (auto simp: store_bytes_def nth_Cons' )
  qed
  finally show ?case .
qed (auto simp: store_bytes_def fun_eq_iff)

section \<open>Pages and chunks\<close>

lemma chunk_unat: "chunk va len = min (4096 - unat va mod 4096) len"
proof -
  have "unat (va - PGROUNDDOWN va) < 4096" by (simp add: PGROUNDDOWN_offset)
  then have "va - PGROUNDDOWN va \<le> PGSIZE" by (simp add: word_le_nat_alt PGSIZE_def)
  then have "unat (PGSIZE - (va - PGROUNDDOWN va)) = 4096 - unat va mod 4096"
    by (simp add: unat_sub PGROUNDDOWN_offset PGSIZE_def)
  then show ?thesis by (simp add: chunk_def)
qed

lemma in_chunk:
  assumes "i < chunk va len"
  shows "unat (va + of_nat i) = unat va + i" "unat (va + of_nat i) div 4096 = unat va div 4096"
    "unat (va + of_nat i) mod 4096 = unat va mod 4096 + i"
proof -
  have i: "unat va mod 4096 + i < 4096" using assms by (simp add: chunk_unat less_diff_conv add.commute)
  have "unat va div 4096 * 4096 + 4096 \<le> 2 ^ 64"
  proof -
    have "unat va < 2 ^ 64" using unsigned_less [where ?'a = nat, of va] by simp
    then have "unat va div 4096 < 2 ^ 52" by simp
    then show ?thesis by simp
  qed
  moreover have "unat va + i = unat va div 4096 * 4096 + (unat va mod 4096 + i)" by simp
  ultimately have "unat va + i < 2 ^ 64" using i by linarith
  then show u: "unat (va + of_nat i) = unat va + i"
    by (simp add: unat_word_ariths unat_of_nat mod_add_right_eq)
  have "i < 4096" using i by linarith
  then show "unat (va + of_nat i) div 4096 = unat va div 4096"
    using i unfolding u div_add1_eq [of "unat va" i] by simp
  have "(unat va + i) mod 4096 = (unat va mod 4096 + i) mod 4096" by (simp add: mod_add_left_eq)
  then show "unat (va + of_nat i) mod 4096 = unat va mod 4096 + i"
    using i unfolding u by simp
qed


lemma PX_page: "unat v div 4096 = unat w div 4096 \<Longrightarrow> PX l v = PX l w"
proof -
  assume a: "unat v div 4096 = unat w div 4096"
  have "unat x div 2 ^ (12 + 9 * l) = unat x div 4096 div 2 ^ (9 * l)" for x :: u64
    by (simp add: power_add div_mult2_eq)
  with a have "unat (PX l v) = unat (PX l w)" by (simp add: PX_unat)
  then show ?thesis by (simp add: word_unat_eq_iff)
qed

lemma leaf_page: "unat v div 4096 = unat w div 4096 \<Longrightarrow> leaf l m pt v = leaf l m pt w"
  by (induction l arbitrary: pt) (simp_all add: PX_page [of v w] Let_def)

lemma MAXVA_page: "unat v div 4096 = unat w div 4096 \<Longrightarrow> v < MAXVA \<longleftrightarrow> w < MAXVA"
proof -
  have "x < MAXVA \<longleftrightarrow> unat x div 4096 < 2 ^ 26" for x :: u64
    by (simp add: word_less_nat_alt MAXVA_unat less_mult_imp_div_less div_less_iff_less_mult)
  then show "unat v div 4096 = unat w div 4096 \<Longrightarrow> v < MAXVA \<longleftrightarrow> w < MAXVA" by simp
qed

lemma user_ok_page: "unat v div 4096 = unat w div 4096 \<Longrightarrow> user_ok p s pt v = user_ok p s pt w"
  using leaf_page [of v w 2] MAXVA_page [of v w] by (simp add: user_ok_def)

lemma PGROUNDDOWN_page: "unat (PGROUNDDOWN va) div 4096 = unat va div 4096"
  by (simp add: PGROUNDDOWN_unat)

lemma PTE2PA_aligned: "unat (PTE2PA e) mod 4096 = 0"
proof -
  have "unat (PTE2PA e) = unat (drop_bit 10 e) * 4096 mod 2 ^ 64"
    by (simp add: PTE2PA_def push_bit_eq_mult unat_word_ariths)
  also have "\<dots> mod 4096 = unat (drop_bit 10 e) * 4096 mod 4096"
    by (rule mod_mod_cancel) simp
  finally show ?thesis by simp
qed

lemma aligned_add:
  assumes "unat p mod 4096 = 0" "unat o' < 4096"
  shows "unat (p + o' :: u64) = unat p + unat o'"
proof -
  have "unat p < 2 ^ 64" using unsigned_less [where ?'a = nat, of p] by simp
  then have "unat p div 4096 < 2 ^ 52" by simp
  then have "unat p div 4096 * 4096 + 4096 \<le> 2 ^ 64" by simp
  moreover have "unat p = unat p div 4096 * 4096" using assms(1) by auto
  ultimately have "unat p + unat o' < 2 ^ 64" using assms(2) by linarith
  then show ?thesis by (simp add: unat_add_lem [THEN iffD1])
qed

text \<open>The physical bytes of one chunk are consecutive.\<close>

lemma paddr_chunk:
  assumes "i < chunk va len"
  shows "paddr s pt (va + of_nat i) = unat (PTE2PA (pte_of s pt va) + (va - PGROUNDDOWN va)) + i"
proof -
  have "pte_of s pt (va + of_nat i) = pte_of s pt va" by (rule leaf_page) (rule in_chunk(2) [OF assms])
  then show ?thesis
    using in_chunk(3) [OF assms]
    by (simp add: paddr_def aligned_add [OF PTE2PA_aligned] PGROUNDDOWN_offset)
qed

lemma paddr_in_page: "paddr s pt va \<in> page_bytes (PTE2PA (pte_of s pt va))"
  by (simp add: paddr_def page_bytes_def)

lemma next_page:
  assumes "n = chunk va len" "n < len"
  shows "va + of_nat n = PGROUNDDOWN va + PGSIZE"
proof -
  have n: "n = 4096 - unat va mod 4096" using assms by (simp add: chunk_unat)
  have "unat (PGROUNDDOWN va) + unat va mod 4096 = unat va" by (simp add: PGROUNDDOWN_unat)
  then have "of_nat (unat (PGROUNDDOWN va) + unat va mod 4096) = va" by simp
  moreover have "of_nat (unat va mod 4096 + n) = (of_nat 4096 :: u64)" using n by simp
  ultimately show ?thesis by (simp add: PGSIZE_def) (metis add.assoc)
qed

section \<open>copyout\<close>

text \<open>The bytes a run of \<open>copyout\<close> may still write keep the table as it is.\<close>

lemma user_store:
  assumes "table 2 s pt" "data_pages s pt" and w: "\<And>i. i < length bs \<Longrightarrow> user_ok PTE_W s pt (va + of_nat i)"
  defines "t \<equiv> s\<lparr>pm := ustore (paddr s pt) va bs (pm s)\<rparr>"
  shows "table 2 t pt" "pte_of t pt = pte_of s pt" "tree 2 (pm t) pt = tree 2 (pm s) pt" "free_pages t = free_pages s"
proof -
  have same: "pm t a = pm s a" if "a \<in> bytes_of (tree 2 (pm s) pt \<union> free_pages s)" for a
    unfolding t_def
  proof (simp, rule ustore_other)
    fix i assume "i < length bs"
    with w assms(2) have "page_bytes (PTE2PA (pte_of s pt (va + of_nat i))) \<inter> bytes_of (tree 2 (pm s) pt \<union> free_pages s) = {}"
      unfolding data_pages_def by (blast dest: user_ok_0)
    then show "paddr s pt (va + of_nat i) \<noteq> a" using paddr_in_page that by blast
  qed
  have k: "kmem_wf t" "free_pages t = free_pages s"
    using kmem_wf_pm [of s "pm t"] assms(1) same by (simp_all add: t_def table_def)
  have en: "km_end t = km_end s" by (simp add: t_def)
  have "pm s a = pm t a" if "a \<in> bytes_of (tree 2 (pm s) pt)" for a using same that by simp
  note T = tree_cong [OF this]
  show "pte_of t pt = pte_of s pt" "tree 2 (pm t) pt = tree 2 (pm s) pt" using T(1,3) by auto
  show "free_pages t = free_pages s" by (rule k)
  show "table 2 t pt" using assms(1) k en T by (simp add: table_def)
qed


lemma PTE_W_bit: "e AND PTE_W = PTE_W \<longleftrightarrow> e AND PTE_W \<noteq> 0"
proof -
  have *: "PTE_W = push_bit 2 1" by (simp add: PTE_W_def)
  have "e AND PTE_W = (if bit e 2 then PTE_W else 0)"
    unfolding * by (rule bit_word_eqI) (simp only: bit_and_iff bit_push_bit_iff bit_1_iff split: if_split, auto)
  then show ?thesis by (simp add: PTE_W_def)
qed

lemma same_table:
  assumes "pte_of t pt = pte_of s pt"
  shows "paddr t pt = paddr s pt" "user_ok p t pt = user_ok p s pt"
  using assms by (auto simp: paddr_def user_ok_def fun_eq_iff)

lemma walk_user:
  assumes "table 2 s pt" "0 < km_end s" "PGROUNDDOWN va < MAXVA"
  shows "wp (walk pt (PGROUNDDOWN va) False) (\<lambda>pte t. t = s \<and> (pte = 0 \<longrightarrow> pte_of s pt va = 0)
     \<and> (pte \<noteq> 0 \<longrightarrow> get64 (unat pte) (pm s) = pte_of s pt va)) s"
proof -
  have w: "twf 2 (page_ok (km_end s)) (pm s) pt" using assms(1) by (simp add: table_def)
  have "pte_of s pt (PGROUNDDOWN va) = pte_of s pt va" by (rule leaf_page) (rule PGROUNDDOWN_page)
  then show ?thesis
    using leaf_slot [OF w, of "PGROUNDDOWN va"] slot_nonzero [OF w assms(2), of "PGROUNDDOWN va"] assms(3)
    by (simp add: walk_def wp_simps not_le) (auto simp: wp_def walk_loop_lookup [OF w] split: option.splits)
qed

text \<open>What \<open>copyout\<close> leaves behind: a prefix stored byte by byte, up to the first address it may not write.\<close>

definition copied :: "kmem \<Rightarrow> u64 \<Rightarrow> u64 \<Rightarrow> u8 list \<Rightarrow> int \<Rightarrow> kmem \<Rightarrow> bool" where
  "copied s pt va src r t \<longleftrightarrow> (\<exists>n\<le>length src. (\<forall>i<n. user_ok PTE_W s pt (va + of_nat i))
     \<and> t = s\<lparr>pm := ustore (paddr s pt) va (take n src) (pm s)\<rparr>
     \<and> (r = 0 \<and> n = length src \<or> r = - 1 \<and> n < length src \<and> \<not> user_ok PTE_W s pt (va + of_nat n)))"

lemma copied_none:
  "if src = [] then r = 0 else r = - 1 \<and> \<not> user_ok PTE_W s pt va \<Longrightarrow> copied s pt va src r s"
  unfolding copied_def by (intro exI [of _ 0]) (auto split: if_splits)

lemma copied_append:
  assumes n: "n = chunk va (length src)" and w: "user_ok PTE_W s pt va"
    and t: "t = s\<lparr>pm := ustore (paddr s pt) va (take n src) (pm s)\<rparr>" and same: "pte_of t pt = pte_of s pt"
    and rest: "copied t pt (PGROUNDDOWN va + PGSIZE) (drop n src) r u"
  shows "copied s pt va src r u"
proof -
  note S = same_table [OF same]
  have le: "n \<le> length src" using n by (simp add: chunk_def)
  from rest obtain k where k: "k \<le> length src - n" "\<forall>i<k. user_ok PTE_W s pt (PGROUNDDOWN va + PGSIZE + of_nat i)"
      and u: "u = t\<lparr>pm := ustore (paddr s pt) (PGROUNDDOWN va + PGSIZE) (take k (drop n src)) (pm t)\<rparr>"
      and r: "r = 0 \<and> k = length src - n \<or> r = - 1 \<and> k < length src - n
        \<and> \<not> user_ok PTE_W s pt (PGROUNDDOWN va + PGSIZE + of_nat k)"
    by (auto simp: copied_def S)
  have shift: "PGROUNDDOWN va + PGSIZE + of_nat i = va + of_nat (n + i)" if "n < length src" for i
    using next_page [OF n that] by (simp add: add.assoc [symmetric])
  have "user_ok PTE_W s pt (va + of_nat i)" if i: "i < n + k" for i
  proof (cases "i < n")
    case True
    then show ?thesis using user_ok_page [OF in_chunk(2) [of i va "length src"]] w n by simp
  next
    case False
    then have "n < length src" "i - n < k" using i k(1) by auto
    then have "user_ok PTE_W s pt (va + of_nat (n + (i - n)))" using k(2) by (simp only: shift [symmetric])
    then show ?thesis using False by simp
  qed
  moreover have "ustore (paddr s pt) va (take (n + k) src) (pm s) = pm u"
  proof (cases "n < length src")
    case True
    then show ?thesis
      by (simp add: u t take_add ustore_append next_page [OF n True] min_def less_imp_le)
  next
    case False
    then show ?thesis using le k(1) by (simp add: u t)
  qed
  then have "u = s\<lparr>pm := ustore (paddr s pt) va (take (n + k) src) (pm s)\<rparr>" by (simp add: u t)
  moreover have "\<not> user_ok PTE_W s pt (va + of_nat (n + k))" if "r = - 1" "k < length src - n"
    using r that by (subst shift [symmetric]) auto
  with r have "r = 0 \<and> n + k = length src \<or> r = - 1 \<and> n + k < length src \<and> \<not> user_ok PTE_W s pt (va + of_nat (n + k))"
    using le by auto
  moreover have "n + k \<le> length src" using k(1) le by simp
  ultimately show ?thesis unfolding copied_def by blast
qed

lemma copyout_page:
  assumes "table 2 s pt" "0 < km_end s" "data_pages s pt" "user_ok PTE_W s pt va" and n: "n = chunk va (length src)"
    and rest: "\<And>t. table 2 t pt \<Longrightarrow> 0 < km_end t \<Longrightarrow> data_pages t pt \<Longrightarrow>
      wp (copyout pt (PGROUNDDOWN va + PGSIZE) (drop n src)) (copied t pt (PGROUNDDOWN va + PGSIZE) (drop n src)) t"
  shows "wp (copyout pt (PGROUNDDOWN va + PGSIZE) (drop n src)) (copied s pt va src)
    (s\<lparr>pm := store_bytes (unat (PTE2PA (pte_of s pt va) + (va - PGROUNDDOWN va))) (take n src) (pm s)\<rparr>)"
proof -
  define t where "t = s\<lparr>pm := ustore (paddr s pt) va (take n src) (pm s)\<rparr>"
  have le: "n \<le> length src" using n by (simp add: chunk_def)
  have w: "user_ok PTE_W s pt (va + of_nat i)" if "i < n" for i
    using user_ok_page [OF in_chunk(2) [of i va "length src"]] that assms(4) n by simp
  have "ustore (paddr s pt) va (take n src) (pm s)
      = store_bytes (unat (PTE2PA (pte_of s pt va) + (va - PGROUNDDOWN va))) (take n src) (pm s)"
    by (rule ustore_linear) (use paddr_chunk [of _ va "length src" s pt] n in auto)
  then have eq: "t = s\<lparr>pm := store_bytes (unat (PTE2PA (pte_of s pt va) + (va - PGROUNDDOWN va))) (take n src) (pm s)\<rparr>"
    by (simp add: t_def)
  have T: "table 2 t pt" "pte_of t pt = pte_of s pt" "tree 2 (pm t) pt = tree 2 (pm s) pt" "free_pages t = free_pages s"
    unfolding t_def using user_store [OF assms(1,3), of "take n src" va] w le by simp_all
  have "data_pages t pt" using assms(3) by (simp add: data_pages_def same_table [OF T(2)] T) (simp add: t_def)
  moreover have "0 < km_end t" using assms(2) by (simp add: t_def)
  ultimately show ?thesis
    unfolding eq [symmetric]
    by (intro wp_cong_post [OF rest]) (use T copied_append [OF n assms(4) t_def T(2)] in auto)
qed

lemma copyout_spec:
  assumes "table 2 s pt" "0 < km_end s" "data_pages s pt"
  shows "wp (copyout pt va src) (copied s pt va src) s"
  using assms
proof (induction "length src" arbitrary: src va s rule: less_induct)
  case less
  show ?case
  proof (cases "src = [] \<or> \<not> PGROUNDDOWN va < MAXVA")
    case True
    then have "src = [] \<or> \<not> user_ok PTE_W s pt va"
      using MAXVA_page [OF PGROUNDDOWN_page, of va] by (auto simp: user_ok_def)
    then show ?thesis using True
      by (auto simp: copyout.simps [of pt va src] wp_simps not_less intro!: copied_none)
  next
    case False
    then have ne: "src \<noteq> []" and va: "PGROUNDDOWN va < MAXVA" by auto
    have nva: "\<not> MAXVA \<le> PGROUNDDOWN va" using va by simp
    have vaok: "va < MAXVA" using va MAXVA_page [OF PGROUNDDOWN_page] by simp
    let ?n = "chunk va (length src)"
    have "length (drop ?n src) < length src" using ne chunk_pos [of "length src" va] by simp
    note step = copyout_page [OF less.prems _ refl less.hyps [OF this]]
    have "pte_of s pt va AND PTE_V = 0 \<or> pte_of s pt va AND PTE_U = 0 \<or> pte_of s pt va AND PTE_W = 0
        \<longleftrightarrow> \<not> user_ok PTE_W s pt va"
      using vaok by (auto simp: user_ok_def valid_def PTE_W_bit)
    then show ?thesis
      unfolding copyout.simps [of pt va src] Let_def 
      apply (subst if_not_P [OF ne], subst if_not_P [OF nva])
      apply (rule wp_seq [OF walk_user [OF less.prems(1,2) va]])
      apply (auto simp: wp_simps kload64_def ne intro!: copied_none step)
      done
  qed
qed


section \<open>copyin\<close>

lemma walkaddr_user:
  assumes "table 2 s pt" "0 < km_end s" "data_pages s pt"
  shows "walkaddr pt (PGROUNDDOWN va) s =
    Ok (if user_ok 0 s pt va then PTE2PA (pte_of s pt va) else 0, s)"
    "user_ok 0 s pt va \<Longrightarrow> PTE2PA (pte_of s pt va) \<noteq> 0"
proof -
  show "user_ok 0 s pt va \<Longrightarrow> PTE2PA (pte_of s pt va) \<noteq> 0"
    using assms(2,3) by (auto simp: data_pages_def page_ok_def)
  have m: "PGROUNDDOWN va < MAXVA \<longleftrightarrow> va < MAXVA" by (rule MAXVA_page [OF PGROUNDDOWN_page])
  have "wp (walkaddr pt (PGROUNDDOWN va)) (\<lambda>r t. t = s \<and> r = (if user_ok 0 s pt va then PTE2PA (pte_of s pt va) else 0)) s"
  proof (cases "va < MAXVA")
    case True
    then have "\<not> MAXVA \<le> PGROUNDDOWN va" using m by simp
    then show ?thesis
      unfolding walkaddr_def
      apply (subst if_not_P, assumption)
      apply (rule wp_seq [OF walk_user [OF assms(1,2)]])
      using True m by (auto simp: wp_simps kload64_def user_ok_def valid_def)
  next
    case False
    then have "MAXVA \<le> PGROUNDDOWN va" using m by simp
    then show ?thesis using False by (simp add: walkaddr_def wp_simps user_ok_def)
  qed
  then show "walkaddr pt (PGROUNDDOWN va) s = Ok (if user_ok 0 s pt va then PTE2PA (pte_of s pt va) else 0, s)"
    by (auto simp: wp_iff_Ok)
qed

text \<open>\<open>copyin\<close> loads byte by byte up to the first address user code may not access, and changes nothing.\<close>

lemma copyin_spec:
  assumes "table 2 s pt" "0 < km_end s" "data_pages s pt"
  shows "\<exists>n\<le>len. copyin pt va len s = Ok ((if n = len then 0 else - 1, uload (paddr s pt) va n (pm s)), s)
     \<and> (\<forall>i<n. user_ok 0 s pt (va + of_nat i)) \<and> (n < len \<longrightarrow> \<not> user_ok 0 s pt (va + of_nat n))"
proof (induction len arbitrary: va rule: less_induct)
  case (less len)
  note W = walkaddr_user [OF assms, of va]
  show ?case
  proof (cases "len = 0 \<or> \<not> user_ok 0 s pt va")
    case True
    then have "copyin pt va len s = Ok ((if len = 0 then 0 else - 1, []), s)"
      using W by (auto simp: copyin.simps [of pt va len] Let_def km_defs)
    then show ?thesis using True by (intro exI [of _ 0]) (auto simp: uload_def)
  next
    case False
    let ?n = "chunk va len"
    have pos: "0 < ?n" "?n \<le> len" using False chunk_pos [of len va] by (simp_all, simp add: chunk_def)
    then have "len - ?n < len" by simp
    from less.IH [OF this, of "PGROUNDDOWN va + PGSIZE"] obtain k where k: "k \<le> len - ?n"
        "copyin pt (PGROUNDDOWN va + PGSIZE) (len - ?n) s
          = Ok ((if k = len - ?n then 0 else - 1, uload (paddr s pt) (PGROUNDDOWN va + PGSIZE) k (pm s)), s)"
        "\<forall>i<k. user_ok 0 s pt (PGROUNDDOWN va + PGSIZE + of_nat i)"
        "k < len - ?n \<longrightarrow> \<not> user_ok 0 s pt (PGROUNDDOWN va + PGSIZE + of_nat k)" by auto
    have shift: "va + of_nat (?n + i) = PGROUNDDOWN va + PGSIZE + of_nat i" if "?n < len" for i
      using next_page [OF refl that] by (simp add: add.assoc [symmetric])
    have ok: "user_ok 0 s pt (va + of_nat i)" if i: "i < ?n + k" for i
    proof (cases "i < ?n")
      case True
      then show ?thesis using user_ok_page [OF in_chunk(2) [of i va len]] False by simp
    next
      case no: False
      then have "?n < len" "i - ?n < k" using i k(1) by auto
      then have "user_ok 0 s pt (va + of_nat (?n + (i - ?n)))" using k(3) by (simp only: shift)
      then show ?thesis using no by simp
    qed
    have bytes: "load_bytes (unat (PTE2PA (pte_of s pt va) + (va - PGROUNDDOWN va))) ?n (pm s) = uload (paddr s pt) va ?n (pm s)"
      by (auto simp: load_bytes_def uload_def paddr_chunk)
    have more: "uload (paddr s pt) va (?n + k) (pm s)
        = uload (paddr s pt) va ?n (pm s) @ uload (paddr s pt) (PGROUNDDOWN va + PGSIZE) k (pm s)"
    proof (cases "?n < len")
      case True
      then show ?thesis by (simp add: uload_append next_page [OF refl True])
    next
      case no: False
      then have "k = 0" using k(1) by simp
      then show ?thesis by (simp add: uload_def)
    qed
    have "copyin pt va len s = Ok ((if ?n + k = len then 0 else - 1, uload (paddr s pt) va (?n + k) (pm s)), s)"
      using False W k(1,2) pos by (auto simp: copyin.simps [of pt va len] Let_def km_defs bytes more)
    moreover have "?n + k < len \<longrightarrow> \<not> user_ok 0 s pt (va + of_nat (?n + k))"
      using k(4) by (auto simp only: shift)
    moreover have "?n + k \<le> len" using k(1) pos by simp
    ultimately show ?thesis using ok by blast
  qed
qed

section \<open>Single bytes\<close>

definition user_mem :: "kmem \<Rightarrow> u64 \<Rightarrow> bool" where
  "user_mem s pt \<longleftrightarrow> table 2 s pt \<and> 0 < km_end s \<and> data_pages s pt"

lemma copyin_one:
  assumes "user_mem s pt"
  shows "copyin pt va 1 s = Ok (if user_ok 0 s pt va then (0, [pm s (paddr s pt va)]) else (- 1, []), s)"
proof -
  from assms copyin_spec [of s pt 1 va] obtain n where n: "n \<le> 1"
      "copyin pt va 1 s = Ok ((if n = 1 then 0 else - 1, uload (paddr s pt) va n (pm s)), s)"
      "\<forall>i<n. user_ok 0 s pt (va + of_nat i)" "n < 1 \<longrightarrow> \<not> user_ok 0 s pt (va + of_nat n)"
    by (auto simp: user_mem_def)
  then show ?thesis by (cases "n = 0") (auto simp: uload_def le_Suc_eq)
qed

lemma user_mem_store:
  assumes "user_mem s pt" "\<And>i. i < length bs \<Longrightarrow> user_ok PTE_W s pt (va + of_nat i)"
    and t: "t = s\<lparr>pm := ustore (paddr s pt) va bs (pm s)\<rparr>"
  shows "user_mem t pt" "pte_of t pt = pte_of s pt"
proof -
  have tab: "table 2 s pt" and d: "data_pages s pt" and pos: "0 < km_end s" using assms(1) by (simp_all add: user_mem_def)
  have U: "table 2 t pt" "pte_of t pt = pte_of s pt" "tree 2 (pm t) pt = tree 2 (pm s) pt" "free_pages t = free_pages s"
    unfolding t using user_store [OF tab d, of bs va] assms(2) by auto
  show "pte_of t pt = pte_of s pt" by (rule U)
  have "data_pages t pt" using d by (simp add: data_pages_def same_table [OF U(2)] U) (simp add: t)
  then show "user_mem t pt" using U(1) pos by (simp add: user_mem_def t)
qed

lemma copyout_one:
  assumes "user_mem s pt"
  shows "copyout pt va [c] s =
    (if user_ok PTE_W s pt va then Ok (0, s\<lparr>pm := (pm s)(paddr s pt va := c)\<rparr>) else Ok (- 1, s))"
proof -
  from assms copyout_spec [of s pt va "[c]"] obtain r n where n: "n \<le> 1"
      "\<forall>i<n. user_ok PTE_W s pt (va + of_nat i)"
      "copyout pt va [c] s = Ok (r, s\<lparr>pm := ustore (paddr s pt) va (take n [c]) (pm s)\<rparr>)"
      "r = 0 \<and> n = 1 \<or> r = - 1 \<and> n < 1 \<and> \<not> user_ok PTE_W s pt (va + of_nat n)"
    by (auto simp: wp_iff_Ok copied_def user_mem_def)
  then show ?thesis by (cases "n = 0") (auto simp: fun_upd_def le_Suc_eq)
qed

section \<open>Safety and round trip\<close>

text \<open>
  C4. \<open>copyout\<close> on a well-formed page table always returns. Whatever the destination and the length, the
  only bytes of memory it changes are the physical bytes behind addresses of the destination range that
  are mapped valid, user and writable; it returns 0 exactly when the whole range is so mapped, and -1
  otherwise; the page table's lookup, its pages and the free pages stay as they were.
\<close>

theorem copyout_safe:
  assumes "table 2 s pt" "0 < km_end s" "data_pages s pt"
  shows "\<exists>r t. copyout pt va src s = Ok (r, t)
     \<and> (\<forall>a. pm t a \<noteq> pm s a \<longrightarrow> (\<exists>i<length src. user_ok PTE_W s pt (va + of_nat i) \<and> a = paddr s pt (va + of_nat i)))
     \<and> r = (if \<forall>i<length src. user_ok PTE_W s pt (va + of_nat i) then 0 else - 1)
     \<and> table 2 t pt \<and> pte_of t pt = pte_of s pt \<and> free_pages t = free_pages s"
proof -
  from copyout_spec [OF assms, of va src] obtain r n where n: "n \<le> length src"
      and ok: "\<forall>i<n. user_ok PTE_W s pt (va + of_nat i)"
      and run: "copyout pt va src s = Ok (r, s\<lparr>pm := ustore (paddr s pt) va (take n src) (pm s)\<rparr>)"
      and r: "r = 0 \<and> n = length src \<or> r = - 1 \<and> n < length src \<and> \<not> user_ok PTE_W s pt (va + of_nat n)"
    by (auto simp: wp_iff_Ok copied_def)
  have "\<exists>i<length src. user_ok PTE_W s pt (va + of_nat i) \<and> a = paddr s pt (va + of_nat i)"
    if "ustore (paddr s pt) va (take n src) (pm s) a \<noteq> pm s a" for a
    using ustore_other [of "take n src" "paddr s pt" va a "pm s"] that n ok by fastforce
  moreover have "r = (if \<forall>i<length src. user_ok PTE_W s pt (va + of_nat i) then 0 else - 1)"
    using r ok by auto
  ultimately show ?thesis
    using run user_store [OF assms(1,3), of "take n src" va] ok n by auto
qed

lemma paddr_inj:
  assumes "unshared s pt" "user_ok 0 s pt v" "user_ok 0 s pt w" "paddr s pt v = paddr s pt w"
  shows "v = w"
proof (rule same_page_eq)
  have m: "unat v mod 4096 = unat w mod 4096" "unat (PTE2PA (pte_of s pt v)) = unat (PTE2PA (pte_of s pt w))"
  proof -
    have "(unat p + unat x mod 4096) mod 4096 = unat x mod 4096" if "unat p mod 4096 = 0" for p x :: u64
      using that by (metis add_0 mod_add_left_eq mod_mod_trivial)
    from this [OF PTE2PA_aligned] assms(4) show "unat v mod 4096 = unat w mod 4096"
      unfolding paddr_def by metis
    then show "unat (PTE2PA (pte_of s pt v)) = unat (PTE2PA (pte_of s pt w))"
      using assms(4) by (simp add: paddr_def)
  qed
  then show "same_page v w" "unat v mod 4096 = unat w mod 4096"
    using assms(1-3) by (auto simp: unshared_def word_unat_eq_iff)
  show "v < MAXVA" "w < MAXVA" using assms(2,3) by (simp_all add: user_ok_def)
qed

text \<open>
  C5. Round trip through user memory: if no two user pages share memory and \<open>copyout\<close> of some bytes
  to a user address returns 0, then \<open>copyin\<close> of that many bytes from the address returns 0 and exactly
  these bytes.
\<close>

theorem copyout_copyin:
  assumes "table 2 s pt" "0 < km_end s" "data_pages s pt" "unshared s pt"
    and "copyout pt va src s = Ok (0, t)"
  shows "copyin pt va (length src) t = Ok ((0, src), t)"
proof -
  from wpD [OF copyout_spec [OF assms(1-3)] assms(5)] have ok: "user_ok PTE_W s pt (va + of_nat i)" if "i < length src" for i
    using that by (auto simp: copied_def)
  from wpD [OF copyout_spec [OF assms(1-3)] assms(5)] have t: "t = s\<lparr>pm := ustore (paddr s pt) va src (pm s)\<rparr>"
    by (auto simp: copied_def)
  have U: "table 2 t pt" "pte_of t pt = pte_of s pt" "tree 2 (pm t) pt = tree 2 (pm s) pt" "free_pages t = free_pages s"
    unfolding t using user_store [OF assms(1,3), of src va] ok by auto
  note S = same_table [OF U(2)]
  have "data_pages t pt" using assms(3) by (simp add: data_pages_def S U) (simp add: t)
  moreover have "0 < km_end t" using assms(2) by (simp add: t)
  ultimately obtain n where n: "n \<le> length src"
      "copyin pt va (length src) t = Ok ((if n = length src then 0 else - 1, uload (paddr s pt) va n (pm t)), t)"
      "n < length src \<longrightarrow> \<not> user_ok 0 s pt (va + of_nat n)"
    using copyin_spec [of t pt "length src" va] U(1) unfolding S by auto
  have len: "n = length src" using n ok user_ok_0 by (metis le_neq_implies_less)
  have "length src \<le> unat (MAXVA - va)"
  proof (rule ccontr)
    assume "\<not> length src \<le> unat (MAXVA - va)"
    then have "user_ok PTE_W s pt (va + of_nat (unat (MAXVA - va)))" by (intro ok) simp
    then show False by (simp add: user_ok_def)
  qed
  then have small: "length src \<le> 2 ^ 64" using unsigned_less [where ?'a = nat, of "MAXVA - va"] by simp
  have "pm t (paddr s pt (va + of_nat i)) = src ! i" if i: "i < length src" for i
    unfolding t
  proof (simp, rule ustore_same [OF i])
    fix j assume j: "j < length src" "paddr s pt (va + of_nat j) = paddr s pt (va + of_nat i)"
    have "va + of_nat j = va + of_nat i"
      using paddr_inj [OF assms(4) _ _ j(2)] ok [OF i] ok [OF j(1)] user_ok_0 by blast
    then have "unat (of_nat j :: u64) = unat (of_nat i :: u64)" by simp
    then show "j = i" using i j(1) small by (simp add: unat_of_nat)
  qed
  then have "uload (paddr s pt) va (length src) (pm t) = src"
    by (auto simp: uload_def intro!: nth_equalityI)
  with n(2) len show ?thesis by simp
qed


text \<open>An example: the virtual page at 0 mapped readable and writable to the page at \<open>0x80026000\<close>.\<close>

definition example_mapping :: kmem where
  "example_mapping = \<lparr>freelist = 0, nb_free_pages = 0,
     pm = put64 0x80023000 (PA2PTE 0x80024000 OR PTE_V)
        (put64 0x80024000 (PA2PTE 0x80025000 OR PTE_V)
        (put64 0x80025000 (PA2PTE 0x80026000 OR (PTE_R OR PTE_W OR PTE_U OR PTE_V)) (\<lambda>_. 0))),
     km_end = 0x80021000\<rparr>"

lemma example_entries:
  "i < 512 \<Longrightarrow> ent (pm example_mapping) 0x80023000 i = (if i = 0 then PA2PTE 0x80024000 OR PTE_V else 0)"
  "i < 512 \<Longrightarrow> ent (pm example_mapping) 0x80024000 i = (if i = 0 then PA2PTE 0x80025000 OR PTE_V else 0)"
  "i < 512 \<Longrightarrow> ent (pm example_mapping) 0x80025000 i = (if i = 0 then PA2PTE 0x80026000 OR (PTE_R OR PTE_W OR PTE_U OR PTE_V) else 0)"
  by (simp_all add: ent_def example_mapping_def)

lemma example_pages: "page_ok 0x80021000 0x80023000" "page_ok 0x80021000 0x80024000" "page_ok 0x80021000 0x80025000"
    "page_ok 0x80021000 0x80026000"
  by (simp_all add: page_ok_def PHYSTOP_def KERNBASE_def)

lemma example_mapping:
  "table 2 example_mapping 0x80023000" "tree 2 (pm example_mapping) 0x80023000 = {0x80023000, 0x80024000, 0x80025000}"
  "free_pages example_mapping = {}" "km_end example_mapping = 0x80021000"
  "pte_of example_mapping 0x80023000 va = (if same_page va 0 then PA2PTE 0x80026000 OR (PTE_R OR PTE_W OR PTE_U OR PTE_V) else 0)"
proof -
  have v: "valid (if c then PA2PTE p OR PTE_V else 0) = c" if "page_ok 0x80021000 p" for c p
    using PTE_roundtrip(2) [OF that] by (simp add: valid_def)
  note E = example_entries PTE_roundtrip(1) [OF example_pages(2)] PTE_roundtrip(1) [OF example_pages(3)]
    v [OF example_pages(2)] v [OF example_pages(3)]
  have l: "kmem_list example_mapping []" by (simp add: kmem_list_def example_mapping_def)
  show f: "free_pages example_mapping = {}" using free_pages_eq [OF l] by simp
  show k: "km_end example_mapping = 0x80021000" by (simp add: example_mapping_def)
  have s: "{i. i < 512 \<and> i = 0} = {0 :: nat}" by auto
  have "tree (Suc (Suc 0)) (pm example_mapping) 0x80023000 = {0x80023000, 0x80024000, 0x80025000}"
    by (simp add: E s cong: conj_cong)
  then show t: "tree 2 (pm example_mapping) 0x80023000 = {0x80023000, 0x80024000, 0x80025000}"
    by (simp only: numeral_2_eq_2)
  have v0: "\<not> valid 0" by (simp add: valid_def)
  have "twf (Suc (Suc 0)) (page_ok 0x80021000) (pm example_mapping) 0x80023000"
    using example_pages by (simp add: E s v0 cong: conj_cong imp_cong)
  then have "twf 2 (page_ok 0x80021000) (pm example_mapping) 0x80023000" by (simp only: numeral_2_eq_2)
  then show "table 2 example_mapping 0x80023000" using l f k by (auto simp: table_def kmem_wf_def)
  have px: "PX n 0 = 0" for n by (simp add: PX_def)
  have "leaf (Suc (Suc 0)) (pm example_mapping) 0x80023000 va
      = (if same_page va 0 then PA2PTE 0x80026000 OR (PTE_R OR PTE_W OR PTE_U OR PTE_V) else 0)"
    using PTE_roundtrip(2) [OF example_pages(2)] PTE_roundtrip(2) [OF example_pages(3)]
    by (simp add: E PX_lt Let_def same_page_def v0 px) (auto simp: numeral_2_eq_2 word_unat_eq_iff)
  then show "pte_of example_mapping 0x80023000 va = (if same_page va 0 then PA2PTE 0x80026000 OR (PTE_R OR PTE_W OR PTE_U OR PTE_V) else 0)"
    by (simp only: numeral_2_eq_2)
qed


lemma example_user: "user_ok p example_mapping 0x80023000 va \<Longrightarrow> same_page va 0"
  by (auto simp: user_ok_def example_mapping(5) valid_def split: if_splits)

lemma example_flags: "PTE2PA (PA2PTE 0x80026000 OR (PTE_R OR PTE_W OR PTE_U OR PTE_V)) = 0x80026000"
  by (simp add: PTE2PA_def PA2PTE_def PTE_R_def PTE_W_def PTE_U_def PTE_V_def)

lemma example_data: "data_pages example_mapping 0x80023000" "unshared example_mapping 0x80023000"
proof -
  have "page_bytes 0x80026000 \<inter> bytes_of {0x80023000, 0x80024000, 0x80025000} = {}"
    by (auto simp: bytes_of_def page_bytes_def)
  then show "data_pages example_mapping 0x80023000"
    using example_pages(4) by (auto simp: data_pages_def example_mapping example_flags dest: example_user)
  show "unshared example_mapping 0x80023000"
    unfolding unshared_def using example_user same_page_sym same_page_trans by blast
qed

lemma example_writable: "unat va < 4096 \<Longrightarrow> user_ok PTE_W example_mapping 0x80023000 va"
  "\<not> user_ok PTE_W example_mapping 0x80023000 0x1000"
proof -
  have flags: "(PA2PTE 0x80026000 OR (PTE_R OR PTE_W OR PTE_U OR PTE_V)) AND PTE_U \<noteq> 0"
    "(PA2PTE 0x80026000 OR (PTE_R OR PTE_W OR PTE_U OR PTE_V)) AND PTE_W = PTE_W"
    "valid (PA2PTE 0x80026000 OR (PTE_R OR PTE_W OR PTE_U OR PTE_V))"
    by (simp_all add: valid_def PA2PTE_def PTE_R_def PTE_W_def PTE_U_def PTE_V_def)
  assume a: "unat va < 4096"
  have "same_page va 0" unfolding same_page_def by (intro conjI PX_page) (use a in simp_all)
  moreover have "va < MAXVA" using a by (simp add: word_less_nat_alt MAXVA_unat)
  ultimately show "user_ok PTE_W example_mapping 0x80023000 va" using flags by (simp add: user_ok_def example_mapping(5))
next
  have "\<not> same_page 0x1000 0" by (simp add: same_page_def PX_def riscv_consts)
  then show "\<not> user_ok PTE_W example_mapping 0x80023000 0x1000" by (auto dest: example_user)
qed

theorem copyout_safe_witness:
  "(\<exists>t. copyout 0x80023000 0xff0 [1, 2, 3] example_mapping = Ok (0, t))
   \<and> (\<exists>t. copyout 0x80023000 0xffe [1, 2, 3] example_mapping = Ok (- 1, t))"
proof -
  have pos: "0 < km_end example_mapping" by (simp add: example_mapping)
  note C = copyout_safe [OF example_mapping(1) pos example_data(1)]
  have "\<forall>i<length [1, 2, 3 :: u8]. user_ok PTE_W example_mapping 0x80023000 (0xff0 + of_nat i)"
    by (auto intro!: example_writable simp: unat_word_ariths unat_of_nat)
  moreover have "\<not> (\<forall>i<length [1, 2, 3 :: u8]. user_ok PTE_W example_mapping 0x80023000 (0xffe + of_nat i))"
    using example_writable(2) by (auto intro!: exI [of _ 2])
  ultimately show ?thesis
    using C [of "0xff0" "[1, 2, 3]"] C [of "0xffe" "[1, 2, 3]"] by auto
qed

theorem copyout_copyin_witness:
  "\<exists>t. copyout 0x80023000 0xff0 [1, 2, 3] example_mapping = Ok (0, t)
     \<and> copyin 0x80023000 0xff0 3 t = Ok ((0, [1, 2, 3]), t)"
proof -
  have pos: "0 < km_end example_mapping" by (simp add: example_mapping)
  have "\<forall>i<3. user_ok PTE_W example_mapping 0x80023000 (0xff0 + of_nat i)"
    by (auto intro!: example_writable simp: unat_word_ariths unat_of_nat)
  with copyout_spec [OF example_mapping(1) pos example_data(1), of "0xff0" "[1, 2, 3]"]
  obtain t where "copyout 0x80023000 0xff0 [1, 2, 3] example_mapping = Ok (0, t)"
    by (auto simp: wp_iff_Ok copied_def)
  with copyout_copyin [OF example_mapping(1) pos example_data this] show ?thesis by (auto simp: numeral_3_eq_3)
qed

end
