(* ===== verification/Spinlock.thy ===== *)
theory Spinlock
  imports Kernel_Prelude
begin

text \<open>
  Spin locks (\<open>kernel/spinlock.c\<close>).

  The state has the locks and, per CPU, the nesting depth \<open>noff\<close>, the saved \<open>intena\<close> and the interrupt
  enable bit of the hardware. The first half is the code as one CPU executes it alone; a lock that
  another CPU holds makes \<open>acquire\<close> spin, which is \<open>Blocked\<close> here. The second half splits \<open>acquire\<close>
  and \<open>release\<close> at their memory accesses (the atomic swap, the store to \<open>lk->cpu\<close>, the clearing
  store, the atomic release) and lets all CPUs interleave these.

  Shown: at most one CPU is between the swap and the release of a lock; \<open>holding\<close> is accurate, so the
  panics of \<open>acquire\<close> and \<open>release\<close> never fire in correctly nested code; \<open>noff\<close> counts the locks a CPU
  holds or waits for, and interrupts are off while it does.
\<close>

section \<open>State\<close>

record spinlock =
  lk_locked :: bool
  lk_cpu :: "nat option"

record cpu =
  c_noff :: int
  c_intena :: bool
  c_intr :: bool

record spin =
  s_locks :: "nat \<Rightarrow> spinlock"
  s_cpus :: "nat \<Rightarrow> cpu"

section \<open>Operations of one CPU\<close>

definition initlock :: "nat \<Rightarrow> (spin, unit) km" where
  "initlock l = mmod (\<lambda>s. s\<lparr>s_locks := (s_locks s)(l := \<lparr>lk_locked = False, lk_cpu = None\<rparr>)\<rparr>)"

definition holding :: "nat \<Rightarrow> spinlock \<Rightarrow> bool" where
  "holding c lk \<longleftrightarrow> lk_locked lk \<and> lk_cpu lk = Some c"

text \<open>\<open>push_off\<close> and \<open>pop_off\<close> on the structure of the executing CPU; \<open>pop_off\<close> can panic.\<close>

definition push_off :: "cpu \<Rightarrow> cpu" where
  "push_off x =
    (let old = c_intr x;
         y = x\<lparr>c_intr := False\<rparr>;
         z = (if c_noff y = 0 then y\<lparr>c_intena := old\<rparr> else y)
     in z\<lparr>c_noff := c_noff z + 1\<rparr>)"

definition pop_off :: "cpu \<Rightarrow> cpu result" where
  "pop_off x =
    (if c_intr x then Panic ''pop_off - interruptible''
     else if c_noff x < 1 then Panic ''pop_off''
     else
       let y = x\<lparr>c_noff := c_noff x - 1\<rparr>
       in Ok (if c_noff y = 0 \<and> c_intena y then y\<lparr>c_intr := True\<rparr> else y))"

definition on_cpu :: "nat \<Rightarrow> (cpu \<Rightarrow> cpu result) \<Rightarrow> (spin, unit) km" where
  [km_defs]: "on_cpu c f = (\<lambda>s. case f (s_cpus s c) of
      Ok x \<Rightarrow> Ok ((), s\<lparr>s_cpus := (s_cpus s)(c := x)\<rparr>)
    | Panic e \<Rightarrow> Panic e
    | Blocked \<Rightarrow> Blocked
    | Diverges \<Rightarrow> Diverges)"

definition set_lock :: "nat \<Rightarrow> spinlock \<Rightarrow> spin \<Rightarrow> spin" where
  "set_lock l x s = s\<lparr>s_locks := (s_locks s)(l := x)\<rparr>"

definition acquire :: "nat \<Rightarrow> nat \<Rightarrow> (spin, unit) km" where
  "acquire c l =
    mbind (on_cpu c (Ok \<circ> push_off)) (\<lambda>_.
    mbind (mget (\<lambda>s. s_locks s l)) (\<lambda>lk.
    mbind (mpanic_if (holding c lk) ''acquire'') (\<lambda>_.
    if lk_locked lk then mblock
    else mmod (set_lock l \<lparr>lk_locked = True, lk_cpu = Some c\<rparr>))))"

definition release :: "nat \<Rightarrow> nat \<Rightarrow> (spin, unit) km" where
  "release c l =
    mbind (mget (\<lambda>s. s_locks s l)) (\<lambda>lk.
    mbind (mpanic_if (\<not> holding c lk) ''release'') (\<lambda>_.
    mbind (mmod (set_lock l (lk\<lparr>lk_cpu := None\<rparr>))) (\<lambda>_.
    mbind (mmod (set_lock l \<lparr>lk_locked = False, lk_cpu = None\<rparr>)) (\<lambda>_.
    on_cpu c pop_off))))"

lemma push_pop_off:
  assumes "0 \<le> c_noff x" "0 < c_noff x \<Longrightarrow> \<not> c_intr x"
  shows "\<exists>y. pop_off (push_off x) = Ok y \<and> c_noff y = c_noff x \<and> c_intr y = c_intr x \<and> (0 < c_noff x \<longrightarrow> y = x)"
  using assms by (cases "c_noff x = 0") (auto simp: push_off_def pop_off_def Let_def intro!: cpu.equality)

section \<open>Interleaving at the memory accesses\<close>

text \<open>
  Where a CPU is with respect to a lock: outside, spinning on the swap, after the successful swap,
  inside with \<open>lk->cpu\<close> set, and in \<open>release\<close> after clearing \<open>lk->cpu\<close>.
\<close>

datatype phase = Out | Spin | Got | In | Leaving

record spin_sys =
  ss_spin :: spin
  ss_phase :: "nat \<Rightarrow> nat \<Rightarrow> phase"

definition set_ph :: "nat \<Rightarrow> nat \<Rightarrow> phase \<Rightarrow> (nat \<Rightarrow> nat \<Rightarrow> phase) \<Rightarrow> nat \<Rightarrow> nat \<Rightarrow> phase" where
  "set_ph c l x f = f(c := (f c)(l := x))"

definition set_cpu :: "nat \<Rightarrow> cpu \<Rightarrow> spin \<Rightarrow> spin" where
  "set_cpu c x s = s\<lparr>s_cpus := (s_cpus s)(c := x)\<rparr>"

inductive spin_step :: "spin_sys \<Rightarrow> spin_sys \<Rightarrow> bool" where
  enter: "ss_phase s c l = Out \<Longrightarrow> \<not> holding c (s_locks (ss_spin s) l) \<Longrightarrow>
    spin_step s \<lparr>ss_spin = set_cpu c (push_off (s_cpus (ss_spin s) c)) (ss_spin s), ss_phase = set_ph c l Spin (ss_phase s)\<rparr>"
| swap_fail: "ss_phase s c l = Spin \<Longrightarrow> lk_locked (s_locks (ss_spin s) l) \<Longrightarrow> spin_step s s"
| swap_ok: "ss_phase s c l = Spin \<Longrightarrow> \<not> lk_locked (s_locks (ss_spin s) l) \<Longrightarrow>
    spin_step s \<lparr>ss_spin = set_lock l ((s_locks (ss_spin s) l)\<lparr>lk_locked := True\<rparr>) (ss_spin s), ss_phase = set_ph c l Got (ss_phase s)\<rparr>"
| record_cpu: "ss_phase s c l = Got \<Longrightarrow>
    spin_step s \<lparr>ss_spin = set_lock l ((s_locks (ss_spin s) l)\<lparr>lk_cpu := Some c\<rparr>) (ss_spin s), ss_phase = set_ph c l In (ss_phase s)\<rparr>"
| clear_cpu: "ss_phase s c l = In \<Longrightarrow> holding c (s_locks (ss_spin s) l) \<Longrightarrow>
    spin_step s \<lparr>ss_spin = set_lock l ((s_locks (ss_spin s) l)\<lparr>lk_cpu := None\<rparr>) (ss_spin s), ss_phase = set_ph c l Leaving (ss_phase s)\<rparr>"
| unlock: "ss_phase s c l = Leaving \<Longrightarrow> pop_off (s_cpus (ss_spin s) c) = Ok x \<Longrightarrow>
    spin_step s \<lparr>ss_spin = set_cpu c x (set_lock l ((s_locks (ss_spin s) l)\<lparr>lk_locked := False\<rparr>) (ss_spin s)), ss_phase = set_ph c l Out (ss_phase s)\<rparr>"
| set_intr: "c_noff (s_cpus (ss_spin s) c) = 0 \<Longrightarrow>
    spin_step s (s\<lparr>ss_spin := set_cpu c ((s_cpus (ss_spin s) c)\<lparr>c_intr := b\<rparr>) (ss_spin s)\<rparr>)"

inductive spin_reach :: "spin_sys \<Rightarrow> spin_sys \<Rightarrow> bool" where
  spin_refl: "spin_reach s s"
| spin_trans: "spin_reach s t \<Longrightarrow> spin_step t u \<Longrightarrow> spin_reach s u"

definition owns :: "phase \<Rightarrow> bool" where
  "owns x \<longleftrightarrow> x \<in> {Got, In, Leaving}"

text \<open>
  The invariant: a lock is locked exactly while one CPU owns it, \<open>lk->cpu\<close> names the CPU that is
  inside, and \<open>noff\<close> counts the locks a CPU has entered.
\<close>

definition spin_inv :: "spin_sys \<Rightarrow> bool" where
  "spin_inv s \<longleftrightarrow>
     (\<forall>c d l. owns (ss_phase s c l) \<longrightarrow> owns (ss_phase s d l) \<longrightarrow> c = d)
   \<and> (\<forall>l. lk_locked (s_locks (ss_spin s) l) \<longleftrightarrow> (\<exists>c. owns (ss_phase s c l)))
   \<and> (\<forall>l c. lk_cpu (s_locks (ss_spin s) l) = Some c \<longleftrightarrow> ss_phase s c l = In)
   \<and> (\<forall>c. finite {l. ss_phase s c l \<noteq> Out} \<and> c_noff (s_cpus (ss_spin s) c) = int (card {l. ss_phase s c l \<noteq> Out}))
   \<and> (\<forall>c. 0 < c_noff (s_cpus (ss_spin s) c) \<longrightarrow> \<not> c_intr (s_cpus (ss_spin s) c))"

definition spin_boot :: "spin_sys \<Rightarrow> bool" where
  "spin_boot s \<longleftrightarrow> ss_phase s = (\<lambda>_ _. Out) \<and> (\<forall>l. s_locks (ss_spin s) l = \<lparr>lk_locked = False, lk_cpu = None\<rparr>)
     \<and> (\<forall>c. c_noff (s_cpus (ss_spin s) c) = 0)"

lemma owns_simps [simp]: "owns Got" "owns In" "owns Leaving" "\<not> owns Out" "\<not> owns Spin"
  by (auto simp: owns_def)

lemma spin_boot_inv: "spin_boot s \<Longrightarrow> spin_inv s"
  by (simp add: spin_boot_def spin_inv_def)

lemma spin_invD:
  assumes "spin_inv s"
  shows "owns (ss_phase s c l) \<Longrightarrow> owns (ss_phase s d l) \<Longrightarrow> c = d"
    "lk_locked (s_locks (ss_spin s) l) \<longleftrightarrow> (\<exists>c. owns (ss_phase s c l))"
    "lk_cpu (s_locks (ss_spin s) l) = Some c \<longleftrightarrow> ss_phase s c l = In"
    "finite {l. ss_phase s c l \<noteq> Out}" "c_noff (s_cpus (ss_spin s) c) = int (card {l. ss_phase s c l \<noteq> Out})"
    "0 < c_noff (s_cpus (ss_spin s) c) \<Longrightarrow> \<not> c_intr (s_cpus (ss_spin s) c)"
  using assms unfolding spin_inv_def by blast+

text \<open>The sets of locks a CPU has entered, after a change of one phase.\<close>

lemma entered_set_ph:
  "{k. set_ph c l x f d k \<noteq> Out} = (if d = c then (if x = Out then {k. f c k \<noteq> Out} - {l} else insert l {k. f c k \<noteq> Out}) else {k. f d k \<noteq> Out})"
  by (auto simp: set_ph_def)

lemma set_ph_apply: "set_ph c l x f d k = (if d = c \<and> k = l then x else f d k)"
  by (simp add: set_ph_def)

text \<open>A phase change that does not cross \<open>Out\<close> keeps the CPU part of the invariant.\<close>

lemma spin_inv_lock:
  assumes inv: "spin_inv s" and old: "ss_phase s c l \<noteq> Out" and new: "x \<noteq> Out"
    and own: "\<And>d. owns x \<Longrightarrow> owns (ss_phase s d l) \<Longrightarrow> d = c"
    and locked: "lk_locked lk \<longleftrightarrow> owns x \<or> (\<exists>d. d \<noteq> c \<and> owns (ss_phase s d l))"
    and cpu: "\<And>d. lk_cpu lk = Some d \<longleftrightarrow> (if d = c then x = In else ss_phase s d l = In)"
  shows "spin_inv \<lparr>ss_spin = set_lock l lk (ss_spin s), ss_phase = set_ph c l x (ss_phase s)\<rparr>"
proof -
  note D = spin_invD [OF inv]
  have e: "{k. set_ph c l x (ss_phase s) d k \<noteq> Out} = {k. ss_phase s d k \<noteq> Out}" for d
    using old new by (auto simp: entered_set_ph)
  have uniq: "d = e" if o: "owns (set_ph c l x (ss_phase s) d k)" "owns (set_ph c l x (ss_phase s) e k)" for d e k
  proof (cases "k = l \<and> (d = c \<or> e = c)")
    case True
    then have "owns x" using o by (auto simp: set_ph_apply)
    from own [OF this] True o show ?thesis by (auto simp: set_ph_apply split: if_splits)
  next
    case False
    then have "owns (ss_phase s d k)" "owns (ss_phase s e k)" using o by (auto simp: set_ph_apply)
    then show ?thesis by (rule D(1))
  qed
  have locks: "lk_locked (s_locks (set_lock l lk (ss_spin s)) k) \<longleftrightarrow> (\<exists>d. owns (set_ph c l x (ss_phase s) d k))" for k
  proof (cases "k = l")
    case True
    have "(\<exists>d. owns (set_ph c l x (ss_phase s) d l)) \<longleftrightarrow> owns x \<or> (\<exists>d. d \<noteq> c \<and> owns (ss_phase s d l))"
      unfolding set_ph_apply by auto
    then show ?thesis using True locked by (simp add: set_lock_def)
  next
    case False
    then show ?thesis using D(2) [of k] by (simp add: set_lock_def set_ph_apply)
  qed
  have cpus: "lk_cpu (s_locks (set_lock l lk (ss_spin s)) k) = Some d \<longleftrightarrow> set_ph c l x (ss_phase s) d k = In" for k d
    using cpu [of d] D(3) [of k d] by (cases "d = c"; cases "k = l") (simp_all add: set_lock_def set_ph_apply)
  have "s_cpus (set_lock l lk (ss_spin s)) = s_cpus (ss_spin s)" by (simp add: set_lock_def)
  then show ?thesis
    unfolding spin_inv_def using uniq locks cpus D(4,5,6) by (simp add: e)
qed

lemma spin_inv_enter:
  assumes inv: "spin_inv s" and out: "ss_phase s c l = Out"
  shows "spin_inv \<lparr>ss_spin = set_cpu c (push_off (s_cpus (ss_spin s) c)) (ss_spin s), ss_phase = set_ph c l Spin (ss_phase s)\<rparr>"
proof -
  note D = spin_invD [OF inv]
  have "owns (set_ph c l Spin (ss_phase s) d k) \<longleftrightarrow> owns (ss_phase s d k)"
    "set_ph c l Spin (ss_phase s) d k = In \<longleftrightarrow> ss_phase s d k = In" for d k
    using out by (auto simp: set_ph_apply)
  moreover have "card {k. set_ph c l Spin (ss_phase s) c k \<noteq> Out} = card {k. ss_phase s c k \<noteq> Out} + 1"
    using out D(4) [of c] by (simp add: entered_set_ph)
  moreover have "finite {k. set_ph c l Spin (ss_phase s) d k \<noteq> Out}" for d using D(4) by (simp add: entered_set_ph)
  moreover have "{k. set_ph c l Spin (ss_phase s) d k \<noteq> Out} = {k. ss_phase s d k \<noteq> Out}" if "d \<noteq> c" for d
    using that by (simp add: entered_set_ph)
  ultimately show ?thesis
    using D unfolding spin_inv_def by (auto simp: set_cpu_def push_off_def Let_def)
qed

lemma spin_inv_unlock:
  assumes inv: "spin_inv s" and ph: "ss_phase s c l = Leaving" and pop: "pop_off (s_cpus (ss_spin s) c) = Ok x"
  shows "spin_inv \<lparr>ss_spin = set_cpu c x (set_lock l ((s_locks (ss_spin s) l)\<lparr>lk_locked := False\<rparr>) (ss_spin s)),
    ss_phase = set_ph c l Out (ss_phase s)\<rparr>"
proof -
  note D = spin_invD [OF inv]
  have only: "\<not> owns (ss_phase s d l)" if "d \<noteq> c" for d
    using D(1) [of d l c] ph that by auto
  have own: "owns (set_ph c l Out (ss_phase s) d k) \<longleftrightarrow> k \<noteq> l \<and> owns (ss_phase s d k)" for d k
    using only [of d] by (auto simp: set_ph_apply)
  have "set_ph c l Out (ss_phase s) d k = In \<longleftrightarrow> ss_phase s d k = In" for d k
    using ph by (auto simp: set_ph_apply)
  moreover have f: "finite {k. set_ph c l Out (ss_phase s) d k \<noteq> Out}" for d using D(4) by (simp add: entered_set_ph)
  moreover have card: "int (card {k. set_ph c l Out (ss_phase s) c k \<noteq> Out}) = int (card {k. ss_phase s c k \<noteq> Out}) - 1"
    using ph D(4) [of c] card_gt_0_iff [of "{k. ss_phase s c k \<noteq> Out}"] by (auto simp: entered_set_ph card_Diff_singleton of_nat_diff)
  moreover have "{k. set_ph c l Out (ss_phase s) d k \<noteq> Out} = {k. ss_phase s d k \<noteq> Out}" if "d \<noteq> c" for d
    using that by (simp add: entered_set_ph)
  moreover have "c_noff x = c_noff (s_cpus (ss_spin s) c) - 1" "0 < c_noff x \<Longrightarrow> \<not> c_intr x"
    using pop by (auto simp: pop_off_def Let_def split: if_splits)
  moreover have "c_noff x = int (card {k. set_ph c l Out (ss_phase s) c k \<noteq> Out})"
    using card D(5) [of c] calculation(5) by simp
  ultimately show ?thesis
    using D own unfolding spin_inv_def by (auto simp: set_cpu_def set_lock_def)
qed

lemma spin_step_inv:
  assumes "spin_step s t" "spin_inv s"
  shows "spin_inv t"
  using assms
proof (induction rule: spin_step.induct)
  case (enter s c l)
  then show ?case by (simp add: spin_inv_enter)
next
  case (swap_ok s c l)
  note D = spin_invD [OF swap_ok.prems]
  have "\<not> owns (ss_phase s d l)" for d using swap_ok.hyps D(2) [of l] by auto
  then show ?case using swap_ok D(3) [of l] by (intro spin_inv_lock) auto
next
  case (record_cpu s c l)
  note D = spin_invD [OF record_cpu.prems]
  have lk: "lk_locked (s_locks (ss_spin s) l)" using D(2) [of l] record_cpu.hyps owns_simps by metis
  have no: "\<not> owns (ss_phase s d l)" if "d \<noteq> c" for d using record_cpu.hyps D(1) [of d l c] that by auto
  then have "ss_phase s d l \<noteq> In" if "d \<noteq> c" for d using that owns_simps(2) by metis
  then show ?case using record_cpu no lk by (intro spin_inv_lock) auto
next
  case (clear_cpu s c l)
  note D = spin_invD [OF clear_cpu.prems]
  have lk: "lk_locked (s_locks (ss_spin s) l)" using D(2) [of l] clear_cpu.hyps owns_simps by metis
  have no: "\<not> owns (ss_phase s d l)" if "d \<noteq> c" for d using clear_cpu.hyps D(1) [of d l c] that by auto
  then have "ss_phase s d l \<noteq> In" if "d \<noteq> c" for d using that owns_simps(2) by metis
  then show ?case using clear_cpu no lk by (intro spin_inv_lock) auto
next
  case (unlock s c l x)
  then show ?case by (simp add: spin_inv_unlock)
next
  case (set_intr s c b)
  then show ?case by (auto simp: spin_inv_def set_cpu_def)
qed auto

lemma spin_reach_inv: "spin_reach s t \<Longrightarrow> spin_inv s \<Longrightarrow> spin_inv t"
  by (induction rule: spin_reach.induct) (auto intro: spin_step_inv)

section \<open>Properties\<close>

text \<open>
  C13. Mutual exclusion and nesting of spin locks. In every state that the CPUs reach from boot by any
  interleaving of the memory accesses of \<open>acquire\<close> and \<open>release\<close>: at most one CPU is between the
  successful swap and the release of a lock; a CPU inside a lock passes the \<open>holding\<close> check of
  \<open>release\<close>, and one outside passes that of \<open>acquire\<close>; a CPU that has entered some lock has interrupts
  off, and \<open>pop_off\<close> at its release does not panic.
\<close>

theorem spinlock_mutual_exclusion:
  assumes "spin_boot s" "spin_reach s t"
  shows "(owns (ss_phase t c l) \<and> owns (ss_phase t d l) \<longrightarrow> c = d)
    \<and> (ss_phase t c l = In \<longrightarrow> holding c (s_locks (ss_spin t) l))
    \<and> (ss_phase t c l = Out \<longrightarrow> \<not> holding c (s_locks (ss_spin t) l))
    \<and> (ss_phase t c l \<noteq> Out \<longrightarrow> \<not> c_intr (s_cpus (ss_spin t) c) \<and> (\<exists>x. pop_off (s_cpus (ss_spin t) c) = Ok x))"
proof -
  have inv: "spin_inv t" using spin_reach_inv [OF assms(2) spin_boot_inv [OF assms(1)]] .
  note D = spin_invD [OF inv]
  have "0 < c_noff (s_cpus (ss_spin t) c)" if "ss_phase t c l \<noteq> Out"
    using D(4,5) [of c] that card_gt_0_iff [of "{l. ss_phase t c l \<noteq> Out}"] by auto
  then have "ss_phase t c l \<noteq> Out \<longrightarrow> \<not> c_intr (s_cpus (ss_spin t) c) \<and> (\<exists>x. pop_off (s_cpus (ss_spin t) c) = Ok x)"
    using D(6) [of c] by (fastforce simp: pop_off_def Let_def)
  moreover have "ss_phase t c l = In \<longrightarrow> holding c (s_locks (ss_spin t) l)"
    using D(2) [of l] D(3) [of l c] owns_simps(2) unfolding holding_def by metis
  moreover have "ss_phase t c l = Out \<longrightarrow> \<not> holding c (s_locks (ss_spin t) l)"
    using D(3) [of l c] by (simp add: holding_def)
  ultimately show ?thesis using D(1) by blast
qed

definition example_spin :: spin_sys where
  "example_spin = \<lparr>ss_spin = \<lparr>s_locks = \<lambda>_. \<lparr>lk_locked = False, lk_cpu = None\<rparr>,
      s_cpus = \<lambda>_. \<lparr>c_noff = 0, c_intena = False, c_intr = True\<rparr>\<rparr>, ss_phase = \<lambda>_ _. Out\<rparr>"

theorem spinlock_mutual_exclusion_witness:
  "\<exists>t. spin_reach example_spin t \<and> ss_phase t 1 7 = Got \<and> ss_phase t 2 7 \<noteq> Got \<and> \<not> c_intr (s_cpus (ss_spin t) 1)"
proof -
  have boot: "spin_boot example_spin" by (simp add: spin_boot_def example_spin_def)
  define a where "a = \<lparr>ss_spin = set_cpu 1 (push_off (s_cpus (ss_spin example_spin) 1)) (ss_spin example_spin),
    ss_phase = set_ph 1 7 Spin (ss_phase example_spin)\<rparr>"
  define t where "t = \<lparr>ss_spin = set_lock 7 ((s_locks (ss_spin a) 7)\<lparr>lk_locked := True\<rparr>) (ss_spin a),
    ss_phase = set_ph 1 7 Got (ss_phase a)\<rparr>"
  have "spin_step example_spin a"
    unfolding a_def by (rule enter) (simp_all add: example_spin_def holding_def)
  moreover have "spin_step a t"
    unfolding t_def by (rule swap_ok) (simp_all add: a_def example_spin_def set_ph_def set_cpu_def)
  ultimately have r: "spin_reach example_spin t" by (blast intro: spin_refl spin_trans)
  have "ss_phase t 1 7 = Got" by (simp add: t_def set_ph_def)
  then show ?thesis
    using r spinlock_mutual_exclusion [OF boot r, of 1 7 2] by auto
qed

text \<open>
  C14. \<open>acquire\<close> followed by \<open>release\<close> on a free lock returns and restores the interrupt enable bit and
  the nesting depth of the CPU, leaving the lock free; \<open>acquire\<close> of a lock the CPU already holds
  panics instead of deadlocking, and \<open>release\<close> of a lock it does not hold panics.
\<close>

theorem acquire_release:
  assumes "0 \<le> c_noff (s_cpus s c)" "0 < c_noff (s_cpus s c) \<longrightarrow> \<not> c_intr (s_cpus s c)"
    and "s_locks s l = \<lparr>lk_locked = False, lk_cpu = None\<rparr>"
  shows "\<exists>t u. acquire c l s = Ok ((), t) \<and> holding c (s_locks t l) \<and> \<not> c_intr (s_cpus t c)
    \<and> acquire c l t = Panic ''acquire'' \<and> release c l t = Ok ((), u) \<and> s_locks u = s_locks s
    \<and> c_intr (s_cpus u c) = c_intr (s_cpus s c) \<and> c_noff (s_cpus u c) = c_noff (s_cpus s c)
    \<and> release c l u = Panic ''release''"
proof -
  obtain y where y: "pop_off (push_off (s_cpus s c)) = Ok y" "c_noff y = c_noff (s_cpus s c)" "c_intr y = c_intr (s_cpus s c)"
    using push_pop_off [of "s_cpus s c"] assms(1,2) by auto
  define t where "t = set_lock l \<lparr>lk_locked = True, lk_cpu = Some c\<rparr> (set_cpu c (push_off (s_cpus s c)) s)"
  define u where "u = set_cpu c y (set_lock l \<lparr>lk_locked = False, lk_cpu = None\<rparr> (set_lock l \<lparr>lk_locked = True, lk_cpu = None\<rparr> t))"
  have t: "acquire c l s = Ok ((), t)"
    using assms(3) by (simp add: acquire_def km_defs holding_def t_def set_cpu_def)
  have h: "holding c (s_locks t l)" by (simp add: holding_def t_def set_lock_def)
  have i: "\<not> c_intr (s_cpus t c)" by (simp add: t_def set_lock_def set_cpu_def push_off_def Let_def)
  have p: "acquire c l t = Panic ''acquire''"
    using h by (simp add: acquire_def km_defs holding_def)
  have r: "release c l t = Ok ((), u)"
    using h y(1) by (simp add: release_def km_defs holding_def u_def t_def set_lock_def set_cpu_def)
  have l: "s_locks u = s_locks s"
    using assms(3) by (auto simp: u_def t_def set_lock_def set_cpu_def)
  have "release c l u = Panic ''release''"
    by (simp add: release_def km_defs holding_def u_def set_lock_def set_cpu_def)
  moreover have "c_intr (s_cpus u c) = c_intr (s_cpus s c)" "c_noff (s_cpus u c) = c_noff (s_cpus s c)"
    using y(2,3) by (simp_all add: u_def set_cpu_def)
  ultimately show ?thesis using t h i p r l by blast
qed

theorem acquire_release_witness:
  "\<exists>t u. acquire 0 5 (ss_spin example_spin) = Ok ((), t) \<and> release 0 5 t = Ok ((), u) \<and> c_intr (s_cpus u 0)"
  using acquire_release [of "ss_spin example_spin" 0 5] by (fastforce simp: example_spin_def)

end
