(* ===== verification/Inode.thy ===== *)
theory Inode
  imports Log Usercopy
begin

text \<open>
  \<open>kernel/fs.c\<close>, lower half: the super block, the block allocator, the inode table and the contents of
  inodes.

  The state \<open>fs\<close> is the log (with the buffer cache and the disk below it), the super block \<open>sb\<close>, the
  table \<open>itable\<close> and the memory of the page allocator, which the copies to and from user space
  reach. A pointer \<open>struct inode *\<close> is a number: 0 is the null pointer, \<open>Suc k\<close> points to
  \<open>itable.inode[k]\<close>. A section between \<open>acquire(&itable.lock)\<close> and \<open>release(&itable.lock)\<close> is one
  step. \<open>me\<close> is the pid of the calling process.

  A kernel address is either a physical address (\<open>Paddr\<close>) or a local variable of the caller
  (\<open>Local\<close>): for a local destination the model appends the bytes stored to it, from a local source it
  consumes them; \<open>Uaddr\<close> is an address of user space with the page table of the current process.
  The messages of \<open>balloc\<close> and \<open>ialloc\<close> on the console are not part of the state.
\<close>

section \<open>Copies to user or kernel addresses\<close>

datatype addr = Uaddr u64 u64 | Paddr u64 | Local "u8 list"

text \<open>
  \<open>either_copyout\<close> and \<open>either_copyin\<close> of \<open>kernel/proc.c\<close>; next to the result, the address advanced by
  \<open>len\<close> as the loops of \<open>readi\<close> and \<open>writei\<close> do, and for \<open>either_copyin\<close> the bytes stored.
\<close>

definition either_copyout :: "addr \<Rightarrow> u8 list \<Rightarrow> (kmem, int \<times> addr) km" where
  "either_copyout dst src =
    (case dst of
       Uaddr pagetable va \<Rightarrow>
         mbind (copyout pagetable va src) (\<lambda>r.
         mret (r, Uaddr pagetable (va + of_nat (length src))))
     | Paddr p \<Rightarrow>
         mbind (mmod (\<lambda>s. s\<lparr>pm := store_bytes (unat p) src (pm s)\<rparr>)) (\<lambda>_.
         mret (0, Paddr (p + of_nat (length src))))
     | Local bs \<Rightarrow> mret (0, Local (bs @ src)))"

definition either_copyin :: "addr \<Rightarrow> nat \<Rightarrow> (kmem, int \<times> u8 list \<times> addr) km" where
  "either_copyin src len =
    (case src of
       Uaddr pagetable va \<Rightarrow>
         mbind (copyin pagetable va len) (\<lambda>(r, bs).
         mret (r, bs, Uaddr pagetable (va + of_nat len)))
     | Paddr p \<Rightarrow>
         mbind (mget (\<lambda>s. load_bytes (unat p) len (pm s))) (\<lambda>bs.
         mret (0, bs, Paddr (p + of_nat len)))
     | Local bs \<Rightarrow> mret (0, take len bs, Local (drop len bs)))"

section \<open>State\<close>

definition NINODE :: nat where "NINODE = 50"
definition ROOTDEV :: u32 where "ROOTDEV = 1"
definition ROOTINO :: u32 where "ROOTINO = 1"
definition FSMAGIC :: u32 where "FSMAGIC = 0x10203040"
definition NDIRECT :: nat where "NDIRECT = 12"
definition NINDIRECT :: nat where "NINDIRECT = BSIZE div 4"
definition MAXFILE :: nat where "MAXFILE = NDIRECT + NINDIRECT"
definition T_DIR :: u16 where "T_DIR = 1"
definition T_FILE :: u16 where "T_FILE = 2"
definition T_DEVICE :: u16 where "T_DEVICE = 3"

text \<open>
  \<open>struct dinode\<close> takes 1024 bytes: four shorts, the size, thirteen block numbers from byte 12, the
  mode at byte 64 and padding; so one inode fills a block.
\<close>

definition dinode_size :: nat where "dinode_size = 1024"
definition IPB :: nat where "IPB = BSIZE div dinode_size"

definition IBLOCK :: "u32 \<Rightarrow> superblock \<Rightarrow> u32" where
  "IBLOCK i sb = i div of_nat IPB + sb_inodestart sb"

definition BPB :: nat where "BPB = BSIZE * 8"

definition BBLOCK :: "u32 \<Rightarrow> superblock \<Rightarrow> u32" where
  "BBLOCK b sb = b div of_nat BPB + sb_bmapstart sb"

record inode =
  i_dev :: u32
  i_inum :: u32
  i_ref :: int
  i_lock :: sleeplock
  i_valid :: bool
  i_type :: u16
  i_major :: u16
  i_minor :: u16
  i_nlink :: u16
  i_size :: u32
  i_addrs :: "nat \<Rightarrow> u32"
  i_mode :: u16

record fs =
  fs_log :: log
  fs_sb :: superblock
  fs_itable :: "nat \<Rightarrow> inode"
  fs_mem :: kmem

definition flog :: "(log, 'a) km \<Rightarrow> (fs, 'a) km" where
  [km_defs]: "flog = mzoom fs_log fs_log_update"

definition fbio :: "(bio, 'a) km \<Rightarrow> (fs, 'a) km" where
  [km_defs]: "fbio m = flog (lbio m)"

definition fmem :: "(kmem, 'a) km \<Rightarrow> (fs, 'a) km" where
  [km_defs]: "fmem = mzoom fs_mem fs_mem_update"

definition iget_field :: "(inode \<Rightarrow> 'a) \<Rightarrow> nat \<Rightarrow> (fs, 'a) km" where
  [km_defs]: "iget_field f ip = mget (\<lambda>s. f (fs_itable s ip))"

definition iset :: "nat \<Rightarrow> (inode \<Rightarrow> inode) \<Rightarrow> (fs, unit) km" where
  [km_defs]: "iset ip f = mmod (\<lambda>s. s\<lparr>fs_itable := (fs_itable s)(ip := f (fs_itable s ip))\<rparr>)"

definition buf_bytes :: "nat \<Rightarrow> (fs, block) km" where
  [km_defs]: "buf_bytes bp = mget (\<lambda>s. bdata bp (lg_bio (fs_log s)))"

section \<open>Super block and block allocator\<close>

definition sb_of :: "block \<Rightarrow> superblock" where
  "sb_of d = \<lparr>sb_magic = get32 0 d, sb_size = get32 4 d, sb_nblocks = get32 8 d, sb_ninodes = get32 12 d,
     sb_nlog = get32 16 d, sb_logstart = get32 20 d, sb_inodestart = get32 24 d, sb_bmapstart = get32 28 d\<rparr>"

definition readsb :: "int \<Rightarrow> u32 \<Rightarrow> (fs, unit) km" where
  "readsb me dev =
    mbind (fbio (bread me dev 1)) (\<lambda>bp.
    mbind (buf_bytes bp) (\<lambda>d.
    mbind (mmod (\<lambda>s. s\<lparr>fs_sb := sb_of d\<rparr>)) (\<lambda>_.
    fbio (brelse me bp))))"

definition fsinit :: "int \<Rightarrow> u32 \<Rightarrow> (fs, unit) km" where
  "fsinit me dev =
    mbind (readsb me dev) (\<lambda>_.
    mbind (mget fs_sb) (\<lambda>sb.
    mbind (mpanic_if (sb_magic sb \<noteq> FSMAGIC) ''invalid file system'') (\<lambda>_.
    flog (initlog me dev sb))))"

definition bzero :: "int \<Rightarrow> u32 \<Rightarrow> u32 \<Rightarrow> (fs, unit) km" where
  "bzero me dev bno =
    mbind (fbio (bread me dev bno)) (\<lambda>bp.
    mbind (fbio (bstore bp (memset 0 0 BSIZE))) (\<lambda>_.
    mbind (flog (log_write bp)) (\<lambda>_.
    fbio (brelse me bp))))"

text \<open>The inner loop of \<open>balloc\<close>: the first clear bit among the next \<open>k\<close> bits from \<open>bi\<close>.\<close>

fun scan_bits :: "nat \<Rightarrow> block \<Rightarrow> nat \<Rightarrow> nat option" where
  "scan_bits 0 d bi = None"
| "scan_bits (Suc k) d bi =
     (if d (bi div 8) AND push_bit (bi mod 8) 1 = 0 then Some bi else scan_bits k d (Suc bi))"

text \<open>
  The outer loop visits one bitmap block per round; the number of bitmap blocks is its fuel. (With a
  size within \<open>BPB\<close> of \<open>2 ^ 32\<close> the C loop would wrap around and never end.)
\<close>

fun balloc_loop :: "nat \<Rightarrow> int \<Rightarrow> u32 \<Rightarrow> u32 \<Rightarrow> (fs, u32) km" where
  "balloc_loop 0 me dev b = mdiverge"
| "balloc_loop (Suc fuel) me dev b =
    mbind (mget fs_sb) (\<lambda>sb.
    if b < sb_size sb then
      mbind (fbio (bread me dev (BBLOCK b sb))) (\<lambda>bp.
      mbind (buf_bytes bp) (\<lambda>d.
      case scan_bits (min BPB (unat (sb_size sb - b))) d 0 of
        Some bi \<Rightarrow>
          mbind (fbio (bstore bp (\<lambda>d. d(bi div 8 := d (bi div 8) OR push_bit (bi mod 8) 1)))) (\<lambda>_.
          mbind (flog (log_write bp)) (\<lambda>_.
          mbind (fbio (brelse me bp)) (\<lambda>_.
          mbind (bzero me dev (b + of_nat bi)) (\<lambda>_.
          mret (b + of_nat bi)))))
      | None \<Rightarrow>
          mbind (fbio (brelse me bp)) (\<lambda>_.
          balloc_loop fuel me dev (b + of_nat BPB))))
    else mret 0)"

definition balloc :: "int \<Rightarrow> u32 \<Rightarrow> (fs, u32) km" where
  "balloc me dev =
    mbind (mget (sb_size \<circ> fs_sb)) (\<lambda>sz.
    balloc_loop (Suc (Suc (unat sz div BPB))) me dev 0)"

definition bfree :: "int \<Rightarrow> u32 \<Rightarrow> u32 \<Rightarrow> (fs, unit) km" where
  "bfree me dev b =
    mbind (mget fs_sb) (\<lambda>sb.
    mbind (fbio (bread me dev (BBLOCK b sb))) (\<lambda>bp.
    let bi = unat b mod BPB; m = push_bit (bi mod 8) 1 in
    mbind (buf_bytes bp) (\<lambda>d.
    mbind (mpanic_if (d (bi div 8) AND m = 0) ''freeing free block'') (\<lambda>_.
    mbind (fbio (bstore bp (\<lambda>d. d(bi div 8 := d (bi div 8) AND NOT m)))) (\<lambda>_.
    mbind (flog (log_write bp)) (\<lambda>_.
    fbio (brelse me bp)))))))"

section \<open>Inodes\<close>

definition iinit :: "(fs, unit) km" where
  "iinit = mfor [0..<NINODE] (\<lambda>i. iset (Suc i) (i_lock_update (\<lambda>_. initsleeplock)))"

text \<open>
  The scan of \<open>iget\<close>: the entry for the inode, and the first empty entry, of the first \<open>k\<close> entries
  from \<open>ip\<close>.
\<close>

fun iget_scan :: "nat \<Rightarrow> (nat \<Rightarrow> inode) \<Rightarrow> u32 \<Rightarrow> u32 \<Rightarrow> nat \<Rightarrow> nat \<Rightarrow> nat \<times> nat" where
  "iget_scan 0 tab dev inum ip vacant = (0, vacant)"
| "iget_scan (Suc k) tab dev inum ip vacant =
    (if i_ref (tab ip) > 0 \<and> i_dev (tab ip) = dev \<and> i_inum (tab ip) = inum then (ip, vacant)
     else iget_scan k tab dev inum (Suc ip) (if vacant = 0 \<and> i_ref (tab ip) = 0 then ip else vacant))"

definition iget :: "u32 \<Rightarrow> u32 \<Rightarrow> (fs, nat) km" where
  "iget dev inum =
    mbind (mget fs_itable) (\<lambda>tab.
    let (ip, vacant) = iget_scan NINODE tab dev inum 1 0 in
    if ip \<noteq> 0 then
      mbind (iset ip (\<lambda>i. i\<lparr>i_ref := i_ref i + 1\<rparr>)) (\<lambda>_.
      mret ip)
    else
      mbind (mpanic_if (vacant = 0) ''iget: no inodes'') (\<lambda>_.
      mbind (iset vacant (\<lambda>i. i\<lparr>i_dev := dev, i_inum := inum, i_ref := 1, i_valid := False\<rparr>)) (\<lambda>_.
      mret vacant)))"

definition dinode_off :: "u32 \<Rightarrow> nat" where
  "dinode_off inum = unat inum mod IPB * dinode_size"

fun ialloc_loop :: "nat \<Rightarrow> int \<Rightarrow> u32 \<Rightarrow> u16 \<Rightarrow> u32 \<Rightarrow> (fs, nat) km" where
  "ialloc_loop 0 me dev typ inum = mdiverge"
| "ialloc_loop (Suc fuel) me dev typ inum =
    mbind (mget fs_sb) (\<lambda>sb.
    if inum < sb_ninodes sb then
      mbind (fbio (bread me dev (IBLOCK inum sb))) (\<lambda>bp.
      mbind (buf_bytes bp) (\<lambda>d.
      let dip = dinode_off inum in
      if get16 dip d = 0 then
        mbind (fbio (bstore bp (memset dip 0 dinode_size))) (\<lambda>_.
        mbind (fbio (bstore bp (put16 dip typ))) (\<lambda>_.
        mbind (fbio (bstore bp (put16 (dip + 64) 6))) (\<lambda>_.
        mbind (flog (log_write bp)) (\<lambda>_.
        mbind (fbio (brelse me bp)) (\<lambda>_.
        iget dev inum)))))
      else
        mbind (fbio (brelse me bp)) (\<lambda>_.
        ialloc_loop fuel me dev typ (inum + 1))))
    else mret 0)"

definition ialloc :: "int \<Rightarrow> u32 \<Rightarrow> u16 \<Rightarrow> (fs, nat) km" where
  "ialloc me dev typ =
    mbind (mget (sb_ninodes \<circ> fs_sb)) (\<lambda>n.
    ialloc_loop (Suc (unat n)) me dev typ 1)"

text \<open>The stores of \<open>iupdate\<close> into the block, and the loads of \<open>ilock\<close> from it.\<close>

definition put_dinode :: "nat \<Rightarrow> inode \<Rightarrow> block \<Rightarrow> block" where
  "put_dinode dip ip d =
    fold (\<lambda>k. put32 (dip + 12 + 4 * k) (i_addrs ip k)) [0..<NDIRECT + 1]
      (put16 (dip + 64) (i_mode ip) (put32 (dip + 8) (i_size ip) (put16 (dip + 6) (i_nlink ip)
      (put16 (dip + 4) (i_minor ip) (put16 (dip + 2) (i_major ip) (put16 dip (i_type ip) d))))))"

definition get_dinode :: "nat \<Rightarrow> block \<Rightarrow> inode \<Rightarrow> inode" where
  "get_dinode dip d ip = ip\<lparr>i_type := get16 dip d, i_major := get16 (dip + 2) d, i_minor := get16 (dip + 4) d,
     i_nlink := get16 (dip + 6) d, i_size := get32 (dip + 8) d, i_mode := get16 (dip + 64) d,
     i_addrs := (\<lambda>k. if k \<le> NDIRECT then get32 (dip + 12 + 4 * k) d else i_addrs ip k)\<rparr>"

definition iupdate :: "int \<Rightarrow> nat \<Rightarrow> (fs, unit) km" where
  "iupdate me ip =
    mbind (mget (\<lambda>s. fs_itable s ip)) (\<lambda>i.
    mbind (mget fs_sb) (\<lambda>sb.
    mbind (fbio (bread me (i_dev i) (IBLOCK (i_inum i) sb))) (\<lambda>bp.
    mbind (fbio (bstore bp (put_dinode (dinode_off (i_inum i)) i))) (\<lambda>_.
    mbind (flog (log_write bp)) (\<lambda>_.
    fbio (brelse me bp))))))"

definition idup :: "nat \<Rightarrow> (fs, nat) km" where
  "idup ip =
    mbind (iset ip (\<lambda>i. i\<lparr>i_ref := i_ref i + 1\<rparr>)) (\<lambda>_.
    mret ip)"

definition ilock_acquire :: "int \<Rightarrow> nat \<Rightarrow> (fs, unit) km" where
  "ilock_acquire me ip =
     mzoom (\<lambda>s. i_lock (fs_itable s ip))
       (\<lambda>g s. s\<lparr>fs_itable := (fs_itable s)(ip := (fs_itable s ip)\<lparr>i_lock := g (i_lock (fs_itable s ip))\<rparr>)\<rparr>)
       (acquiresleep me)"

definition ilock_release :: "nat \<Rightarrow> (fs, unit) km" where
  "ilock_release ip =
     mzoom (\<lambda>s. i_lock (fs_itable s ip))
       (\<lambda>g s. s\<lparr>fs_itable := (fs_itable s)(ip := (fs_itable s ip)\<lparr>i_lock := g (i_lock (fs_itable s ip))\<rparr>)\<rparr>)
       releasesleep"

definition ilock :: "int \<Rightarrow> nat \<Rightarrow> (fs, unit) km" where
  "ilock me ip =
    mbind (iget_field i_ref ip) (\<lambda>r.
    mbind (mpanic_if (ip = 0 \<or> r < 1) ''ilock'') (\<lambda>_.
    mbind (ilock_acquire me ip) (\<lambda>_.
    mbind (mget (\<lambda>s. fs_itable s ip)) (\<lambda>i.
    mwhen (\<not> i_valid i) (
      mbind (mget fs_sb) (\<lambda>sb.
      mbind (fbio (bread me (i_dev i) (IBLOCK (i_inum i) sb))) (\<lambda>bp.
      mbind (buf_bytes bp) (\<lambda>d.
      mbind (iset ip (get_dinode (dinode_off (i_inum i)) d)) (\<lambda>_.
      mbind (fbio (brelse me bp)) (\<lambda>_.
      mbind (iset ip (i_valid_update (\<lambda>_. True))) (\<lambda>_.
      mbind (iget_field i_type ip) (\<lambda>t.
      mpanic_if (t = 0) ''ilock: no type''))))))))))))"

definition iunlock :: "int \<Rightarrow> nat \<Rightarrow> (fs, unit) km" where
  "iunlock me ip =
    mbind (mget (\<lambda>s. fs_itable s ip)) (\<lambda>i.
    mbind (mpanic_if (ip = 0 \<or> \<not> holdingsleep me (i_lock i) \<or> i_ref i < 1) ''iunlock'') (\<lambda>_.
    ilock_release ip))"

section \<open>Contents\<close>

definition bmap :: "int \<Rightarrow> nat \<Rightarrow> u32 \<Rightarrow> (fs, u32) km" where
  "bmap me ip bn =
    mbind (mget (\<lambda>s. fs_itable s ip)) (\<lambda>i.
    if unat bn < NDIRECT then
      if i_addrs i (unat bn) = 0 then
        mbind (balloc me (i_dev i)) (\<lambda>addr.
        if addr = 0 then mret 0
        else
          mbind (iset ip (\<lambda>i. i\<lparr>i_addrs := (i_addrs i)(unat bn := addr)\<rparr>)) (\<lambda>_.
          mret addr))
      else mret (i_addrs i (unat bn))
    else
      let bn' = unat bn - NDIRECT;
          indirect = (\<lambda>addr.
            mbind (fbio (bread me (i_dev i) addr)) (\<lambda>bp.
            mbind (buf_bytes bp) (\<lambda>a.
            if get32 (4 * bn') a = 0 then
              mbind (balloc me (i_dev i)) (\<lambda>addr'.
              mbind (mwhen (addr' \<noteq> 0) (
                mbind (fbio (bstore bp (put32 (4 * bn') addr'))) (\<lambda>_.
                flog (log_write bp)))) (\<lambda>_.
              mbind (fbio (brelse me bp)) (\<lambda>_.
              mret addr')))
            else
              mbind (fbio (brelse me bp)) (\<lambda>_.
              mret (get32 (4 * bn') a))))) in
      if bn' < NINDIRECT then
        if i_addrs i NDIRECT = 0 then
          mbind (balloc me (i_dev i)) (\<lambda>addr.
          if addr = 0 then mret 0
          else
            mbind (iset ip (\<lambda>i. i\<lparr>i_addrs := (i_addrs i)(NDIRECT := addr)\<rparr>)) (\<lambda>_.
            indirect addr))
        else indirect (i_addrs i NDIRECT)
      else mpanic ''bmap: out of range'')"

definition itrunc :: "int \<Rightarrow> nat \<Rightarrow> (fs, unit) km" where
  "itrunc me ip =
    mbind (iget_field i_dev ip) (\<lambda>dev.
    mbind (mfor [0..<NDIRECT] (\<lambda>i.
      mbind (iget_field (\<lambda>x. i_addrs x i) ip) (\<lambda>addr.
      mwhen (addr \<noteq> 0) (
        mbind (bfree me dev addr) (\<lambda>_.
        iset ip (\<lambda>x. x\<lparr>i_addrs := (i_addrs x)(i := 0)\<rparr>)))))) (\<lambda>_.
    mbind (iget_field (\<lambda>x. i_addrs x NDIRECT) ip) (\<lambda>addr.
    mbind (mwhen (addr \<noteq> 0) (
      mbind (fbio (bread me dev addr)) (\<lambda>bp.
      mbind (mfor [0..<NINDIRECT] (\<lambda>j.
        mbind (buf_bytes bp) (\<lambda>a.
        mwhen (get32 (4 * j) a \<noteq> 0) (bfree me dev (get32 (4 * j) a))))) (\<lambda>_.
      mbind (fbio (brelse me bp)) (\<lambda>_.
      mbind (bfree me dev addr) (\<lambda>_.
      iset ip (\<lambda>x. x\<lparr>i_addrs := (i_addrs x)(NDIRECT := 0)\<rparr>))))))) (\<lambda>_.
    mbind (iset ip (i_size_update (\<lambda>_. 0))) (\<lambda>_.
    iupdate me ip)))))"

definition iput :: "int \<Rightarrow> nat \<Rightarrow> (fs, unit) km" where
  "iput me ip =
    mbind (mget (\<lambda>s. fs_itable s ip)) (\<lambda>i.
    mbind (mwhen (i_ref i = 1 \<and> i_valid i \<and> i_nlink i = 0) (
      mbind (ilock_acquire me ip) (\<lambda>_.
      mbind (itrunc me ip) (\<lambda>_.
      mbind (iset ip (i_type_update (\<lambda>_. 0))) (\<lambda>_.
      mbind (iupdate me ip) (\<lambda>_.
      mbind (iset ip (i_valid_update (\<lambda>_. False))) (\<lambda>_.
      ilock_release ip)))))) ) (\<lambda>_.
    iset ip (\<lambda>x. x\<lparr>i_ref := i_ref x - 1\<rparr>)))"

definition iunlockput :: "int \<Rightarrow> nat \<Rightarrow> (fs, unit) km" where
  "iunlockput me ip =
    mbind (iunlock me ip) (\<lambda>_.
    iput me ip)"

text \<open>\<open>stati\<close> fills a \<open>struct stat\<close>.\<close>

record stat =
  st_dev :: u32
  st_ino :: u32
  st_type :: u16
  st_nlink :: u16
  st_size :: u64
  st_mode :: u16

definition stati :: "nat \<Rightarrow> (fs, stat) km" where
  "stati ip = mget (\<lambda>s. let i = fs_itable s ip in
     \<lparr>st_dev = i_dev i, st_ino = i_inum i, st_type = i_type i, st_nlink = i_nlink i,
      st_size = ucast (i_size i), st_mode = i_mode i\<rparr>)"

text \<open>
  The bytes one round of \<open>readi\<close> and \<open>writei\<close> handles: \<open>min(n - tot, BSIZE - off % BSIZE)\<close>.
\<close>

definition round_len :: "u32 \<Rightarrow> u32 \<Rightarrow> u32 \<Rightarrow> u32" where
  "round_len n tot off = min (n - tot) (of_nat BSIZE - off mod of_nat BSIZE)"

lemma round_len_pos: "tot < n \<Longrightarrow> 0 < unat (round_len n tot off)"
proof -
  assume "tot < n"
  then have "n - tot \<noteq> 0" by auto
  moreover have "unat (off mod 1024) < 1024" by (simp add: unat_mod_distrib)
  then have "off mod 1024 < 1024" by (simp add: word_less_nat_alt)
  then have "1024 - off mod 1024 \<noteq> (0 :: u32)" by auto
  ultimately have "round_len n tot off \<noteq> 0" by (simp add: round_len_def BSIZE_def min_def)
  then show ?thesis by (simp add: unat_gt_0)
qed

lemma round_len_le: "tot < n \<Longrightarrow> unat (round_len n tot off) \<le> unat n - unat tot"
proof -
  assume "tot < n"
  then have "unat (n - tot) = unat n - unat tot" by (simp add: unat_sub)
  moreover have "round_len n tot off \<le> n - tot" by (simp add: round_len_def)
  ultimately show ?thesis by (simp add: word_le_nat_alt)
qed

lemma round_less: "tot < n \<Longrightarrow> unat n - unat (tot + round_len n tot off) < unat n - unat tot"
proof -
  assume a: "tot < n"
  have "unat tot + unat (round_len n tot off) \<le> unat n"
    using round_len_le [OF a, of off] a by (simp add: word_less_nat_alt)
  moreover have "unat n < 2 ^ 32" using unsigned_less [where ?'a = nat, of n] by simp
  ultimately have "unat (tot + round_len n tot off) = unat tot + unat (round_len n tot off)"
    by (simp add: unat_add_lem [THEN iffD1])
  then show ?thesis using round_len_pos [OF a, of off] a by (simp add: word_less_nat_alt)
qed

function readi_loop :: "int \<Rightarrow> nat \<Rightarrow> addr \<Rightarrow> u32 \<Rightarrow> u32 \<Rightarrow> u32 \<Rightarrow> (fs, u32 \<times> addr) km" where
  "readi_loop me ip dst off n tot =
    (if tot < n then
       let m = round_len n tot off in
       mbind (bmap me ip (off div of_nat BSIZE)) (\<lambda>addr.
       if addr = 0 then mret (tot, dst)
       else
         mbind (iget_field i_dev ip) (\<lambda>dev.
         mbind (fbio (bread me dev addr)) (\<lambda>bp.
         mbind (buf_bytes bp) (\<lambda>d.
         mbind (fmem (either_copyout dst (load_bytes (unat off mod BSIZE) (unat m) d))) (\<lambda>(r, dst').
         if r = - 1 then
           mbind (fbio (brelse me bp)) (\<lambda>_.
           mret (- 1, dst'))
         else
           mbind (fbio (brelse me bp)) (\<lambda>_.
           readi_loop me ip dst' (off + m) n (tot + m)))))))
     else mret (tot, dst))"
  by pat_completeness auto
termination
  by (relation "measure (\<lambda>(me, ip, dst, off, n, tot). unat n - unat tot)") (auto simp: round_less)

declare readi_loop.simps [simp del]

text \<open>The result is the C return value and the destination after the last store.\<close>

definition readi :: "int \<Rightarrow> nat \<Rightarrow> addr \<Rightarrow> u32 \<Rightarrow> u32 \<Rightarrow> (fs, int \<times> addr) km" where
  "readi me ip dst off n =
    mbind (iget_field i_size ip) (\<lambda>sz.
    if off > sz \<or> off + n < off then mret (0, dst)
    else
      let n' = (if off + n > sz then sz - off else n) in
      mbind (readi_loop me ip dst off n' 0) (\<lambda>(tot, dst').
      mret (sint tot, dst')))"

text \<open>
  A failed \<open>either_copyin\<close> leaves the bytes copied so far in the buffer, which is released without
  \<open>log_write\<close>.
\<close>

function writei_loop :: "int \<Rightarrow> nat \<Rightarrow> addr \<Rightarrow> u32 \<Rightarrow> u32 \<Rightarrow> u32 \<Rightarrow> (fs, u32 \<times> u32) km" where
  "writei_loop me ip src off n tot =
    (if tot < n then
       let m = round_len n tot off in
       mbind (bmap me ip (off div of_nat BSIZE)) (\<lambda>addr.
       if addr = 0 then mret (tot, off)
       else
         mbind (iget_field i_dev ip) (\<lambda>dev.
         mbind (fbio (bread me dev addr)) (\<lambda>bp.
         mbind (fmem (either_copyin src (unat m))) (\<lambda>(r, bs, src').
         mbind (fbio (bstore bp (store_bytes (unat off mod BSIZE) bs))) (\<lambda>_.
         if r = - 1 then
           mbind (fbio (brelse me bp)) (\<lambda>_.
           mret (tot, off))
         else
           mbind (flog (log_write bp)) (\<lambda>_.
           mbind (fbio (brelse me bp)) (\<lambda>_.
           writei_loop me ip src' (off + m) n (tot + m))))))))
     else mret (tot, off))"
  by pat_completeness auto
termination
  by (relation "measure (\<lambda>(me, ip, src, off, n, tot). unat n - unat tot)") (auto simp: round_less)

declare writei_loop.simps [simp del]

definition writei :: "int \<Rightarrow> nat \<Rightarrow> addr \<Rightarrow> u32 \<Rightarrow> u32 \<Rightarrow> (fs, int) km" where
  "writei me ip src off n =
    mbind (iget_field i_size ip) (\<lambda>sz.
    if off > sz \<or> off + n < off then mret (- 1)
    else if off + n > of_nat (MAXFILE * BSIZE) then mret (- 1)
    else
      mbind (writei_loop me ip src off n 0) (\<lambda>(tot, off').
      mbind (iget_field i_size ip) (\<lambda>sz'.
      mbind (mwhen (off' > sz') (iset ip (i_size_update (\<lambda>_. off')))) (\<lambda>_.
      mbind (iupdate me ip) (\<lambda>_.
      mret (sint tot))))))"

end
