(* ===== verification/Dir.thy ===== *)
theory Dir
  imports Inode
begin

text \<open>
  \<open>kernel/fs.c\<close>, upper half: directories and path names.

  A directory is an inode whose content is an array of \<open>struct dirent\<close>, 16 bytes each: the inode
  number and a name of up to \<open>DIRSIZ\<close> bytes, NUL-terminated when shorter. A \<open>char *\<close> into a name is a
  function from offsets to bytes; a path is the list of its bytes before the terminator.
\<close>

section \<open>Directories\<close>

definition DIRSIZ :: nat where "DIRSIZ = 14"
definition dirent_size :: nat where "dirent_size = 16"

definition namecmp :: "ptr \<Rightarrow> ptr \<Rightarrow> int" where
  "namecmp s t = strncmp s t DIRSIZ"

text \<open>The bytes of a local \<open>struct dirent\<close> as memory.\<close>

definition bytes_fun :: "u8 list \<Rightarrow> block" where
  "bytes_fun bs i = (if i < length bs then bs ! i else 0)"

definition local_bytes :: "addr \<Rightarrow> block" where
  "local_bytes a = (case a of Local bs \<Rightarrow> bytes_fun bs | _ \<Rightarrow> \<lambda>_. 0)"

definition de_inum :: "block \<Rightarrow> u16" where
  "de_inum de = get16 0 de"

definition de_name :: "block \<Rightarrow> ptr" where
  "de_name de = (\<lambda>i. de (2 + i))"

text \<open>
  The loop of \<open>dirlookup\<close>. The result is the inode and the byte offset of the entry, which the C code
  stores through \<open>poff\<close> when it is not null. The entries below the size bound the rounds.
\<close>

fun dirlookup_loop :: "nat \<Rightarrow> int \<Rightarrow> nat \<Rightarrow> ptr \<Rightarrow> u32 \<Rightarrow> (fs, nat \<times> u32) km" where
  "dirlookup_loop 0 me dp name off = mdiverge"
| "dirlookup_loop (Suc fuel) me dp name off =
    mbind (iget_field i_size dp) (\<lambda>sz.
    if off < sz then
      mbind (readi me dp (Local []) off (of_nat dirent_size)) (\<lambda>(r, buf).
      mbind (mpanic_if (r \<noteq> int dirent_size) ''dirlookup read'') (\<lambda>_.
      let de = local_bytes buf in
      if de_inum de = 0 then dirlookup_loop fuel me dp name (off + of_nat dirent_size)
      else if namecmp name (de_name de) = 0 then
        mbind (iget_field i_dev dp) (\<lambda>dev.
        mbind (iget dev (ucast (de_inum de))) (\<lambda>ip.
        mret (ip, off)))
      else dirlookup_loop fuel me dp name (off + of_nat dirent_size)))
    else mret (0, 0))"

definition dirlookup :: "int \<Rightarrow> nat \<Rightarrow> ptr \<Rightarrow> (fs, nat \<times> u32) km" where
  "dirlookup me dp name =
    mbind (iget_field i_type dp) (\<lambda>t.
    mbind (mpanic_if (t \<noteq> T_DIR) ''dirlookup not DIR'') (\<lambda>_.
    mbind (iget_field i_size dp) (\<lambda>sz.
    dirlookup_loop (Suc (Suc (unat sz div dirent_size))) me dp name 0)))"

text \<open>The search of \<open>dirlink\<close> for an empty entry: the offset at which the loop stops.\<close>

fun dirlink_loop :: "nat \<Rightarrow> int \<Rightarrow> nat \<Rightarrow> u32 \<Rightarrow> (fs, u32) km" where
  "dirlink_loop 0 me dp off = mdiverge"
| "dirlink_loop (Suc fuel) me dp off =
    mbind (iget_field i_size dp) (\<lambda>sz.
    if off < sz then
      mbind (readi me dp (Local []) off (of_nat dirent_size)) (\<lambda>(r, buf).
      mbind (mpanic_if (r \<noteq> int dirent_size) ''dirlink read'') (\<lambda>_.
      if de_inum (local_bytes buf) = 0 then mret off
      else dirlink_loop fuel me dp (off + of_nat dirent_size)))
    else mret off)"

text \<open>\<open>de.inum = inum\<close> truncates to 16 bits; \<open>de.name\<close> is filled by \<open>strncpy\<close>.\<close>

definition make_dirent :: "ptr \<Rightarrow> u32 \<Rightarrow> u8 list" where
  "make_dirent name inum =
    (let nm = strncpy (\<lambda>_. 0) name (int DIRSIZ)
     in load_bytes 0 2 (put16 0 (ucast inum) (\<lambda>_. 0)) @ load_bytes 0 DIRSIZ nm)"

definition dirlink :: "int \<Rightarrow> nat \<Rightarrow> ptr \<Rightarrow> u32 \<Rightarrow> (fs, int) km" where
  "dirlink me dp name inum =
    mbind (dirlookup me dp name) (\<lambda>(ip, off).
    if ip \<noteq> 0 then
      mbind (iput me ip) (\<lambda>_.
      mret (- 1))
    else
      mbind (iget_field i_size dp) (\<lambda>sz.
      mbind (dirlink_loop (Suc (Suc (unat sz div dirent_size))) me dp 0) (\<lambda>off.
      mbind (writei me dp (Local (make_dirent name inum)) off (of_nat dirent_size)) (\<lambda>r.
      if r \<noteq> int dirent_size then mret (- 1) else mret 0))))"

section \<open>Paths\<close>

definition slash :: u8 where "slash = 0x2f"

text \<open>
  \<open>skipelem\<close>: the rest of the path and the new contents of the buffer \<open>name\<close>, or \<open>None\<close> for the null
  pointer. The three loops of the C code are the \<open>dropWhile\<close>s and the \<open>takeWhile\<close>; a path has no zero
  byte before its end.
\<close>

definition skipelem :: "u8 list \<Rightarrow> ptr \<Rightarrow> (u8 list \<times> ptr) option" where
  "skipelem path name =
    (let p = dropWhile (\<lambda>c. c = slash) path in
     if p = [] then None
     else
       let s = takeWhile (\<lambda>c. c \<noteq> slash) p;
           name' = (if length s \<ge> DIRSIZ then store_bytes 0 (take DIRSIZ s) name
                    else (store_bytes 0 s name)(length s := 0))
       in Some (dropWhile (\<lambda>c. c = slash) (dropWhile (\<lambda>c. c \<noteq> slash) p), name'))"

lemma skipelem_shorter: "skipelem path name = Some (path', name') \<Longrightarrow> length path' < length path"
proof -
  assume a: "skipelem path name = Some (path', name')"
  let ?p = "dropWhile (\<lambda>c. c = slash) path"
  from a have ne: "?p \<noteq> []" and p': "path' = dropWhile (\<lambda>c. c = slash) (dropWhile (\<lambda>c. c \<noteq> slash) ?p)"
    by (auto simp: skipelem_def Let_def split: if_splits)
  have "hd ?p \<noteq> slash" using hd_dropWhile [OF ne] by simp
  with ne have "dropWhile (\<lambda>c. c \<noteq> slash) ?p = dropWhile (\<lambda>c. c \<noteq> slash) (tl ?p)" by (cases ?p) auto
  then have "length path' \<le> length (tl ?p)"
    unfolding p' by (metis length_dropWhile_le order_trans)
  also have "\<dots> < length ?p" using ne by (cases ?p) auto
  also have "\<dots> \<le> length path" by (rule length_dropWhile_le)
  finally show ?thesis .
qed

text \<open>
  The loop of \<open>namex\<close>; the result is the inode (0 for the null pointer) and the buffer \<open>name\<close>.
\<close>

function namex_loop :: "int \<Rightarrow> u8 list \<Rightarrow> bool \<Rightarrow> ptr \<Rightarrow> nat \<Rightarrow> (fs, nat \<times> ptr) km" where
  "namex_loop me path nameiparent name ip =
    (case skipelem path name of
       None \<Rightarrow>
         if nameiparent then
           mbind (iput me ip) (\<lambda>_.
           mret (0, name))
         else mret (ip, name)
     | Some (path', name') \<Rightarrow>
         mbind (ilock me ip) (\<lambda>_.
         mbind (iget_field i_type ip) (\<lambda>t.
         if t \<noteq> T_DIR then
           mbind (iunlockput me ip) (\<lambda>_.
           mret (0, name'))
         else if nameiparent \<and> path' = [] then
           mbind (iunlock me ip) (\<lambda>_.
           mret (ip, name'))
         else
           mbind (dirlookup me ip name') (\<lambda>(nxt, off).
           if nxt = 0 then
             mbind (iunlockput me ip) (\<lambda>_.
             mret (0, name'))
           else
             mbind (iunlockput me ip) (\<lambda>_.
             namex_loop me path' nameiparent name' nxt)))))"
  by pat_completeness auto
termination
  by (relation "measure (\<lambda>(me, path, np, name, ip). length path)") (auto dest: skipelem_shorter)

declare namex_loop.simps [simp del]

text \<open>\<open>cwd\<close> is \<open>myproc()->cwd\<close>.\<close>

definition namex :: "int \<Rightarrow> nat \<Rightarrow> u8 list \<Rightarrow> bool \<Rightarrow> ptr \<Rightarrow> (fs, nat \<times> ptr) km" where
  "namex me cwd path nameiparent name =
    mbind (if path \<noteq> [] \<and> hd path = slash then iget ROOTDEV ROOTINO else idup cwd) (\<lambda>ip.
    namex_loop me path nameiparent name ip)"

definition namei :: "int \<Rightarrow> nat \<Rightarrow> u8 list \<Rightarrow> (fs, nat) km" where
  "namei me cwd path =
    mbind (namex me cwd path False (\<lambda>_. 0)) (\<lambda>(ip, name).
    mret ip)"

definition nameiparent :: "int \<Rightarrow> nat \<Rightarrow> u8 list \<Rightarrow> ptr \<Rightarrow> (fs, nat \<times> ptr) km" where
  "nameiparent me cwd path name = namex me cwd path True name"

end
