(* ===== verification/Proc.thy ===== *)
theory Proc
  imports Riscv Cstring
begin

text \<open>
  The process table of \<open>kernel/proc.c\<close> and the scheduling states of processes.

  This theory has the part of \<open>proc.c\<close> that only touches the table: \<open>procinit\<close>, \<open>allocpid\<close>,
  \<open>wakeup\<close>, \<open>kill\<close>, \<open>sched\<close>, \<open>yield\<close>, \<open>sleep\<close>, the rounds of \<open>scheduler\<close>, \<open>reparent\<close>. Creating and
  reaping processes also moves memory and files, and is in \<open>Process\<close>.

  A \<open>struct proc *\<close> is an index into the table; \<open>None\<close> is the null pointer. A section under a
  \<open>p->lock\<close> is one step. \<open>swtch\<close> ends the step of a process: \<open>sched\<close> leaves the CPU to the scheduler,
  and what follows \<open>swtch\<close> is executed when the scheduler has picked the process again.

  The second half lets all CPUs interleave these steps: a process runs on at most one CPU, the
  process a CPU runs is RUNNING, and every sleeping process has a channel on which it can be woken.
\<close>

section \<open>State\<close>

definition NPROC :: nat where "NPROC = 64"
definition NCPU :: nat where "NCPU = 8"
definition NOFILE :: nat where "NOFILE = 16"

datatype procstate = UNUSED | USED | SLEEPING | RUNNABLE | RUNNING | ZOMBIE

text \<open>The objects whose addresses serve as channels of \<open>sleep\<close> and \<open>wakeup\<close>.\<close>

datatype chan =
    Chan_proc nat | Chan_ticks | Chan_cons | Chan_uart | Chan_log | Chan_disk_free | Chan_buf nat
  | Chan_sleeplock nat | Chan_mutex nat | Chan_pipe_read u64 | Chan_pipe_write u64

text \<open>\<open>struct context\<close>: \<open>ra\<close>, \<open>sp\<close> and the saved registers \<open>s0\<close> to \<open>s11\<close>.\<close>

record ctx =
  ctx_ra :: u64
  ctx_sp :: u64
  ctx_s :: "nat \<Rightarrow> u64"

record proc =
  p_state :: procstate
  p_chan :: "chan option"
  p_killed :: bool
  p_xstate :: int
  p_pid :: int
  p_parent :: "nat option"
  p_kstack :: u64
  p_sz :: u64
  p_pagetable :: u64
  p_trapframe :: u64
  p_context :: ctx
  p_ofile :: "nat \<Rightarrow> nat"
  p_cwd :: nat
  p_name :: ptr

text \<open>\<open>cpus\<close>, \<open>proc\<close>, \<open>initproc\<close> and \<open>nextpid\<close>; of \<open>struct cpu\<close> the running process.\<close>

record ptable =
  pt_proc :: "nat \<Rightarrow> proc"
  pt_cpu :: "nat \<Rightarrow> nat option"
  pt_initproc :: "nat option"
  pt_nextpid :: int

definition pset :: "nat \<Rightarrow> (proc \<Rightarrow> proc) \<Rightarrow> (ptable, unit) km" where
  [km_defs]: "pset p f = mmod (\<lambda>s. s\<lparr>pt_proc := (pt_proc s)(p := f (pt_proc s p))\<rparr>)"

definition pget :: "(proc \<Rightarrow> 'a) \<Rightarrow> nat \<Rightarrow> (ptable, 'a) km" where
  [km_defs]: "pget f p = mget (\<lambda>s. f (pt_proc s p))"

section \<open>Operations\<close>

definition procinit :: "(ptable, unit) km" where
  "procinit = mfor [0..<NPROC] (\<lambda>p. pset p (\<lambda>x. x\<lparr>p_state := UNUSED, p_kstack := KSTACK p\<rparr>))"

definition allocpid :: "(ptable, int) km" where
  "allocpid =
    mbind (mget pt_nextpid) (\<lambda>pid.
    mbind (mmod (\<lambda>s. s\<lparr>pt_nextpid := pt_nextpid s + 1\<rparr>)) (\<lambda>_.
    mret pid))"

text \<open>The first process of the table in a given state: the search loop of \<open>allocproc\<close>.\<close>

definition find_unused :: "(ptable, nat option) km" where
  "find_unused = mget (\<lambda>s. List.find (\<lambda>p. p_state (pt_proc s p) = UNUSED) [0..<NPROC])"

text \<open>\<open>me\<close> is \<open>myproc()\<close>, the null pointer in an interrupt taken while no process runs.\<close>

definition wakeup :: "nat option \<Rightarrow> chan \<Rightarrow> (ptable, unit) km" where
  "wakeup me ch = mfor [0..<NPROC] (\<lambda>p.
     mwhen (Some p \<noteq> me) (
       mbind (mget (\<lambda>s. pt_proc s p)) (\<lambda>x.
       mwhen (p_state x = SLEEPING \<and> p_chan x = Some ch) (
         pset p (p_state_update (\<lambda>_. RUNNABLE))))))"

fun kill_loop :: "int \<Rightarrow> nat list \<Rightarrow> (ptable, int) km" where
  "kill_loop pid [] = mret (- 1)"
| "kill_loop pid (p # ps) =
    mbind (mget (\<lambda>s. pt_proc s p)) (\<lambda>x.
    if p_pid x = pid then
      mbind (pset p (p_killed_update (\<lambda>_. True))) (\<lambda>_.
      mbind (mwhen (p_state x = SLEEPING) (pset p (p_state_update (\<lambda>_. RUNNABLE)))) (\<lambda>_.
      mret 0))
    else kill_loop pid ps)"

definition kill :: "int \<Rightarrow> (ptable, int) km" where
  "kill pid = kill_loop pid [0..<NPROC]"

definition setkilled :: "nat \<Rightarrow> (ptable, unit) km" where
  "setkilled p = pset p (p_killed_update (\<lambda>_. True))"

definition killed :: "nat \<Rightarrow> (ptable, bool) km" where
  "killed p = pget p_killed p"

definition reparent :: "nat \<Rightarrow> (ptable, unit) km" where
  "reparent p = mfor [0..<NPROC] (\<lambda>pp.
     mbind (pget p_parent pp) (\<lambda>par.
     mwhen (par = Some p) (
       mbind (mget pt_initproc) (\<lambda>ini.
       mbind (pset pp (p_parent_update (\<lambda>_. ini))) (\<lambda>_.
       case ini of None \<Rightarrow> mret () | Some i \<Rightarrow> wakeup (Some p) (Chan_proc i))))))"

text \<open>
  \<open>sched\<close>, on CPU \<open>c\<close>. Its checks that \<open>p->lock\<close> is the only lock held and interrupts are off concern
  the spin locks; here remains the check of the state. Leaving through \<open>swtch\<close>, the scheduler clears
  \<open>c->proc\<close>.
\<close>

definition sched :: "nat \<Rightarrow> nat \<Rightarrow> (ptable, unit) km" where
  "sched c p =
    mbind (pget p_state p) (\<lambda>st.
    mbind (mpanic_if (st = RUNNING) ''sched running'') (\<lambda>_.
    mmod (\<lambda>s. s\<lparr>pt_cpu := (pt_cpu s)(c := None)\<rparr>)))"

definition yield :: "nat \<Rightarrow> nat \<Rightarrow> (ptable, unit) km" where
  "yield c p =
    mbind (pset p (p_state_update (\<lambda>_. RUNNABLE))) (\<lambda>_.
    sched c p)"

text \<open>\<open>sleep\<close> up to its \<open>sched\<close>, and what it does when it runs again.\<close>

definition sleep :: "nat \<Rightarrow> nat \<Rightarrow> chan \<Rightarrow> (ptable, unit) km" where
  "sleep c p ch =
    mbind (pset p (\<lambda>x. x\<lparr>p_chan := Some ch, p_state := SLEEPING\<rparr>)) (\<lambda>_.
    sched c p)"

definition sleep_resume :: "nat \<Rightarrow> (ptable, unit) km" where
  "sleep_resume p = pset p (p_chan_update (\<lambda>_. None))"

text \<open>The last part of \<open>exit\<close>: the state is set under \<open>p->lock\<close>, then \<open>sched\<close> never returns.\<close>

definition exit_sched :: "nat \<Rightarrow> nat \<Rightarrow> int \<Rightarrow> (ptable, unit) km" where
  "exit_sched c p status =
    mbind (pset p (\<lambda>x. x\<lparr>p_xstate := status, p_state := ZOMBIE\<rparr>)) (\<lambda>_.
    sched c p)"

text \<open>
  One round of the inner loop of \<open>scheduler\<close> for process \<open>p\<close> on CPU \<open>c\<close>: whether it switched to the
  process. The loop goes through the table, and back to its start, for ever.
\<close>

definition scheduler_round :: "nat \<Rightarrow> nat \<Rightarrow> (ptable, bool) km" where
  "scheduler_round c p =
    mbind (pget p_state p) (\<lambda>st.
    if st = RUNNABLE then
      mbind (pset p (p_state_update (\<lambda>_. RUNNING))) (\<lambda>_.
      mbind (mmod (\<lambda>s. s\<lparr>pt_cpu := (pt_cpu s)(c := Some p)\<rparr>)) (\<lambda>_.
      mret True))
    else mret False)"

text \<open>
  The table's part of creating and reaping: the assignments of \<open>allocproc\<close> to a found slot, the last
  step of \<open>fork\<close> and \<open>userinit\<close>, and the assignments at the end of \<open>freeproc\<close>.
\<close>

definition claim_proc :: "nat \<Rightarrow> (ptable, unit) km" where
  "claim_proc p =
    mbind allocpid (\<lambda>pid.
    pset p (\<lambda>x. x\<lparr>p_pid := pid, p_state := USED\<rparr>))"

definition make_runnable :: "nat \<Rightarrow> (ptable, unit) km" where
  "make_runnable p = pset p (p_state_update (\<lambda>_. RUNNABLE))"

definition clear_proc :: "nat \<Rightarrow> (ptable, unit) km" where
  "clear_proc p = pset p (\<lambda>x. x\<lparr>p_pagetable := 0, p_sz := 0, p_pid := 0, p_parent := None,
     p_name := (p_name x)(0 := 0), p_chan := None, p_killed := False, p_xstate := 0, p_state := UNUSED\<rparr>)"

section \<open>Interleaved steps\<close>

text \<open>
  One step of the system. The guards are what the code guarantees at the call: \<open>scheduler\<close> runs on a
  CPU without a process, \<open>yield\<close>, \<open>sleep\<close> and \<open>exit\<close> are called by the process running on the CPU,
  \<open>make_runnable\<close> and \<open>clear_proc\<close> are applied to a process under construction or to a zombie.
\<close>

inductive pstep :: "ptable \<Rightarrow> ptable \<Rightarrow> bool" where
  dispatch: "c < NCPU \<Longrightarrow> pt_cpu s c = None \<Longrightarrow> p < NPROC \<Longrightarrow> scheduler_round c p s = Ok (b, t) \<Longrightarrow> pstep s t"
| yield_step: "c < NCPU \<Longrightarrow> pt_cpu s c = Some p \<Longrightarrow> yield c p s = Ok ((), t) \<Longrightarrow> pstep s t"
| sleep_step: "c < NCPU \<Longrightarrow> pt_cpu s c = Some p \<Longrightarrow> sleep c p ch s = Ok ((), t) \<Longrightarrow> pstep s t"
| resume_step: "c < NCPU \<Longrightarrow> pt_cpu s c = Some p \<Longrightarrow> sleep_resume p s = Ok ((), t) \<Longrightarrow> pstep s t"
| exit_step: "c < NCPU \<Longrightarrow> pt_cpu s c = Some p \<Longrightarrow> exit_sched c p status s = Ok ((), t) \<Longrightarrow> pstep s t"
| reparent_step: "c < NCPU \<Longrightarrow> pt_cpu s c = Some p \<Longrightarrow> reparent p s = Ok ((), t) \<Longrightarrow> pstep s t"
| wakeup_step: "c < NCPU \<Longrightarrow> wakeup (pt_cpu s c) ch s = Ok ((), t) \<Longrightarrow> pstep s t"
| kill_step: "kill pid s = Ok (r, t) \<Longrightarrow> pstep s t"
| claim_step: "p < NPROC \<Longrightarrow> find_unused s = Ok (Some p, s) \<Longrightarrow> claim_proc p s = Ok ((), t) \<Longrightarrow> pstep s t"
| runnable_step: "p < NPROC \<Longrightarrow> p_state (pt_proc s p) = USED \<Longrightarrow> make_runnable p s = Ok ((), t) \<Longrightarrow> pstep s t"
| clear_step: "p < NPROC \<Longrightarrow> p_state (pt_proc s p) = USED \<or> p_state (pt_proc s p) = ZOMBIE \<Longrightarrow>
    clear_proc p s = Ok ((), t) \<Longrightarrow> pstep s t"

inductive preach :: "ptable \<Rightarrow> ptable \<Rightarrow> bool" where
  preach_refl: "preach s s"
| preach_step: "preach s t \<Longrightarrow> pstep t u \<Longrightarrow> preach s u"

definition sched_inv :: "ptable \<Rightarrow> bool" where
  "sched_inv s \<longleftrightarrow>
     (\<forall>c p. pt_cpu s c = Some p \<longrightarrow> c < NCPU \<and> p < NPROC \<and> p_state (pt_proc s p) = RUNNING)
   \<and> (\<forall>c d p. pt_cpu s c = Some p \<longrightarrow> pt_cpu s d = Some p \<longrightarrow> c = d)
   \<and> (\<forall>p<NPROC. p_state (pt_proc s p) = RUNNING \<longrightarrow> (\<exists>c. pt_cpu s c = Some p))
   \<and> (\<forall>p<NPROC. p_state (pt_proc s p) = SLEEPING \<longrightarrow> p_chan (pt_proc s p) \<noteq> None)"

text \<open>The table after a loop that treats each process on its own.\<close>

lemma mfor_pset:
  assumes "distinct ps" "\<And>p s. body p s = Ok ((), s\<lparr>pt_proc := (pt_proc s)(p := g p (pt_proc s p))\<rparr>)"
  shows "mfor ps body s = Ok ((), s\<lparr>pt_proc := (\<lambda>p. if p \<in> set ps then g p (pt_proc s p) else pt_proc s p)\<rparr>)"
  using assms(1)
proof (induction ps arbitrary: s)
  case (Cons p ps)
  then show ?case
    by (auto simp: mbind_Ok [OF assms(2)] fun_eq_iff intro!: ptable.equality)
qed (simp add: mret_def)

lemma wakeup_eq:
  "wakeup me ch s = Ok ((), s\<lparr>pt_proc := (\<lambda>p. if p < NPROC \<and> Some p \<noteq> me \<and> p_state (pt_proc s p) = SLEEPING
     \<and> p_chan (pt_proc s p) = Some ch then (pt_proc s p)\<lparr>p_state := RUNNABLE\<rparr> else pt_proc s p)\<rparr>)"
  unfolding wakeup_def
  by (subst mfor_pset [where g = "\<lambda>p x. if Some p \<noteq> me \<and> p_state x = SLEEPING \<and> p_chan x = Some ch
        then x\<lparr>p_state := RUNNABLE\<rparr> else x"]) (auto simp: km_defs fun_eq_iff intro!: ptable.equality)

text \<open>Steps that at most wake sleeping processes.\<close>

definition awakes :: "ptable \<Rightarrow> ptable \<Rightarrow> bool" where
  "awakes s t \<longleftrightarrow> pt_cpu t = pt_cpu s \<and> (\<forall>p.
     p_state (pt_proc t p) = p_state (pt_proc s p) \<and> p_chan (pt_proc t p) = p_chan (pt_proc s p)
   \<or> p_state (pt_proc s p) = SLEEPING \<and> p_state (pt_proc t p) = RUNNABLE)"

lemma awakes_refl [simp]: "awakes s s"
  by (simp add: awakes_def)

lemma awakes_trans: "awakes s t \<Longrightarrow> awakes t u \<Longrightarrow> awakes s u"
  unfolding awakes_def by (metis procstate.distinct)

lemma awakes_inv:
  assumes "awakes s t" "sched_inv s"
  shows "sched_inv t"
proof -
  have cpu: "pt_cpu t = pt_cpu s" using assms(1) by (simp add: awakes_def)
  have p: "p_state (pt_proc t p) = p_state (pt_proc s p) \<and> p_chan (pt_proc t p) = p_chan (pt_proc s p)
      \<or> p_state (pt_proc s p) = SLEEPING \<and> p_state (pt_proc t p) = RUNNABLE" for p
    using assms(1) by (simp add: awakes_def)
  have "p_state (pt_proc t p) = RUNNING \<longleftrightarrow> p_state (pt_proc s p) = RUNNING"
    "p_state (pt_proc t p) = SLEEPING \<Longrightarrow> p_state (pt_proc s p) = SLEEPING \<and> p_chan (pt_proc t p) = p_chan (pt_proc s p)" for p
    using p [of p] by auto
  then show ?thesis using assms(2) by (simp add: sched_inv_def cpu)
qed

lemma wakeup_awakes: "wakeup me ch s = Ok ((), t) \<Longrightarrow> awakes s t"
  by (auto simp: wakeup_eq awakes_def)

lemma wp_wakeup: "wp (wakeup me ch) (\<lambda>_. awakes s) s"
  using wakeup_awakes [of me ch s] wakeup_eq [of me ch s] by (simp add: wp_def)

lemma kill_awakes: "kill_loop pid ps s = Ok (r, t) \<Longrightarrow> awakes s t"
proof (induction ps)
  case (Cons p ps)
  then show ?case by (auto simp: km_defs awakes_def split: if_splits)
qed (simp add: mret_def)

lemma reparent_awakes: "wp (reparent p) (\<lambda>_. awakes s) s"
  unfolding reparent_def
proof (rule wp_mfor [where I = "\<lambda>k t. awakes s t"])
  fix k t assume "awakes s t"
  then have a: "awakes s (t\<lparr>pt_proc := (pt_proc t)(q := (pt_proc t q)\<lparr>p_parent := x\<rparr>)\<rparr>)" for q x
    unfolding awakes_def by auto
  show "wp (mbind (pget p_parent ([0..<NPROC] ! k)) (\<lambda>par.
      mwhen (par = Some p) (
       mbind (mget pt_initproc) (\<lambda>ini.
       mbind (pset ([0..<NPROC] ! k) (p_parent_update (\<lambda>_. ini))) (\<lambda>_.
       case ini of None \<Rightarrow> mret () | Some i \<Rightarrow> wakeup (Some p) (Chan_proc i)))))) (\<lambda>_. awakes s) t"
    using \<open>awakes s t\<close> a
    by (auto simp: wp_simps pget_def pset_def split: option.splits
        intro!: wp_cong_post [OF wp_wakeup] intro: awakes_trans [OF a])
qed auto

lemma pset_eq: "pset p f s = Ok ((), s\<lparr>pt_proc := (pt_proc s)(p := f (pt_proc s p))\<rparr>)"
  by (simp add: pset_def mmod_def)

text \<open>The invariant under the three kinds of change: entering a CPU, leaving it, and off any CPU.\<close>

lemma sched_invD:
  assumes "sched_inv s"
  shows "pt_cpu s c = Some p \<Longrightarrow> c < NCPU" "pt_cpu s c = Some p \<Longrightarrow> p < NPROC"
    "pt_cpu s c = Some p \<Longrightarrow> p_state (pt_proc s p) = RUNNING"
    "pt_cpu s c = Some p \<Longrightarrow> pt_cpu s d = Some p \<Longrightarrow> c = d"
    "p < NPROC \<Longrightarrow> p_state (pt_proc s p) = RUNNING \<Longrightarrow> \<exists>c. pt_cpu s c = Some p"
    "p < NPROC \<Longrightarrow> p_state (pt_proc s p) = SLEEPING \<Longrightarrow> p_chan (pt_proc s p) \<noteq> None"
  using assms unfolding sched_inv_def by blast+

lemma sched_invI:
  assumes "\<And>c p. pt_cpu s c = Some p \<Longrightarrow> c < NCPU \<and> p < NPROC \<and> p_state (pt_proc s p) = RUNNING"
    "\<And>c d p. pt_cpu s c = Some p \<Longrightarrow> pt_cpu s d = Some p \<Longrightarrow> c = d"
    "\<And>p. p < NPROC \<Longrightarrow> p_state (pt_proc s p) = RUNNING \<Longrightarrow> \<exists>c. pt_cpu s c = Some p"
    "\<And>p. p < NPROC \<Longrightarrow> p_state (pt_proc s p) = SLEEPING \<Longrightarrow> p_chan (pt_proc s p) \<noteq> None"
  shows "sched_inv s"
  using assms unfolding sched_inv_def by blast

lemma inv_enter:
  assumes inv: "sched_inv s" and a: "c < NCPU" "pt_cpu s c = None" "p < NPROC" "p_state (pt_proc s p) \<noteq> RUNNING" "p_state x = RUNNING"
  shows "sched_inv (s\<lparr>pt_proc := (pt_proc s)(p := x), pt_cpu := (pt_cpu s)(c := Some p)\<rparr>)"
proof -
  note D = sched_invD [OF inv]
  have no: "pt_cpu s d \<noteq> Some p" for d using D(3) [of d p] a(4) by auto
  show ?thesis
  proof (rule sched_invI, goal_cases)
    case (1 d q)
    then show ?case using a no D(1-3) [of d q] by (auto split: if_splits)
  next
    case (2 d e q)
    then show ?case using no D(4) [of d q e] by (auto split: if_splits)
  next
    case (3 q)
    then show ?case using D(5) [of q] a(2) by (cases "q = p") (auto, metis option.distinct(1))
  next
    case (4 q)
    then show ?case using a D(6) [of q] by (auto split: if_splits)
  qed
qed

lemma inv_leave:
  assumes inv: "sched_inv s" and a: "pt_cpu s c = Some p" "p_state x \<noteq> RUNNING" "p_state x = SLEEPING \<longrightarrow> p_chan x \<noteq> None"
  shows "sched_inv (s\<lparr>pt_proc := (pt_proc s)(p := x), pt_cpu := (pt_cpu s)(c := None)\<rparr>)"
proof -
  note D = sched_invD [OF inv]
  have only: "d = c" if "pt_cpu s d = Some p" for d using D(4) [OF that a(1)] .
  show ?thesis
  proof (rule sched_invI, goal_cases)
    case (1 d q)
    then show ?case using only D(1-3) [of d q] by (auto split: if_splits)
  next
    case (2 d e q)
    then show ?case using D(4) [of d q e] by (auto split: if_splits)
  next
    case (3 q)
    then have "q \<noteq> p" "q < NPROC" "p_state (pt_proc s q) = RUNNING" using a(2) by (auto split: if_splits)
    with D(5) obtain d where "pt_cpu s d = Some q" by blast
    then show ?case using a(1) \<open>q \<noteq> p\<close> by (intro exI [of _ d]) auto
  next
    case (4 q)
    then show ?case using a D(6) [of q] by (auto split: if_splits)
  qed
qed

lemma inv_change:
  assumes inv: "sched_inv s" and a: "p_state x = RUNNING \<longleftrightarrow> p_state (pt_proc s p) = RUNNING"
    "p_state x = SLEEPING \<longrightarrow> p_chan x \<noteq> None"
  shows "sched_inv (s\<lparr>pt_proc := (pt_proc s)(p := x)\<rparr>)"
proof -
  note D = sched_invD [OF inv]
  show ?thesis
  proof (rule sched_invI, goal_cases)
    case (1 d q)
    then show ?case using a(1) D(1-3) [of d q] by auto
  next
    case (2 d e q)
    then show ?case using D(4) [of d q e] by simp
  next
    case (3 q)
    then show ?case using a(1) D(5) [of q] by (auto split: if_splits)
  next
    case (4 q)
    then show ?case using a D(6) [of q] by (auto split: if_splits)
  qed
qed

lemma pstep_inv:
  assumes "pstep s t" "sched_inv s"
  shows "sched_inv t"
  using assms
proof (induction rule: pstep.induct)
  case (dispatch c s p b t)
  then show ?case by (auto simp: scheduler_round_def km_defs intro!: inv_enter split: if_splits)
next
  case (yield_step c s p t)
  then show ?case by (auto simp: yield_def sched_def km_defs intro!: inv_leave)
next
  case (sleep_step c s p ch t)
  then show ?case by (auto simp: sleep_def sched_def km_defs intro!: inv_leave)
next
  case (resume_step c s p t)
  then have "p_state (pt_proc s p) = RUNNING" by (simp add: sched_inv_def)
  then show ?case using resume_step by (auto simp: sleep_resume_def km_defs intro!: inv_change)
next
  case (exit_step c s p status t)
  then show ?case by (auto simp: exit_sched_def sched_def km_defs intro!: inv_leave)
next
  case (reparent_step c s p t)
  then show ?case using wpD [OF reparent_awakes] awakes_inv by blast
next
  case (wakeup_step c s ch t)
  then show ?case using wakeup_awakes awakes_inv by blast
next
  case (kill_step pid s r t)
  then show ?case using kill_awakes awakes_inv unfolding kill_def by blast
next
  case (claim_step p s t)
  then have "p_state (pt_proc s p) = UNUSED"
    by (auto simp: find_unused_def mget_def find_Some_iff)
  moreover have "sched_inv (s\<lparr>pt_nextpid := n\<rparr>)" for n using claim_step by (simp add: sched_inv_def)
  ultimately show ?case
    using claim_step inv_change [of "s\<lparr>pt_nextpid := pt_nextpid s + 1\<rparr>"]
    by (auto simp: claim_proc_def allocpid_def km_defs)
next
  case (runnable_step p s t)
  then show ?case by (auto simp: make_runnable_def km_defs intro!: inv_change)
next
  case (clear_step p s t)
  then show ?case by (auto simp: clear_proc_def km_defs intro!: inv_change)
qed

lemma preach_inv: "preach s t \<Longrightarrow> sched_inv s \<Longrightarrow> sched_inv t"
  by (induction rule: preach.induct) (auto intro: pstep_inv)

section \<open>Properties\<close>

lemma procinit_inv:
  assumes "\<And>c. pt_cpu s c = None" "procinit s = Ok ((), t)"
  shows "sched_inv t"
proof -
  have "procinit s = Ok ((), s\<lparr>pt_proc := (\<lambda>p. if p \<in> set [0..<NPROC] then (pt_proc s p)\<lparr>p_state := UNUSED, p_kstack := KSTACK p\<rparr>
      else pt_proc s p)\<rparr>)"
    unfolding procinit_def by (rule mfor_pset) (simp_all add: pset_def mmod_def)
  with assms(2) have "t = s\<lparr>pt_proc := (\<lambda>p. if p \<in> set [0..<NPROC] then (pt_proc s p)\<lparr>p_state := UNUSED, p_kstack := KSTACK p\<rparr>
      else pt_proc s p)\<rparr>" by simp
  then show ?thesis using assms(1) by (auto intro!: sched_invI)
qed

text \<open>
  C11. Scheduling invariant. After \<open>procinit\<close> and any interleaving of dispatches, yields, sleeps, wakeups,
  kills, exits, reparentings and allocations on all CPUs: the process a CPU runs is RUNNING, no process
  runs on two CPUs, every RUNNING process is on some CPU, and every SLEEPING process has a channel.
\<close>

theorem scheduling_invariant:
  assumes "\<forall>c. pt_cpu s0 c = None" "procinit s0 = Ok ((), s)" "preach s t"
  shows "(\<forall>c p. pt_cpu t c = Some p \<longrightarrow> p_state (pt_proc t p) = RUNNING)
    \<and> (\<forall>c d p. pt_cpu t c = Some p \<longrightarrow> pt_cpu t d = Some p \<longrightarrow> c = d)
    \<and> (\<forall>p<NPROC. p_state (pt_proc t p) = RUNNING \<longrightarrow> (\<exists>c<NCPU. pt_cpu t c = Some p))
    \<and> (\<forall>p<NPROC. p_state (pt_proc t p) = SLEEPING \<longrightarrow> p_chan (pt_proc t p) \<noteq> None)"
proof -
  have "sched_inv t" using preach_inv [OF assms(3) procinit_inv [OF _ assms(2)]] assms(1) by simp
  note D = sched_invD [OF this]
  show ?thesis using D by blast
qed

definition example_proc :: proc where
  "example_proc = \<lparr>p_state = ZOMBIE, p_chan = None, p_killed = False, p_xstate = 0, p_pid = 0, p_parent = None,
     p_kstack = 0, p_sz = 0, p_pagetable = 0, p_trapframe = 0,
     p_context = \<lparr>ctx_ra = 0, ctx_sp = 0, ctx_s = \<lambda>_. 0\<rparr>, p_ofile = \<lambda>_. 0, p_cwd = 0, p_name = \<lambda>_. 0\<rparr>"

definition example_ptable :: ptable where
  "example_ptable = \<lparr>pt_proc = \<lambda>_. example_proc, pt_cpu = \<lambda>_. None, pt_initproc = None, pt_nextpid = 1\<rparr>"

theorem scheduling_invariant_witness:
  "\<exists>s t. procinit example_ptable = Ok ((), s) \<and> preach s t \<and> pt_cpu t 3 = Some 0
     \<and> p_state (pt_proc t 0) = RUNNING \<and> p_pid (pt_proc t 0) = 1"
proof -
  define s where "s = example_ptable\<lparr>pt_proc := (\<lambda>p. if p \<in> set [0..<NPROC]
    then example_proc\<lparr>p_state := UNUSED, p_kstack := KSTACK p\<rparr> else example_proc)\<rparr>"
  have init: "procinit example_ptable = Ok ((), s)"
    unfolding procinit_def s_def
    by (subst mfor_pset [where g = "\<lambda>p x. x\<lparr>p_state := UNUSED, p_kstack := KSTACK p\<rparr>"])
      (auto simp: pset_def mmod_def example_ptable_def)
  have unused: "p_state (pt_proc s p) = UNUSED" if "p < NPROC" for p using that by (simp add: s_def)
  define x where "x = (pt_proc s 0)\<lparr>p_pid := 1, p_state := USED\<rparr>"
  define a where "a = s\<lparr>pt_nextpid := 2, pt_proc := (pt_proc s)(0 := x)\<rparr>"
  define b where "b = a\<lparr>pt_proc := (pt_proc a)(0 := x\<lparr>p_state := RUNNABLE\<rparr>)\<rparr>"
  define t where "t = b\<lparr>pt_proc := (pt_proc b)(0 := x\<lparr>p_state := RUNNING\<rparr>), pt_cpu := (pt_cpu b)(3 := Some 0)\<rparr>"
  have "[0..<NPROC] = 0 # [1..<NPROC]" by (simp add: NPROC_def upt_conv_Cons)
  then have "find_unused s = Ok (Some 0, s)" using unused [of 0] by (simp add: find_unused_def mget_def NPROC_def)
  moreover have "claim_proc 0 s = Ok ((), a)"
    by (simp add: claim_proc_def allocpid_def km_defs a_def x_def s_def example_ptable_def)
  ultimately have "pstep s a" by (intro claim_step [of 0]) (simp_all add: NPROC_def)
  moreover have "pstep a b"
    by (rule runnable_step [of 0]) (simp_all add: NPROC_def a_def b_def x_def make_runnable_def km_defs)
  moreover have "pstep b t"
    by (rule dispatch [of 3 b 0 True])
      (simp_all add: NCPU_def NPROC_def t_def b_def a_def s_def example_ptable_def scheduler_round_def km_defs)
  ultimately have r: "preach s t" by (blast intro: preach_refl preach_step)
  have on: "pt_cpu t 3 = Some 0" by (simp add: t_def)
  moreover have "p_state (pt_proc t 0) = RUNNING"
    using scheduling_invariant [OF _ init r] on by (simp add: example_ptable_def)
  moreover have "p_pid (pt_proc t 0) = 1" by (simp add: t_def x_def)
  ultimately show ?thesis using init r by blast
qed

text \<open>
  C12. \<open>wakeup\<close> makes exactly the processes RUNNABLE that sleep on the channel, except the caller, and
  changes nothing else; \<open>kill\<close> marks the first process with the pid as killed and makes it RUNNABLE if it
  was sleeping, returning 0, and returns -1 without a change if no process has the pid.
\<close>

theorem wakeup_kill_correct:
  "wakeup me ch s = Ok ((), s\<lparr>pt_proc := (\<lambda>p. if p < NPROC \<and> Some p \<noteq> me \<and> p_state (pt_proc s p) = SLEEPING
      \<and> p_chan (pt_proc s p) = Some ch then (pt_proc s p)\<lparr>p_state := RUNNABLE\<rparr> else pt_proc s p)\<rparr>)
   \<and> kill pid s = (case List.find (\<lambda>p. p_pid (pt_proc s p) = pid) [0..<NPROC] of
       None \<Rightarrow> Ok (- 1, s)
     | Some p \<Rightarrow> Ok (0, s\<lparr>pt_proc := (pt_proc s)(p := (pt_proc s p)\<lparr>p_killed := True,
         p_state := (if p_state (pt_proc s p) = SLEEPING then RUNNABLE else p_state (pt_proc s p))\<rparr>)\<rparr>))"
proof -
  have "kill_loop pid ps s = (case List.find (\<lambda>p. p_pid (pt_proc s p) = pid) ps of
       None \<Rightarrow> Ok (- 1, s)
     | Some p \<Rightarrow> Ok (0, s\<lparr>pt_proc := (pt_proc s)(p := (pt_proc s p)\<lparr>p_killed := True,
         p_state := (if p_state (pt_proc s p) = SLEEPING then RUNNABLE else p_state (pt_proc s p))\<rparr>)\<rparr>))" for ps
    by (induction ps) (auto simp: km_defs)
  then show ?thesis by (simp add: kill_def wakeup_eq)
qed

end
