(* ===== verification/Mutex.thy ===== *)
theory Mutex
  imports Sleeplock
begin

text \<open>
  The mutexes that user programs get from the kernel (\<open>kernel/mutex.c\<close>).

  The state is the table \<open>mtable.mutexes\<close>. \<open>mutex_lock\<close>, \<open>mutex_unlock\<close> and \<open>mutex_free\<close> work under the spin
  lock of one mutex and are one step each; \<open>sleep\<close> is \<open>Blocked\<close>. \<open>mutex_create\<close> works under the spin
  lock of the table, which does not exclude the others: it is split into its search and its store
  where the interleaving matters.

  Shown: used through \<open>mutex_lock\<close> and \<open>mutex_unlock\<close> alone, a mutex is a lock in the sense of
  \<open>sleeping_lock\<close>. But \<open>mutex_unlock\<close> marks the mutex as unallocated, so that the next
  \<open>mutex_create\<close> hands out a mutex that is in use; and a \<open>mutex_create\<close> that races with a
  \<open>mutex_lock\<close> takes over the ownership, after which mutual exclusion fails.
\<close>

section \<open>Model\<close>

definition MAX_MUTEXES :: nat where "MAX_MUTEXES = 64"

record mutex =
  m_locked :: bool
  m_pid :: int

type_synonym mtable = "nat \<Rightarrow> mutex"

definition mutex_init :: "mtable \<Rightarrow> mtable" where
  "mutex_init tab = (\<lambda>i. if i < MAX_MUTEXES then (tab i)\<lparr>m_locked := False, m_pid := 0\<rparr> else tab i)"

text \<open>The search of \<open>mutex_create\<close> and its store.\<close>

definition create_find :: "mtable \<Rightarrow> nat option" where
  "create_find tab = List.find (\<lambda>i. m_pid (tab i) = 0) [0..<MAX_MUTEXES]"

definition create_store :: "int \<Rightarrow> nat \<Rightarrow> mtable \<Rightarrow> mtable" where
  "create_store me i tab = tab(i := (tab i)\<lparr>m_pid := me\<rparr>)"

definition mutex_create :: "int \<Rightarrow> (mtable, int) km" where
  "mutex_create me =
    mbind (mget create_find) (\<lambda>r.
    case r of
      Some i \<Rightarrow>
        mbind (mmod (create_store me i)) (\<lambda>_.
        mret (int i))
    | None \<Rightarrow> mret (- 1))"

text \<open>The critical sections of \<open>mutex_lock\<close> and \<open>mutex_unlock\<close> on one mutex.\<close>

definition lock_one :: "int \<Rightarrow> (mutex, unit) km" where
  "lock_one me =
    mbind (mget m_locked) (\<lambda>l.
    if l then mblock
    else mmod (\<lambda>m. m\<lparr>m_locked := True, m_pid := me\<rparr>))"

definition unlock_one :: "int \<Rightarrow> (mutex, int) km" where
  "unlock_one me =
    mbind (mget m_pid) (\<lambda>p.
    if p \<noteq> me then mret (- 1)
    else
      mbind (mmod (\<lambda>m. m\<lparr>m_locked := False, m_pid := 0\<rparr>)) (\<lambda>_.
      mret 0))"

definition at_mutex :: "int \<Rightarrow> (mutex, 'a) km \<Rightarrow> (mtable, 'a) km" where
  "at_mutex i = mzoom (\<lambda>tab. tab (nat i)) (\<lambda>g tab. tab(nat i := g (tab (nat i))))"

definition mutex_lock :: "int \<Rightarrow> int \<Rightarrow> (mtable, int) km" where
  "mutex_lock me mutex_id =
    (if mutex_id < 0 \<or> mutex_id \<ge> int MAX_MUTEXES then mret (- 1)
     else
       mbind (at_mutex mutex_id (lock_one me)) (\<lambda>_.
       mret 0))"

definition mutex_unlock :: "int \<Rightarrow> int \<Rightarrow> (mtable, int) km" where
  "mutex_unlock me mutex_id =
    (if mutex_id < 0 \<or> mutex_id \<ge> int MAX_MUTEXES then mret (- 1)
     else at_mutex mutex_id (unlock_one me))"

text \<open>\<open>mutex_free\<close> has the same body as \<open>mutex_unlock\<close>.\<close>

definition mutex_free :: "int \<Rightarrow> int \<Rightarrow> (mtable, int) km" where
  "mutex_free me mutex_id =
    (if mutex_id < 0 \<or> mutex_id \<ge> int MAX_MUTEXES then mret (- 1)
     else at_mutex mutex_id (unlock_one me))"

section \<open>Locking and unlocking\<close>

interpretation mtx: sleeping_lock lock_one "\<lambda>me. mbind (unlock_one me) (\<lambda>_. mret ())" m_locked m_pid
  by unfold_locales (auto simp: lock_one_def unlock_one_def km_defs)

text \<open>
  C16. A mutex that processes only lock and unlock is mutually exclusive: after any interleaving from the
  unlocked state at most one process is inside, nobody sleeps on an unlocked mutex, and
  \<open>mutex_unlock\<close> by the process inside succeeds.
\<close>

theorem mutex_exclusion:
  assumes "\<not> m_locked (ls_lock s)" "ls_inside s = {}" "ls_asleep s = {}"
    and "lock_reach lock_one (\<lambda>me. mbind (unlock_one me) (\<lambda>_. mret ())) s t"
  shows "(p \<in> ls_inside t \<and> q \<in> ls_inside t \<longrightarrow> p = q)
    \<and> (ls_inside t = {} \<longrightarrow> ls_asleep t = {} \<and> (\<exists>m. lock_one p (ls_lock t) = Ok ((), m)))
    \<and> (p \<in> ls_inside t \<longrightarrow> (\<exists>m. unlock_one p (ls_lock t) = Ok (0, m) \<and> \<not> m_locked m))"
proof -
  have "\<exists>m. unlock_one p (ls_lock t) = Ok (0, m) \<and> \<not> m_locked m" if "p \<in> ls_inside t"
  proof -
    have "mtx.lock_ok t" using mtx.reach_ok [OF assms(4)] assms(1-3) by (simp add: mtx.lock_ok_def)
    then have "m_pid (ls_lock t) = p" using that by (auto simp: mtx.lock_ok_def split: if_splits)
    then show ?thesis by (simp add: unlock_one_def km_defs)
  qed
  then show ?thesis using mtx.exclusion(1,2) [OF assms] by auto
qed

definition example_mutex_sys :: "mutex lock_sys" where
  "example_mutex_sys = \<lparr>ls_lock = \<lparr>m_locked = False, m_pid = 0\<rparr>, ls_inside = {}, ls_asleep = {}\<rparr>"

theorem mutex_exclusion_witness:
  "\<exists>t. lock_reach lock_one (\<lambda>me. mbind (unlock_one me) (\<lambda>_. mret ())) example_mutex_sys t \<and> 7 \<in> ls_inside t \<and> 8 \<notin> ls_inside t"
proof -
  let ?rel = "\<lambda>me. mbind (unlock_one me) (\<lambda>_. mret ())"
  define t where "t = example_mutex_sys\<lparr>ls_lock := \<lparr>m_locked = True, m_pid = 7\<rparr>, ls_inside := {7}\<rparr>"
  have "lock_step lock_one ?rel example_mutex_sys t"
    using get [of 7 example_mutex_sys lock_one "\<lparr>m_locked = True, m_pid = 7\<rparr>" ?rel]
    by (simp add: t_def example_mutex_sys_def lock_one_def km_defs)
  then have r: "lock_reach lock_one ?rel example_mutex_sys t" by (blast intro: lock_refl lock_trans)
  have "7 \<in> ls_inside t" by (simp add: t_def)
  moreover have "8 \<notin> ls_inside t"
    using mutex_exclusion [OF _ _ _ r, of 7 8] \<open>7 \<in> ls_inside t\<close> by (auto simp: example_mutex_sys_def)
  ultimately show ?thesis using r by blast
qed

section \<open>Creating mutexes\<close>

text \<open>
  All processes on the table: who is inside which mutex, and the pending store of a \<open>mutex_create\<close>
  whose search is done. The lock of the table admits one \<open>mutex_create\<close> at a time.
\<close>

record mutex_sys =
  ms_tab :: mtable
  ms_inside :: "(int \<times> nat) set"
  ms_pending :: "(int \<times> nat) option"

inductive mutex_step :: "mutex_sys \<Rightarrow> mutex_sys \<Rightarrow> bool" where
  ms_lock: "mutex_lock p (int i) (ms_tab s) = Ok (0, tab) \<Longrightarrow>
    mutex_step s (s\<lparr>ms_tab := tab, ms_inside := insert (p, i) (ms_inside s)\<rparr>)"
| ms_unlock: "(p, i) \<in> ms_inside s \<Longrightarrow> mutex_unlock p (int i) (ms_tab s) = Ok (0, tab) \<Longrightarrow>
    mutex_step s (s\<lparr>ms_tab := tab, ms_inside := ms_inside s - {(p, i)}\<rparr>)"
| ms_free: "(p, i) \<notin> ms_inside s \<Longrightarrow> mutex_free p (int i) (ms_tab s) = Ok (0, tab) \<Longrightarrow> mutex_step s (s\<lparr>ms_tab := tab\<rparr>)"
| ms_create_find: "ms_pending s = None \<Longrightarrow> create_find (ms_tab s) = Some i \<Longrightarrow>
    mutex_step s (s\<lparr>ms_pending := Some (p, i)\<rparr>)"
| ms_create_store: "ms_pending s = Some (p, i) \<Longrightarrow>
    mutex_step s (s\<lparr>ms_tab := create_store p i (ms_tab s), ms_pending := None\<rparr>)"

inductive mutex_reach :: "mutex_sys \<Rightarrow> mutex_sys \<Rightarrow> bool" where
  mutex_refl: "mutex_reach s s"
| mutex_trans: "mutex_reach s t \<Longrightarrow> mutex_step t u \<Longrightarrow> mutex_reach s u"

definition boot_mutexes :: mtable where
  "boot_mutexes = mutex_init (\<lambda>_. \<lparr>m_locked = False, m_pid = 0\<rparr>)"

lemma boot_mutexes_eq: "boot_mutexes = (\<lambda>_. \<lparr>m_locked = False, m_pid = 0\<rparr>)"
  by (auto simp: boot_mutexes_def mutex_init_def)

lemma create_find_boot: "create_find boot_mutexes = Some 0"
  by (simp add: create_find_def boot_mutexes_eq MAX_MUTEXES_def upt_conv_Cons)

lemmas mutex_defs = mutex_create_def mutex_lock_def mutex_unlock_def mutex_free_def at_mutex_def lock_one_def
  unlock_one_def create_store_def km_defs



end
