(* ===== verification/Ring.thy ===== *)
theory Ring
  imports Kernel_Prelude
begin

text \<open>
  Ring buffers with free-running indices, as the pipe, the console input and the UART transmit buffer
  use them: the indices are machine words that only grow (and wrap around), the slot of index \<open>i\<close> is
  \<open>i mod N\<close>, and the buffer holds the bytes from the read index to the write index.

  The contract a client relies on is the locale \<open>ring_buffer\<close>; its lemma \<open>fifo\<close> says that the bytes taken
  out so far, followed by the contents, are the bytes put in. The size of the buffer divides the
  range of the indices, which makes the wrap-around of the indices invisible.
\<close>

definition ring_contents :: "(nat \<Rightarrow> 'b) \<Rightarrow> nat \<Rightarrow> 'a::len word \<Rightarrow> 'a word \<Rightarrow> 'b list" where
  "ring_contents buf N r w = map (\<lambda>i. buf (unat (r + of_nat i) mod N)) [0..<unat (w - r)]"

lemma length_ring_contents [simp]: "length (ring_contents buf N r w) = unat (w - r)"
  by (simp add: ring_contents_def)

lemma ring_index:
  fixes r :: "'a::len word"
  assumes "N dvd 2 ^ LENGTH('a)"
  shows "unat (r + of_nat i) mod N = (unat r + i) mod N"
proof -
  have "unat (r + of_nat i) = (unat r + i) mod 2 ^ LENGTH('a)"
    by (simp add: unat_word_ariths unat_of_nat mod_add_right_eq)
  then show ?thesis using assms by (simp add: mod_mod_cancel)
qed

lemma ring_push:
  fixes r w :: "'a::len word"
  assumes N: "N dvd 2 ^ LENGTH('a)" and room: "unat (w - r) < N" and wide: "N < 2 ^ LENGTH('a)"
  shows "ring_contents (buf(unat w mod N := c)) N r (w + 1) = ring_contents buf N r w @ [c]"
    and "unat (w + 1 - r) = Suc (unat (w - r))"
proof -
  let ?n = "unat (w - r)"
  have w: "w = r + of_nat ?n" by simp
  have "unat (w - r + 1) = ?n + 1"
    using room wide unat_of_nat [of "Suc ?n", where ?'a = 'a] by (simp add: add.commute)
  then show len: "unat (w + 1 - r) = Suc ?n" by (simp add: algebra_simps)
  have slot: "unat w mod N = (unat r + ?n) mod N" using ring_index [OF N, of r ?n] by simp
  have "(unat r + i) mod N \<noteq> unat w mod N" if "i < ?n" for i
  proof
    assume "(unat r + i) mod N = unat w mod N"
    then have "(unat r + i) mod N = (unat r + ?n) mod N" by (simp add: slot)
    then have "N dvd (unat r + ?n) - (unat r + i)"
      using that by (metis add_le_cancel_left less_imp_le mod_eq_dvd_iff_nat)
    then have "N dvd ?n - i" by simp
    then show False using that room by (simp add: dvd_imp_le leD nat_dvd_not_less)
  qed
  then show "ring_contents (buf(unat w mod N := c)) N r (w + 1) = ring_contents buf N r w @ [c]"
    by (simp add: ring_contents_def len ring_index [OF N] slot)
qed

lemma ring_pop:
  fixes r w :: "'a::len word"
  assumes "0 < unat (w - r)"
  shows "ring_contents buf N r w = buf (unat r mod N) # ring_contents buf N (r + 1) w"
    and "unat (w - (r + 1)) = unat (w - r) - 1"
proof -
  have "1 \<le> w - r" using assms by (simp add: word_le_nat_alt unat_gt_0 Suc_leI)
  then have "unat (w - r - 1) = unat (w - r) - unat (1 :: 'a word)" by (rule unat_sub)
  then show len: "unat (w - (r + 1)) = unat (w - r) - 1" by (simp add: algebra_simps)
  have "[0..<unat (w - r)] = 0 # map Suc [0..<unat (w - r) - 1]"
    using assms by (simp add: map_Suc_upt upt_conv_Cons)
  then show "ring_contents buf N r w = buf (unat r mod N) # ring_contents buf N (r + 1) w"
    unfolding ring_contents_def len by (simp add: add.assoc)
qed

text \<open>
  How a run of a function that can sleep under a lock ends: it returns a value, or it goes to sleep
  with some bytes done.
\<close>

datatype outcome = Return int | Asleep int

section \<open>The contract\<close>

datatype ring_op = Put u8 | Get

locale ring_buffer =
  fixes inv :: "'s \<Rightarrow> bool"
    and cap :: nat
    and contents :: "'s \<Rightarrow> u8 list"
    and full :: "'s \<Rightarrow> bool"
    and vacant :: "'s \<Rightarrow> bool"
    and put :: "u8 \<Rightarrow> 's \<Rightarrow> 's"
    and get :: "'s \<Rightarrow> u8 \<times> 's"
  assumes bounded: "inv s \<Longrightarrow> length (contents s) \<le> cap"
    and full_iff: "inv s \<Longrightarrow> full s \<longleftrightarrow> length (contents s) = cap"
    and vacant_iff: "inv s \<Longrightarrow> vacant s \<longleftrightarrow> contents s = []"
    and put_law: "inv s \<Longrightarrow> \<not> full s \<Longrightarrow> inv (put c s) \<and> contents (put c s) = contents s @ [c]"
    and get_law: "inv s \<Longrightarrow> \<not> vacant s \<Longrightarrow> inv (snd (get s)) \<and> contents s = fst (get s) # contents (snd (get s))"
begin

text \<open>A history: operations that would overflow or underflow are refused; the bytes accepted and returned.\<close>

fun history :: "ring_op list \<Rightarrow> 's \<Rightarrow> u8 list \<times> u8 list \<times> 's" where
  "history [] s = ([], [], s)"
| "history (Put c # ops) s =
    (if full s then history ops s
     else let (i, out, t) = history ops (put c s) in (c # i, out, t))"
| "history (Get # ops) s =
    (if vacant s then history ops s
     else let (i, out, t) = history ops (snd (get s)) in (i, fst (get s) # out, t))"

lemma fifo:
  assumes "inv s" "history ops s = (i, out, t)"
  shows "inv t \<and> contents s @ i = out @ contents t"
  using assms
proof (induction ops s arbitrary: i out t rule: history.induct)
  case (1 s)
  then show ?case by simp
next
  case (2 c ops s)
  show ?case
  proof (cases "full s")
    case False
    obtain i' out' t' where h: "history ops (put c s) = (i', out', t')" by (cases "history ops (put c s)")
    from 2(2) [OF False _ h] put_law [OF 2(3) False, of c] have "inv t' \<and> contents (put c s) @ i' = out' @ contents t'" by simp
    then show ?thesis using 2(4) False h put_law [OF 2(3) False, of c] by auto
  qed (use 2 in auto)
next
  case (3 ops s)
  show ?case
  proof (cases "vacant s")
    case False
    obtain i' out' t' where h: "history ops (snd (get s)) = (i', out', t')" by (cases "history ops (snd (get s))")
    from 3(2) [OF False _ h] get_law [OF 3(3) False] have "inv t' \<and> contents (snd (get s)) @ i' = out' @ contents t'" by simp
    then show ?thesis using 3(4) False h get_law [OF 3(3) False] by auto
  qed (use 3 in auto)
qed

lemma put_length: "inv s \<Longrightarrow> \<not> full s \<Longrightarrow> length (contents s) < cap"
  using bounded [of s] full_iff [of s] by linarith

end

end
