(* ===== verification/Pipe.thy ===== *)
theory Pipe
  imports Ring Usercopy
begin

text \<open>
  Pipes (\<open>kernel/pipe.c\<close>): reading and writing. Creating and closing pipes also involves the file table
  and is in \<open>File\<close>.

  The state is one \<open>struct pipe\<close> next to the memory that \<open>copyin\<close> and \<open>copyout\<close> work on. Both functions
  hold \<open>pi->lock\<close> from one \<open>sleep\<close> to the next, so a run up to a \<open>sleep\<close> or a return is one step. A run
  that goes to sleep gives \<open>Asleep i\<close>: \<open>i\<close> bytes are done, and the function continues from there
  when it is woken, testing all conditions again.

  Shown: a pipe is a ring buffer of \<open>PIPESIZE\<close> bytes; a run of \<open>pipewrite\<close> appends a segment of the
  user's bytes to the contents, and stops early only when the pipe is full, the reader is gone, the
  process is killed or the user address is bad; a run of \<open>piperead\<close> removes a prefix of the contents.
\<close>

section \<open>Model\<close>

definition PIPESIZE :: nat where "PIPESIZE = 512"

record pipe =
  pi_data :: block
  pi_nread :: u32
  pi_nwrite :: u32
  pi_readopen :: bool
  pi_writeopen :: bool

record pipe_st =
  ps_pipe :: pipe
  ps_mem :: kmem

definition pipe_put :: "u8 \<Rightarrow> pipe \<Rightarrow> pipe" where
  "pipe_put ch pi = pi\<lparr>pi_data := (pi_data pi)(unat (pi_nwrite pi) mod PIPESIZE := ch), pi_nwrite := pi_nwrite pi + 1\<rparr>"

definition pipe_get :: "pipe \<Rightarrow> u8 \<times> pipe" where
  "pipe_get pi = (pi_data pi (unat (pi_nread pi) mod PIPESIZE), pi\<lparr>pi_nread := pi_nread pi + 1\<rparr>)"

definition pipe_full :: "pipe \<Rightarrow> bool" where
  "pipe_full pi \<longleftrightarrow> pi_nwrite pi = pi_nread pi + of_nat PIPESIZE"

definition pipe_vacant :: "pipe \<Rightarrow> bool" where
  "pipe_vacant pi \<longleftrightarrow> pi_nread pi = pi_nwrite pi"

text \<open>
  The loop of \<open>pipewrite\<close> from \<open>i\<close> on, for \<open>k\<close> more bytes at most (\<open>k = n - i\<close>). \<open>kld\<close> is \<open>killed(pr)\<close>
  and \<open>pt\<close> is \<open>pr->pagetable\<close>.
\<close>

fun pipewrite_loop :: "nat \<Rightarrow> bool \<Rightarrow> u64 \<Rightarrow> u64 \<Rightarrow> int \<Rightarrow> (pipe_st, outcome) km" where
  "pipewrite_loop 0 kld pt addr i = mret (Return i)"
| "pipewrite_loop (Suc k) kld pt addr i =
    mbind (mget ps_pipe) (\<lambda>pi.
    if \<not> pi_readopen pi \<or> kld then mret (Return (- 1))
    else if pipe_full pi then mret (Asleep i)
    else
      mbind (mzoom ps_mem ps_mem_update (copyin pt (addr + of_int i) 1)) (\<lambda>(r, bs).
      if r = - 1 then mret (Return i)
      else
        mbind (mmod (\<lambda>s. s\<lparr>ps_pipe := pipe_put (hd bs) (ps_pipe s)\<rparr>)) (\<lambda>_.
        pipewrite_loop k kld pt addr (i + 1))))"

definition pipewrite :: "bool \<Rightarrow> u64 \<Rightarrow> u64 \<Rightarrow> int \<Rightarrow> int \<Rightarrow> (pipe_st, outcome) km" where
  "pipewrite kld pt addr n i = pipewrite_loop (nat (n - i)) kld pt addr i"

fun piperead_loop :: "nat \<Rightarrow> u64 \<Rightarrow> u64 \<Rightarrow> int \<Rightarrow> (pipe_st, outcome) km" where
  "piperead_loop 0 pt addr i = mret (Return i)"
| "piperead_loop (Suc k) pt addr i =
    mbind (mget ps_pipe) (\<lambda>pi.
    if pipe_vacant pi then mret (Return i)
    else
      let (ch, pi') = pipe_get pi in
      mbind (mmod (ps_pipe_update (\<lambda>_. pi'))) (\<lambda>_.
      mbind (mzoom ps_mem ps_mem_update (copyout pt (addr + of_int i) [ch])) (\<lambda>r.
      if r = - 1 then mret (Return i)
      else piperead_loop k pt addr (i + 1))))"

definition piperead :: "bool \<Rightarrow> u64 \<Rightarrow> u64 \<Rightarrow> int \<Rightarrow> (pipe_st, outcome) km" where
  "piperead kld pt addr n =
    mbind (mget ps_pipe) (\<lambda>pi.
    if pipe_vacant pi \<and> pi_writeopen pi then
      if kld then mret (Return (- 1)) else mret (Asleep 0)
    else piperead_loop (nat n) pt addr 0)"

section \<open>The pipe as a ring buffer\<close>

definition pipe_contents :: "pipe \<Rightarrow> u8 list" where
  "pipe_contents pi = ring_contents (pi_data pi) PIPESIZE (pi_nread pi) (pi_nwrite pi)"

definition pipe_inv :: "pipe \<Rightarrow> bool" where
  "pipe_inv pi \<longleftrightarrow> length (pipe_contents pi) \<le> PIPESIZE"

lemma pipe_full_len: "pipe_full pi \<longleftrightarrow> length (pipe_contents pi) = PIPESIZE"
proof -
  have "pipe_full pi \<longleftrightarrow> pi_nwrite pi - pi_nread pi = 512"
    by (auto simp: pipe_full_def PIPESIZE_def diff_eq_eq add.commute)
  then show ?thesis by (simp add: pipe_contents_def PIPESIZE_def word_unat_eq_iff)
qed

lemma pipe_vacant_len: "pipe_vacant pi \<longleftrightarrow> pipe_contents pi = []"
  by (auto simp: pipe_vacant_def pipe_contents_def ring_contents_def unat_eq_zero)

interpretation pipe_ring: ring_buffer pipe_inv PIPESIZE pipe_contents pipe_full pipe_vacant pipe_put pipe_get
proof
  fix s c
  show "pipe_inv s \<Longrightarrow> length (pipe_contents s) \<le> PIPESIZE" by (simp add: pipe_inv_def)
  show "pipe_full s \<longleftrightarrow> length (pipe_contents s) = PIPESIZE" by (rule pipe_full_len)
  show "pipe_vacant s \<longleftrightarrow> pipe_contents s = []" by (rule pipe_vacant_len)
  show "pipe_inv (pipe_put c s) \<and> pipe_contents (pipe_put c s) = pipe_contents s @ [c]" if "pipe_inv s" "\<not> pipe_full s"
  proof -
    have "unat (pi_nwrite s - pi_nread s) < PIPESIZE"
      using that by (auto simp: pipe_inv_def pipe_full_len) (simp add: pipe_contents_def)
    from ring_push(1) [OF _ this, of "pi_data s" c] ring_push(2) [OF _ this] this that show ?thesis
      by (simp add: pipe_inv_def pipe_contents_def pipe_put_def PIPESIZE_def)
  qed
  show "pipe_inv (snd (pipe_get s)) \<and> pipe_contents s = fst (pipe_get s) # pipe_contents (snd (pipe_get s))"
    if "pipe_inv s" "\<not> pipe_vacant s"
  proof -
    have "0 < unat (pi_nwrite s - pi_nread s)"
      using that by (simp add: pipe_vacant_def unat_gt_0)
    from ring_pop(1) [OF this, of "pi_data s" PIPESIZE] ring_pop(2) [OF this] that show ?thesis
      by (auto simp: pipe_inv_def pipe_contents_def pipe_get_def)
  qed
qed

section \<open>Runs of pipewrite and piperead\<close>

lemma uload_Suc: "uload f va (Suc n) m = m (f va) # uload f (va + 1) n m"
  using uload_append [of f va 1 n m] by (simp add: uload_def)

lemma pipe_put_fields [simp]: "pi_readopen (pipe_put c pi) = pi_readopen pi" "pi_writeopen (pipe_put c pi) = pi_writeopen pi"
  by (simp_all add: pipe_put_def)

lemma pipewrite_loop_spec:
  assumes "user_mem (ps_mem s) pt" "pipe_inv (ps_pipe s)"
  shows "\<exists>m out pi. m \<le> k \<and> pipewrite_loop k kld pt addr i s = Ok (out, s\<lparr>ps_pipe := pi\<rparr>) \<and> pipe_inv pi
     \<and> pipe_contents pi = pipe_contents (ps_pipe s)
         @ uload (paddr (ps_mem s) pt) (addr + of_int i) m (pm (ps_mem s))
     \<and> pi_readopen pi = pi_readopen (ps_pipe s)
     \<and> (case out of
          Asleep j \<Rightarrow> j = i + int m \<and> m < k \<and> pipe_full pi
        | Return r \<Rightarrow> r = i + int m \<and> (m < k \<longrightarrow> \<not> user_ok 0 (ps_mem s) pt (addr + of_int (i + int m)))
            \<or> r = - 1 \<and> m = 0 \<and> (\<not> pi_readopen pi \<or> kld))"
  using assms
proof (induction k arbitrary: s i)
  case 0
  then show ?case by (intro exI [of _ 0] exI [of _ "Return i"] exI [of _ "ps_pipe s"]) (simp add: mret_def uload_def)
next
  case (Suc k)
  let ?pi = "ps_pipe s" and ?va = "addr + of_int i"
  note ci = copyin_one [OF Suc.prems(1), of ?va]
  show ?case
  proof (cases "\<not> pi_readopen ?pi \<or> kld \<or> pipe_full ?pi \<or> \<not> user_ok 0 (ps_mem s) pt ?va")
    case True
    then show ?thesis
      using Suc.prems ci
      by (intro exI [of _ 0] exI [of _ "if \<not> pi_readopen ?pi \<or> kld then Return (- 1) else if pipe_full ?pi then Asleep i else Return i"]
          exI [of _ ?pi]) (auto simp: km_defs uload_def)
  next
    case False
    let ?c = "pm (ps_mem s) (paddr (ps_mem s) pt ?va)"
    define t where "t = s\<lparr>ps_pipe := pipe_put ?c ?pi\<rparr>"
    have tm: "ps_mem t = ps_mem s" and tp: "ps_pipe t = pipe_put ?c ?pi" and tu: "t\<lparr>ps_pipe := x\<rparr> = s\<lparr>ps_pipe := x\<rparr>" for x
      by (simp_all add: t_def)
    have put: "pipe_inv (pipe_put ?c ?pi)" "pipe_contents (pipe_put ?c ?pi) = pipe_contents ?pi @ [?c]"
      using pipe_ring.put_law [OF Suc.prems(2)] False by auto
    have run: "pipewrite_loop (Suc k) kld pt addr i s = pipewrite_loop k kld pt addr (i + 1) t"
      using False ci by (simp add: km_defs t_def)
    note IH = Suc.IH [of t "i + 1", unfolded tm tp tu, OF Suc.prems(1) put(1), unfolded put(2) pipe_put_fields]
    from IH obtain m out pi where m: "m \<le> k"
        "pipewrite_loop k kld pt addr (i + 1) t = Ok (out, s\<lparr>ps_pipe := pi\<rparr>)" "pipe_inv pi"
        "pipe_contents pi = (pipe_contents ?pi @ [?c]) @ uload (paddr (ps_mem s) pt) (addr + of_int (i + 1)) m (pm (ps_mem s))"
        "pi_readopen pi = pi_readopen ?pi"
        "case out of Asleep j \<Rightarrow> j = i + 1 + int m \<and> m < k \<and> pipe_full pi
         | Return r \<Rightarrow> r = i + 1 + int m \<and> (m < k \<longrightarrow> \<not> user_ok 0 (ps_mem s) pt (addr + of_int (i + 1 + int m)))
            \<or> r = - 1 \<and> m = 0 \<and> (\<not> pi_readopen pi \<or> kld)"
      by blast
    have "case out of Asleep j \<Rightarrow> j = i + int (Suc m) \<and> Suc m < Suc k \<and> pipe_full pi
         | Return r \<Rightarrow> r = i + int (Suc m) \<and> (Suc m < Suc k \<longrightarrow> \<not> user_ok 0 (ps_mem s) pt (addr + of_int (i + int (Suc m))))
            \<or> r = - 1 \<and> Suc m = 0 \<and> (\<not> pi_readopen pi \<or> kld)"
      using m(5,6) False by (cases out) (auto simp: add.assoc)
    moreover have "pipe_contents pi = pipe_contents ?pi @ uload (paddr (ps_mem s) pt) ?va (Suc m) (pm (ps_mem s))"
      by (simp add: m(4) uload_Suc add.assoc)
    ultimately show ?thesis
      using m(1,2,3,5) run by (intro exI [of _ "Suc m"] exI [of _ out] exI [of _ pi] conjI) simp_all
  qed
qed

lemma piperead_loop_spec:
  assumes "user_mem (ps_mem s) pt" "pipe_inv (ps_pipe s)"
  shows "\<exists>bs lost pi u. piperead_loop k pt addr i s = Ok (Return (i + int (length bs)), \<lparr>ps_pipe = pi, ps_mem = u\<rparr>)
     \<and> pipe_inv pi \<and> pipe_contents (ps_pipe s) = bs @ lost @ pipe_contents pi
     \<and> (\<forall>j<length bs. user_ok PTE_W (ps_mem s) pt (addr + of_int (i + int j)))
     \<and> u = (ps_mem s)\<lparr>pm := ustore (paddr (ps_mem s) pt) (addr + of_int i) bs (pm (ps_mem s))\<rparr>
     \<and> (if lost = [] then length bs = min k (length (pipe_contents (ps_pipe s)))
        else length lost = 1 \<and> \<not> user_ok PTE_W (ps_mem s) pt (addr + of_int (i + int (length bs))))"
  using assms
proof (induction k arbitrary: s i)
  case 0
  then show ?case
    by (intro exI [of _ "[]"] exI [of _ "ps_pipe s"] exI [of _ "ps_mem s"]) (simp add: mret_def)
next
  case (Suc k)
  let ?pi = "ps_pipe s" and ?va = "addr + of_int i"
  show ?case
  proof (cases "pipe_vacant ?pi")
    case True
    then show ?thesis using Suc.prems
      by (intro exI [of _ "[]"] exI [of _ ?pi] exI [of _ "ps_mem s"]) (simp add: km_defs pipe_vacant_len)
  next
    case False
    obtain c pi1 where g: "pipe_get ?pi = (c, pi1)" by (cases "pipe_get ?pi")
    with pipe_ring.get_law [OF Suc.prems(2) False] have get: "pipe_inv pi1" "pipe_contents ?pi = c # pipe_contents pi1" by auto
    note co = copyout_one [OF Suc.prems(1), of ?va c]
    show ?thesis
    proof (cases "user_ok PTE_W (ps_mem s) pt ?va")
      case no: False
      then show ?thesis using co False g get
        by (intro exI [of _ "[]"] exI [of _ "[c]"] exI [of _ pi1] exI [of _ "ps_mem s"]) (simp add: km_defs)
    next
      case True
      define u where "u = (ps_mem s)\<lparr>pm := (pm (ps_mem s))(paddr (ps_mem s) pt ?va := c)\<rparr>"
      define t where "t = \<lparr>ps_pipe = pi1, ps_mem = u\<rparr>"
      have tm: "ps_mem t = u" and tp: "ps_pipe t = pi1" by (simp_all add: t_def)
      have U: "user_mem u pt" "pte_of u pt = pte_of (ps_mem s) pt"
        using user_mem_store [OF Suc.prems(1), of "[c]" ?va u] True by (auto simp: u_def fun_upd_def)
      have run: "piperead_loop (Suc k) pt addr i s = piperead_loop k pt addr (i + 1) t"
        using False True co g by (cases s) (simp add: km_defs u_def t_def)
      note IH = Suc.IH [of t "i + 1", unfolded tm tp, OF U(1) get(1), unfolded same_table [OF U(2)]]
      from IH obtain bs lost pi v where b:
          "piperead_loop k pt addr (i + 1) t = Ok (Return (i + 1 + int (length bs)), \<lparr>ps_pipe = pi, ps_mem = v\<rparr>)"
          "pipe_inv pi" "pipe_contents pi1 = bs @ lost @ pipe_contents pi"
          "\<forall>j<length bs. user_ok PTE_W (ps_mem s) pt (addr + of_int (i + 1 + int j))"
          "v = u\<lparr>pm := ustore (paddr (ps_mem s) pt) (addr + of_int (i + 1)) bs (pm u)\<rparr>"
          "if lost = [] then length bs = min k (length (pipe_contents pi1))
           else length lost = 1 \<and> \<not> user_ok PTE_W (ps_mem s) pt (addr + of_int (i + 1 + int (length bs)))"
        by blast
      have ok: "user_ok PTE_W (ps_mem s) pt (addr + of_int (i + int j))" if "j < length (c # bs)" for j
        using b(4) True that by (cases j) (auto simp: add.assoc)
      have v: "v = (ps_mem s)\<lparr>pm := ustore (paddr (ps_mem s) pt) ?va (c # bs) (pm (ps_mem s))\<rparr>"
        by (simp add: b(5) u_def fun_upd_def add.assoc)
      have "if lost = [] then length (c # bs) = min (Suc k) (length (pipe_contents ?pi))
           else length lost = 1 \<and> \<not> user_ok PTE_W (ps_mem s) pt (addr + of_int (i + int (length (c # bs))))"
        using b(6) get(2) by (simp add: add.assoc split: if_splits)
      then show ?thesis
        using run b(1,2,3) get(2) ok v
        by (intro exI [of _ "c # bs"] exI [of _ lost] exI [of _ pi] exI [of _ v] conjI) simp_all
    qed
  qed
qed

section \<open>Properties\<close>

text \<open>
  C19. A run of \<open>pipewrite\<close> from byte \<open>i\<close> of \<open>n\<close> on valid memory always ends. It appends \<open>m\<close> bytes of the
  user's buffer, from byte \<open>i\<close> on and in order, to the contents of the pipe, which never exceed
  \<open>PIPESIZE\<close>, and changes nothing else. It ends asleep only when the pipe is full and bytes are left;
  it returns -1 only when the read side is closed or the process is killed; otherwise it returns the
  number of bytes done, which is less than \<open>n\<close> only if the next user address is not mapped.
\<close>

theorem pipewrite_correct:
  assumes "user_mem (ps_mem s) pt" "pipe_inv (ps_pipe s)" "i \<le> n"
  shows "\<exists>m out pi. int m \<le> n - i \<and> pipewrite kld pt addr n i s = Ok (out, s\<lparr>ps_pipe := pi\<rparr>)
     \<and> length (pipe_contents pi) \<le> PIPESIZE
     \<and> pipe_contents pi = pipe_contents (ps_pipe s)
         @ uload (paddr (ps_mem s) pt) (addr + of_int i) m (pm (ps_mem s))
     \<and> (case out of
          Asleep j \<Rightarrow> j = i + int m \<and> j < n \<and> length (pipe_contents pi) = PIPESIZE
        | Return r \<Rightarrow> r = i + int m \<and> (r < n \<longrightarrow> \<not> user_ok 0 (ps_mem s) pt (addr + of_int r))
            \<or> r = - 1 \<and> m = 0 \<and> (\<not> pi_readopen (ps_pipe s) \<or> kld))"
proof -
  from pipewrite_loop_spec [OF assms(1,2), of "nat (n - i)" kld addr i] obtain m out pi where m: "m \<le> nat (n - i)"
      "pipewrite_loop (nat (n - i)) kld pt addr i s = Ok (out, s\<lparr>ps_pipe := pi\<rparr>)" "pipe_inv pi"
      "pipe_contents pi = pipe_contents (ps_pipe s) @ uload (paddr (ps_mem s) pt) (addr + of_int i) m (pm (ps_mem s))"
      "pi_readopen pi = pi_readopen (ps_pipe s)"
      "case out of Asleep j \<Rightarrow> j = i + int m \<and> m < nat (n - i) \<and> pipe_full pi
        | Return r \<Rightarrow> r = i + int m \<and> (m < nat (n - i) \<longrightarrow> \<not> user_ok 0 (ps_mem s) pt (addr + of_int (i + int m)))
            \<or> r = - 1 \<and> m = 0 \<and> (\<not> pi_readopen pi \<or> kld)" by blast
  have "case out of Asleep j \<Rightarrow> j = i + int m \<and> j < n \<and> length (pipe_contents pi) = PIPESIZE
        | Return r \<Rightarrow> r = i + int m \<and> (r < n \<longrightarrow> \<not> user_ok 0 (ps_mem s) pt (addr + of_int r))
            \<or> r = - 1 \<and> m = 0 \<and> (\<not> pi_readopen (ps_pipe s) \<or> kld)"
    using m(5,6) by (auto simp: pipe_full_len split: outcome.splits)
  then show ?thesis using m assms(3) unfolding pipewrite_def pipe_inv_def
    by (intro exI [of _ m] exI [of _ out] exI [of _ pi] conjI) auto
qed

definition example_pipe :: pipe_st where
  "example_pipe = \<lparr>ps_pipe = \<lparr>pi_data = \<lambda>_. 0, pi_nread = - 1, pi_nwrite = - 1, pi_readopen = True, pi_writeopen = True\<rparr>,
     ps_mem = example_mapping\<rparr>"

lemma example_pipe: "user_mem (ps_mem example_pipe) 0x80023000" "pipe_inv (ps_pipe example_pipe)"
  "pipe_contents (ps_pipe example_pipe) = []"
  using example_mapping(1,4) example_data
  by (simp_all add: user_mem_def example_pipe_def pipe_inv_def pipe_contents_def ring_contents_def)

theorem pipewrite_correct_witness:
  "\<exists>m out pi. pipewrite False 0x80023000 0 3 0 example_pipe = Ok (out, example_pipe\<lparr>ps_pipe := pi\<rparr>)
     \<and> length (pipe_contents pi) = m \<and> m \<le> 3"
proof -
  from pipewrite_correct [OF example_pipe(1,2), of 0 3 False 0] obtain m out pi where
    "int m \<le> 3" "pipewrite False 0x80023000 0 3 0 example_pipe = Ok (out, example_pipe\<lparr>ps_pipe := pi\<rparr>)"
    "pipe_contents pi = pipe_contents (ps_pipe example_pipe)
      @ uload (paddr (ps_mem example_pipe) 0x80023000) (0 + of_int 0) m (pm (ps_mem example_pipe))" by auto
  then show ?thesis using example_pipe(3) by auto
qed

text \<open>
  C20. A run of \<open>piperead\<close> sleeps exactly when the pipe is empty, the write side is open and the process
  is not killed. Otherwise, unless it returns -1 for a killed process, it removes a prefix \<open>bs\<close> of the
  contents, stores it at the user address byte by byte, and returns its length: as many bytes as there
  are, up to \<open>n\<close>. Only if the next user address is not writable it stops early, and then one more
  byte is removed from the pipe and lost.
\<close>

theorem piperead_correct:
  assumes "user_mem (ps_mem s) pt" "pipe_inv (ps_pipe s)"
  shows "(pipe_contents (ps_pipe s) = [] \<and> pi_writeopen (ps_pipe s) \<longrightarrow>
       piperead kld pt addr n s = Ok (if kld then Return (- 1) else Asleep 0, s))
   \<and> (pipe_contents (ps_pipe s) \<noteq> [] \<or> \<not> pi_writeopen (ps_pipe s) \<longrightarrow>
       (\<exists>bs lost pi u. piperead kld pt addr n s = Ok (Return (int (length bs)), \<lparr>ps_pipe = pi, ps_mem = u\<rparr>)
         \<and> pipe_contents (ps_pipe s) = bs @ lost @ pipe_contents pi
         \<and> u = (ps_mem s)\<lparr>pm := ustore (paddr (ps_mem s) pt) addr bs (pm (ps_mem s))\<rparr>
         \<and> (if lost = [] then length bs = min (nat n) (length (pipe_contents (ps_pipe s)))
            else length lost = 1 \<and> \<not> user_ok PTE_W (ps_mem s) pt (addr + of_nat (length bs)))))"
proof (intro conjI impI)
  assume "pipe_contents (ps_pipe s) = [] \<and> pi_writeopen (ps_pipe s)"
  then show "piperead kld pt addr n s = Ok (if kld then Return (- 1) else Asleep 0, s)"
    by (simp add: piperead_def km_defs pipe_vacant_len)
next
  assume "pipe_contents (ps_pipe s) \<noteq> [] \<or> \<not> pi_writeopen (ps_pipe s)"
  then have run: "piperead kld pt addr n s = piperead_loop (nat n) pt addr 0 s"
    by (auto simp: piperead_def mbind_def mget_def pipe_vacant_len)
  show "\<exists>bs lost pi u. piperead kld pt addr n s = Ok (Return (int (length bs)), \<lparr>ps_pipe = pi, ps_mem = u\<rparr>)
         \<and> pipe_contents (ps_pipe s) = bs @ lost @ pipe_contents pi
         \<and> u = (ps_mem s)\<lparr>pm := ustore (paddr (ps_mem s) pt) addr bs (pm (ps_mem s))\<rparr>
         \<and> (if lost = [] then length bs = min (nat n) (length (pipe_contents (ps_pipe s)))
            else length lost = 1 \<and> \<not> user_ok PTE_W (ps_mem s) pt (addr + of_nat (length bs)))"
    using piperead_loop_spec [OF assms, of "nat n" addr 0]
    unfolding run add_0 of_int_0 add_0_right of_int_of_nat_eq by blast
qed

theorem piperead_correct_witness:
  "piperead False 0x80023000 0 3 example_pipe = Ok (Asleep 0, example_pipe)
   \<and> (\<exists>pi u. piperead False 0x80023000 0 3 (example_pipe\<lparr>ps_pipe := pipe_put 9 (ps_pipe example_pipe)\<rparr>)
        = Ok (Return 1, \<lparr>ps_pipe = pi, ps_mem = u\<rparr>) \<and> pm u 0x80026000 = 9)"
proof -
  define s where "s = example_pipe\<lparr>ps_pipe := pipe_put 9 (ps_pipe example_pipe)\<rparr>"
  have put: "pipe_inv (ps_pipe s)" "pipe_contents (ps_pipe s) = [9]"
    using pipe_ring.put_law [OF example_pipe(2), of 9] example_pipe(3)
    by (simp_all add: s_def pipe_full_len PIPESIZE_def)
  have m: "ps_mem s = example_mapping" by (simp add: s_def example_pipe_def)
  have um: "user_mem (ps_mem s) 0x80023000" using example_pipe(1) by (simp add: s_def)
  have pa: "paddr example_mapping 0x80023000 0 = 0x80026000"
    by (simp add: paddr_def example_mapping(5) example_flags)
  have w: "user_ok PTE_W example_mapping 0x80023000 0" by (rule example_writable(1)) simp
  from piperead_correct [OF um put(1), of False 0 3] put(2)
  obtain bs lost pi u where r: "piperead False 0x80023000 0 3 s = Ok (Return (int (length bs)), \<lparr>ps_pipe = pi, ps_mem = u\<rparr>)"
      "[9] = bs @ lost @ pipe_contents pi"
      "u = (ps_mem s)\<lparr>pm := ustore (paddr (ps_mem s) 0x80023000) 0 bs (pm (ps_mem s))\<rparr>"
      "if lost = [] then length bs = min (nat 3) (length [9 :: u8])
       else length lost = 1 \<and> \<not> user_ok PTE_W (ps_mem s) 0x80023000 (0 + of_nat (length bs))"
    by (metis list.distinct(1))
  have "bs = [9]"
  proof (cases lost)
    case Nil
    then have "length bs = 1" using r(4) by simp
    then show ?thesis using r(2) by (cases bs) auto
  next
    case (Cons x xs)
    then have "bs \<noteq> []" using r(4) w by (auto simp: m)
    then show ?thesis using r(2) Cons by (cases bs) auto
  qed
  then have "pm u 0x80026000 = 9" by (simp add: r(3) m pa fun_upd_def)
  moreover have "piperead False 0x80023000 0 3 s = Ok (Return 1, \<lparr>ps_pipe = pi, ps_mem = u\<rparr>)"
    using r(1) \<open>bs = [9]\<close> by simp
  moreover have "piperead False 0x80023000 0 3 example_pipe = Ok (Asleep 0, example_pipe)"
    using piperead_correct [OF example_pipe(1,2), of False 0 3] example_pipe(3)
    by (simp add: example_pipe_def)
  ultimately show ?thesis unfolding s_def by blast
qed

text \<open>
  A history of a pipe: runs of \<open>pipewrite\<close> and \<open>piperead\<close> by any processes in any order, with arbitrary
  changes of user memory in between. \<open>ws\<close> are the user bytes accepted so far, \<open>rs\<close> the bytes taken
  out.
\<close>

fun progress :: "outcome \<Rightarrow> int" where
  "progress (Return r) = r"
| "progress (Asleep j) = j"

inductive pipe_trace :: "pipe_st \<Rightarrow> u8 list \<Rightarrow> u8 list \<Rightarrow> pipe_st \<Rightarrow> bool" for s where
  pt_start: "pipe_trace s [] [] s"
| pt_write: "pipe_trace s ws rs t \<Longrightarrow> user_mem (ps_mem t) pt \<Longrightarrow> 0 \<le> i \<Longrightarrow> i \<le> n \<Longrightarrow>
    pipewrite kld pt addr n i t = Ok (out, u) \<Longrightarrow>
    pipe_trace s (ws @ uload (paddr (ps_mem t) pt) (addr + of_int i) (nat (progress out - i)) (pm (ps_mem t))) rs u"
| pt_read: "pipe_trace s ws rs t \<Longrightarrow> user_mem (ps_mem t) pt \<Longrightarrow> piperead kld pt addr n t = Ok (out, u) \<Longrightarrow>
    pipe_trace s ws (rs @ take (length (pipe_contents (ps_pipe t)) - length (pipe_contents (ps_pipe u)))
      (pipe_contents (ps_pipe t))) u"
| pt_user: "pipe_trace s ws rs t \<Longrightarrow> pipe_trace s ws rs (t\<lparr>ps_mem := m\<rparr>)"

lemma pipewrite_bytes:
  assumes "user_mem (ps_mem t) pt" "pipe_inv (ps_pipe t)" "0 \<le> i" "i \<le> n" "pipewrite kld pt addr n i t = Ok (out, u)"
  shows "pipe_inv (ps_pipe u) \<and> pipe_contents (ps_pipe u) = pipe_contents (ps_pipe t)
    @ uload (paddr (ps_mem t) pt) (addr + of_int i) (nat (progress out - i)) (pm (ps_mem t))"
proof -
  from pipewrite_loop_spec [OF assms(1,2), of "nat (n - i)" kld addr i] obtain m out' pi where m:
      "pipewrite_loop (nat (n - i)) kld pt addr i t = Ok (out', t\<lparr>ps_pipe := pi\<rparr>)" "pipe_inv pi"
      "pipe_contents pi = pipe_contents (ps_pipe t) @ uload (paddr (ps_mem t) pt) (addr + of_int i) m (pm (ps_mem t))"
      "case out' of Asleep j \<Rightarrow> j = i + int m \<and> m < nat (n - i) \<and> pipe_full pi
        | Return r \<Rightarrow> r = i + int m \<and> (m < nat (n - i) \<longrightarrow> \<not> user_ok 0 (ps_mem t) pt (addr + of_int (i + int m)))
            \<or> r = - 1 \<and> m = 0 \<and> (\<not> pi_readopen pi \<or> kld)" by blast
  have eq: "out' = out" "u = t\<lparr>ps_pipe := pi\<rparr>" using m(1) assms(5) by (simp_all add: pipewrite_def)
  have "nat (progress out - i) = m"
    using m(4) assms(3) unfolding eq by (cases out) auto
  then show ?thesis using m(2,3) by (simp add: eq)
qed

lemma piperead_bytes:
  assumes "user_mem (ps_mem t) pt" "pipe_inv (ps_pipe t)" "piperead kld pt addr n t = Ok (out, u)"
  shows "pipe_inv (ps_pipe u) \<and> (\<exists>bs. pipe_contents (ps_pipe t) = bs @ pipe_contents (ps_pipe u))"
  using piperead_loop_spec [OF assms(1,2), of "nat n" addr 0] assms(2,3)
  by (auto simp: piperead_def km_defs split: if_splits)



end
