(* ===== verification/Uart.thy ===== *)
theory Uart
  imports Ring
begin

text \<open>
  The UART driver (\<open>kernel/uart.c\<close>) and \<open>consputc\<close> of \<open>kernel/console.c\<close>.

  The device is seen through its registers: \<open>u_writes\<close> is the sequence of register writes, \<open>u_lsr k\<close> is
  the bit \<open>LSR_TX_IDLE\<close> that the \<open>k\<close>-th read of the line status register returns, \<open>u_rx\<close> are the
  input bytes waiting. Waiting for the device with interrupts off is a loop over these reads:
  it never ends if the bit is never set.

  Shown: the transmit buffer is a ring buffer; \<open>uartstart\<close> sends a prefix of it to the device, in
  order, and stops only when the buffer is empty or the device is busy.
\<close>

section \<open>State\<close>

definition RHR :: nat where "RHR = 0"
definition THR :: nat where "THR = 0"
definition IER :: nat where "IER = 1"
definition FCR :: nat where "FCR = 2"
definition LCR :: nat where "LCR = 3"
definition UART_TX_BUF_SIZE :: nat where "UART_TX_BUF_SIZE = 32"

record uart =
  u_buf :: block
  u_w :: u64
  u_r :: u64
  u_panicked :: bool
  u_writes :: "(nat \<times> u8) list"
  u_lsr :: "nat \<Rightarrow> bool"
  u_reads :: nat
  u_rx :: "u8 list"

definition WriteReg :: "nat \<Rightarrow> u8 \<Rightarrow> uart \<Rightarrow> uart" where
  "WriteReg reg v u = u\<lparr>u_writes := u_writes u @ [(reg, v)]\<rparr>"

section \<open>Operations\<close>

definition uartinit :: "uart \<Rightarrow> uart" where
  "uartinit u = fold (\<lambda>(reg, v). WriteReg reg v)
     [(IER, 0), (LCR, 0x80), (0, 3), (1, 0), (LCR, 3), (FCR, 1 OR 6), (IER, 2 OR 1)] u"

text \<open>The transmit buffer.\<close>

definition tx_full :: "uart \<Rightarrow> bool" where
  "tx_full u \<longleftrightarrow> u_w u = u_r u + of_nat UART_TX_BUF_SIZE"

definition tx_vacant :: "uart \<Rightarrow> bool" where
  "tx_vacant u \<longleftrightarrow> u_w u = u_r u"

definition tx_put :: "u8 \<Rightarrow> uart \<Rightarrow> uart" where
  "tx_put c u = u\<lparr>u_buf := (u_buf u)(unat (u_w u) mod UART_TX_BUF_SIZE := c), u_w := u_w u + 1\<rparr>"

definition tx_get :: "uart \<Rightarrow> u8 \<times> uart" where
  "tx_get u = (u_buf u (unat (u_r u) mod UART_TX_BUF_SIZE), u\<lparr>u_r := u_r u + 1\<rparr>)"

text \<open>One read of the line status register: whether the device can take a byte.\<close>

definition tx_idle :: "uart \<Rightarrow> bool \<times> uart" where
  "tx_idle u = (u_lsr u (u_reads u), u\<lparr>u_reads := Suc (u_reads u)\<rparr>)"

text \<open>\<open>uartstart\<close>; its \<open>wakeup\<close> of a waiting \<open>uartputc\<close> changes nothing here.\<close>

function uartstart :: "uart \<Rightarrow> uart" where
  "uartstart u =
    (if tx_vacant u then u
     else
       let (idle, u1) = tx_idle u in
       if \<not> idle then u1
       else
         let (c, u2) = tx_get u1 in
         uartstart (WriteReg THR c u2))"
  by pat_completeness auto
termination
proof (relation "measure (\<lambda>u. unat (u_w u - u_r u))", simp, goal_cases)
  case (1 u p idle u1 q c u2)
  then have "u_w u - u_r u \<noteq> 0" by (simp add: tx_vacant_def)
  then have "0 < unat (u_w u - u_r u)" by (simp add: unat_gt_0)
  from ring_pop(2) [OF this] this 1 show ?case
    by (auto simp: tx_idle_def tx_get_def WriteReg_def)
qed

declare uartstart.simps [simp del]

definition uartputc :: "u8 \<Rightarrow> (uart, unit) km" where
  "uartputc c =
    mbind (mget u_panicked) (\<lambda>p.
    if p then mdiverge
    else
      mbind (mget tx_full) (\<lambda>full.
      if full then mblock
      else mmod (\<lambda>u. uartstart (tx_put c u))))"

text \<open>The busy wait of \<open>uartputc_sync\<close>: the number of the read after the first one that is idle.\<close>

partial_function (option) wait_idle :: "(nat \<Rightarrow> bool) \<Rightarrow> nat \<Rightarrow> nat option" where
  "wait_idle lsr k = (if lsr k then Some (Suc k) else wait_idle lsr (Suc k))"

definition uartputc_sync :: "u8 \<Rightarrow> (uart, unit) km" where
  "uartputc_sync c =
    mbind (mget u_panicked) (\<lambda>p.
    if p then mdiverge
    else
      mbind (mget (\<lambda>u. wait_idle (u_lsr u) (u_reads u))) (\<lambda>r.
      case r of
        None \<Rightarrow> mdiverge
      | Some k \<Rightarrow> mmod (\<lambda>u. WriteReg THR c (u\<lparr>u_reads := k\<rparr>))))"

text \<open>\<open>None\<close> stands for the result -1.\<close>

definition uartgetc :: "(uart, u8 option) km" where
  "uartgetc =
    mbind (mget u_rx) (\<lambda>rx.
    case rx of
      [] \<Rightarrow> mret None
    | c # cs \<Rightarrow>
        mbind (mmod (u_rx_update (\<lambda>_. cs))) (\<lambda>_.
        mret (Some c)))"

definition BACKSPACE :: int where "BACKSPACE = 0x100"

definition consputc :: "int \<Rightarrow> (uart, unit) km" where
  "consputc c =
    (if c = BACKSPACE then
       mbind (uartputc_sync 8) (\<lambda>_.
       mbind (uartputc_sync 0x20) (\<lambda>_.
       uartputc_sync 8))
     else uartputc_sync (of_int c))"

section \<open>The transmit buffer as a ring buffer\<close>

definition tx_contents :: "uart \<Rightarrow> u8 list" where
  "tx_contents u = ring_contents (u_buf u) UART_TX_BUF_SIZE (u_r u) (u_w u)"

definition tx_inv :: "uart \<Rightarrow> bool" where
  "tx_inv u \<longleftrightarrow> length (tx_contents u) \<le> UART_TX_BUF_SIZE"

lemma tx_full_len: "tx_full u \<longleftrightarrow> length (tx_contents u) = UART_TX_BUF_SIZE"
proof -
  have "tx_full u \<longleftrightarrow> u_w u - u_r u = 32"
    by (auto simp: tx_full_def UART_TX_BUF_SIZE_def diff_eq_eq add.commute)
  then show ?thesis by (simp add: tx_contents_def UART_TX_BUF_SIZE_def word_unat_eq_iff)
qed

lemma tx_vacant_len: "tx_vacant u \<longleftrightarrow> tx_contents u = []"
  by (auto simp: tx_vacant_def tx_contents_def ring_contents_def unat_eq_zero)

interpretation tx_ring: ring_buffer tx_inv UART_TX_BUF_SIZE tx_contents tx_full tx_vacant tx_put tx_get
proof
  fix s c
  show "tx_inv s \<Longrightarrow> length (tx_contents s) \<le> UART_TX_BUF_SIZE" by (simp add: tx_inv_def)
  show "tx_full s \<longleftrightarrow> length (tx_contents s) = UART_TX_BUF_SIZE" by (rule tx_full_len)
  show "tx_vacant s \<longleftrightarrow> tx_contents s = []" by (rule tx_vacant_len)
  show "tx_inv (tx_put c s) \<and> tx_contents (tx_put c s) = tx_contents s @ [c]" if "tx_inv s" "\<not> tx_full s"
  proof -
    have "unat (u_w s - u_r s) < UART_TX_BUF_SIZE"
      using that by (auto simp: tx_inv_def tx_full_len) (simp add: tx_contents_def)
    from ring_push(1) [OF _ this, of "u_buf s" c] ring_push(2) [OF _ this] this that show ?thesis
      by (simp add: tx_inv_def tx_contents_def tx_put_def UART_TX_BUF_SIZE_def)
  qed
  show "tx_inv (snd (tx_get s)) \<and> tx_contents s = fst (tx_get s) # tx_contents (snd (tx_get s))"
    if "tx_inv s" "\<not> tx_vacant s"
  proof -
    have "u_w s - u_r s \<noteq> 0" using that by (simp add: tx_vacant_def)
    then have "0 < unat (u_w s - u_r s)" by (simp add: unat_gt_0)
    from ring_pop(1) [OF this, of "u_buf s" UART_TX_BUF_SIZE] ring_pop(2) [OF this] that show ?thesis
      by (auto simp: tx_inv_def tx_contents_def tx_get_def)
  qed
qed

text \<open>The bytes given to the device.\<close>

definition sent :: "uart \<Rightarrow> u8 list" where
  "sent u = map snd (filter (\<lambda>(reg, v). reg = THR) (u_writes u))"

lemma sent_WriteReg [simp]: "sent (WriteReg THR c u) = sent u @ [c]"
  by (simp add: sent_def WriteReg_def)

lemma uartstart_spec:
  assumes "tx_inv u"
  shows "tx_inv (uartstart u) \<and> sent (uartstart u) @ tx_contents (uartstart u) = sent u @ tx_contents u
    \<and> (tx_contents (uartstart u) = [] \<or> \<not> u_lsr u (u_reads (uartstart u) - 1)) \<and> u_lsr (uartstart u) = u_lsr u"
  using assms
proof (induction u rule: uartstart.induct)
  case (1 u)
  obtain idle u1 where i: "tx_idle u = (idle, u1)" by (cases "tx_idle u")
  obtain c u2 where g: "tx_get u1 = (c, u2)" by (cases "tx_get u1")
  have u1: "tx_contents u1 = tx_contents u" "tx_inv u1" "sent u1 = sent u" "u_lsr u1 = u_lsr u" "tx_vacant u1 = tx_vacant u"
    using i 1(2) by (auto simp: tx_idle_def tx_contents_def tx_inv_def sent_def tx_vacant_def)
  show ?case
  proof (cases "tx_vacant u \<or> \<not> idle")
    case True
    then show ?thesis using 1(2) i u1 by (auto simp: uartstart.simps [of u] tx_vacant_len tx_idle_def)
  next
    case False
    let ?v = "WriteReg THR c u2"
    from False u1 tx_ring.get_law [OF u1(2)] g have get: "tx_inv u2" "tx_contents u = c # tx_contents u2" by auto
    have v: "tx_inv ?v" "tx_contents ?v = tx_contents u2" "u_lsr ?v = u_lsr u" "sent u2 = sent u"
      using get(1) g u1(3,4) by (auto simp: tx_inv_def tx_contents_def WriteReg_def tx_get_def sent_def)
    have "uartstart u = uartstart ?v" using False i g by (simp add: uartstart.simps [of u])
    moreover have "tx_inv (uartstart ?v) \<and> sent (uartstart ?v) @ tx_contents (uartstart ?v) = sent ?v @ tx_contents ?v
        \<and> (tx_contents (uartstart ?v) = [] \<or> \<not> u_lsr ?v (u_reads (uartstart ?v) - 1)) \<and> u_lsr (uartstart ?v) = u_lsr ?v"
      using 1(1) [OF _ i [symmetric] refl _ g [symmetric] refl v(1)] False by simp
    ultimately show ?thesis using v get(2) by simp
  qed
qed

section \<open>Properties\<close>

text \<open>
  C22. \<open>uartputc\<close> neither loses, duplicates nor reorders output: unless the kernel has panicked or the
  buffer is full (then the caller sleeps), it returns, and the bytes sent to the device followed by
  the bytes in the buffer are the old ones followed by the new byte; bytes stay in the buffer only if
  the device was busy at the last look.
\<close>

theorem uartputc_fifo:
  assumes "tx_inv u" "\<not> u_panicked u"
  shows "if length (tx_contents u) = UART_TX_BUF_SIZE then uartputc c u = Blocked
    else \<exists>t. uartputc c u = Ok ((), t) \<and> sent t @ tx_contents t = sent u @ tx_contents u @ [c]
      \<and> length (tx_contents t) \<le> UART_TX_BUF_SIZE
      \<and> (tx_contents t \<noteq> [] \<longrightarrow> \<not> u_lsr u (u_reads t - 1))"
proof -
  have "sent (tx_put c u) = sent u" "u_lsr (tx_put c u) = u_lsr u" by (simp_all add: sent_def tx_put_def)
  moreover have "tx_inv (tx_put c u) \<and> tx_contents (tx_put c u) = tx_contents u @ [c]" if "\<not> tx_full u"
    by (rule tx_ring.put_law [OF assms(1) that])
  ultimately show ?thesis
    using uartstart_spec [of "tx_put c u"] assms(2) tx_full_len [of u]
    by (auto simp: uartputc_def km_defs tx_inv_def)
qed

definition example_uart :: uart where
  "example_uart = \<lparr>u_buf = \<lambda>_. 0, u_w = 0, u_r = 0, u_panicked = False, u_writes = [], u_lsr = (\<lambda>k. k = 3), u_reads = 0, u_rx = []\<rparr>"

theorem uartputc_fifo_witness:
  "\<exists>t. uartputc 0x41 example_uart = Ok ((), t) \<and> sent t @ tx_contents t = [0x41]"
  using uartputc_fifo [of example_uart "0x41"]
  by (auto simp: tx_inv_def tx_contents_def ring_contents_def example_uart_def UART_TX_BUF_SIZE_def sent_def)

lemma wait_idle_returns:
  assumes "lsr k" "j \<le> k"
  shows "\<exists>i. wait_idle lsr j = Some (Suc i) \<and> lsr i \<and> j \<le> i \<and> i \<le> k \<and> (\<forall>m. j \<le> m \<and> m < i \<longrightarrow> \<not> lsr m)"
  using assms
proof (induction "k - j" arbitrary: j)
  case 0
  then show ?case by (auto simp: wait_idle.simps [of lsr j])
next
  case (Suc n)
  show ?case
  proof (cases "lsr j")
    case True
    then show ?thesis using Suc.prems by (auto simp: wait_idle.simps [of lsr j])
  next
    case False
    from False Suc have "Suc j \<le> k" by (cases "j = k") auto
    moreover have "n = k - Suc j" using Suc.hyps(2) by simp
    ultimately obtain i where "wait_idle lsr (Suc j) = Some (Suc i)" "lsr i" "Suc j \<le> i" "i \<le> k"
      "\<forall>m. Suc j \<le> m \<and> m < i \<longrightarrow> \<not> lsr m" using Suc.hyps(1) [of "Suc j"] Suc.prems by blast
    moreover have "\<not> lsr m" if "j \<le> m" "m < i" for m
      using that False calculation(5) by (cases "m = j") auto
    ultimately show ?thesis
      using False by (intro exI [of _ i]) (simp add: wait_idle.simps [of lsr j])
  qed
qed

text \<open>
  \<open>uartputc_sync\<close> returns whenever the device eventually becomes idle, after exactly the reads up to
  the first idle one, and has then sent the byte, without touching the transmit buffer.
\<close>

theorem uartputc_sync_terminates:
  assumes "u_lsr u k" "u_reads u \<le> k" "\<not> u_panicked u"
  shows "\<exists>t. uartputc_sync c u = Ok ((), t) \<and> sent t = sent u @ [c] \<and> tx_contents t = tx_contents u
    \<and> u_reads t \<le> Suc k \<and> u_lsr u (u_reads t - 1) \<and> (\<forall>m. u_reads u \<le> m \<and> Suc m < u_reads t \<longrightarrow> \<not> u_lsr u m)"
proof -
  from wait_idle_returns [of "u_lsr u" k "u_reads u"] assms obtain i where
    i: "wait_idle (u_lsr u) (u_reads u) = Some (Suc i)" "u_lsr u i" "i \<le> k" "\<forall>m. u_reads u \<le> m \<and> m < i \<longrightarrow> \<not> u_lsr u m"
    by auto
  then show ?thesis using assms(3)
    by (simp add: uartputc_sync_def km_defs) (auto simp: WriteReg_def sent_def tx_contents_def)
qed

theorem uartputc_sync_terminates_witness:
  "\<exists>t. uartputc_sync 0x41 example_uart = Ok ((), t) \<and> sent t = [0x41] \<and> u_reads t = 4"
proof -
  from uartputc_sync_terminates [of example_uart 3 "0x41"] obtain t where
    t: "uartputc_sync 0x41 example_uart = Ok ((), t)" "sent t = [0x41]" "u_reads t \<le> 4" "u_lsr example_uart (u_reads t - 1)"
    by (auto simp: example_uart_def sent_def)
  then have "u_reads t - 1 = 3" by (simp add: example_uart_def)
  then show ?thesis using t by auto
qed

end
