(* ===== verification/Printf.thy ===== *)
theory Printf
  imports Uart
begin

text \<open>
  Formatted output: the kernel's \<open>printf\<close> (\<open>kernel/printf.c\<close>) and the user library's \<open>vprintf\<close>
  (\<open>user/printf.c\<close>).

  The text a call prints is computed as a string; \<open>None\<close> is undefined behaviour: a store past the end of
  the local array \<open>buf[16]\<close> of \<open>printint\<close>, or a missing argument. The kernel sends the text to the
  UART character by character with \<open>consputc\<close>.

  Shown: the digits printed denote the number; the buffer suffices for every hexadecimal number and
  every signed 32-bit number; and the unsigned conversions of the kernel overflow it.
\<close>

section \<open>Numbers\<close>

text \<open>
  The \<open>do\<close> loop of \<open>printint\<close>: the characters stored to \<open>buf\<close>, least significant digit first. The loop
  ends for every base above one; it is only called with bases 10 and 16.
\<close>

function print_digits :: "string \<Rightarrow> nat \<Rightarrow> nat \<Rightarrow> string" where
  "print_digits digits base x =
     digits ! (x mod base) # (if 1 < base \<and> x div base \<noteq> 0 then print_digits digits base (x div base) else [])"
  by pat_completeness auto
termination
  by (relation "measure (\<lambda>(digits, base, x). x)") (auto intro!: div_less_dividend simp: div_eq_0_iff)

declare print_digits.simps [simp del]

definition digits :: string where "digits = ''0123456789abcdef''"

definition BUFLEN :: nat where "BUFLEN = 16"

text \<open>\<open>printint\<close> with its 64-bit argument: the text in printing order.\<close>

definition printint :: "u64 \<Rightarrow> nat \<Rightarrow> bool \<Rightarrow> string option" where
  "printint xx base sign =
    (let neg = (sign \<and> sint xx < 0);
         x = (if neg then - xx else xx);
         buf = print_digits digits base (unat x) @ (if neg then ''-'' else [])
     in if length buf > BUFLEN then None else Some (rev buf))"

definition printptr :: "u64 \<Rightarrow> string" where
  "printptr x = ''0x'' @ map (\<lambda>i. digits ! unat (drop_bit 60 (push_bit (4 * i) x))) [0..<16]"

section \<open>Format strings\<close>

text \<open>Variadic arguments: an \<open>int\<close>, a \<open>uint64\<close>, or a \<open>char *\<close> (\<open>None\<close>: the null pointer).\<close>

datatype arg = Aint u32 | Along u64 | Astr "string option"

fun arg_int :: "arg list \<Rightarrow> (u32 \<times> arg list) option" where
  "arg_int (Aint x # as) = Some (x, as)"
| "arg_int _ = None"

fun arg_long :: "arg list \<Rightarrow> (u64 \<times> arg list) option" where
  "arg_long (Along x # as) = Some (x, as)"
| "arg_long _ = None"

fun arg_str :: "arg list \<Rightarrow> (string \<times> arg list) option" where
  "arg_str (Astr s # as) = Some (case s of None \<Rightarrow> ''(null)'' | Some s \<Rightarrow> s, as)"
| "arg_str _ = None"

text \<open>
  A conversion after \<open>%\<close>, from the next three characters: the text, the number of characters of the
  format consumed after the \<open>%\<close>, and the remaining arguments. \<open>prn\<close> and \<open>ptr\<close> are the \<open>printint\<close> and
  \<open>printptr\<close> of the kernel or of the user library, which share this code. The conversions of an \<open>int\<close> sign-extend it
  to the 64 bits of the parameter.
\<close>

definition num :: "(u64 \<Rightarrow> string option) \<Rightarrow> nat \<Rightarrow> (u64 \<times> arg list) option \<Rightarrow> (string \<times> nat \<times> arg list) option" where
  "num conv k a = (case a of None \<Rightarrow> None
     | Some (x, as) \<Rightarrow> (case conv x of None \<Rightarrow> None | Some t \<Rightarrow> Some (t, k, as)))"

definition widen :: "(u32 \<times> arg list) option \<Rightarrow> (u64 \<times> arg list) option" where
  "widen a = map_option (\<lambda>(x, as). (scast x, as)) a"

definition at0 :: "string \<Rightarrow> nat \<Rightarrow> char" where
  "at0 s i = (if i < length s then s ! i else CHR 0x00)"

definition conversion :: "(u64 \<Rightarrow> nat \<Rightarrow> bool \<Rightarrow> string option) \<Rightarrow> (u64 \<Rightarrow> string) \<Rightarrow> string \<Rightarrow> arg list \<Rightarrow> (string \<times> nat \<times> arg list) option" where
  "conversion prn ptr fmt as =
    (let c0 = at0 fmt 0; c1 = (if c0 \<noteq> CHR 0x00 then at0 fmt 1 else CHR 0x00);
         c2 = (if c1 \<noteq> CHR 0x00 then at0 fmt 2 else CHR 0x00);
         d = (\<lambda>x. prn x 10 True); u = (\<lambda>x. prn x 10 False); h = (\<lambda>x. prn x 16 False) in
     if c0 = CHR ''d'' then num d 1 (widen (arg_int as))
     else if c0 = CHR ''l'' \<and> c1 = CHR ''d'' then num d 2 (arg_long as)
     else if c0 = CHR ''l'' \<and> c1 = CHR ''l'' \<and> c2 = CHR ''d'' then num d 3 (arg_long as)
     else if c0 = CHR ''u'' then num u 1 (widen (arg_int as))
     else if c0 = CHR ''l'' \<and> c1 = CHR ''u'' then num u 2 (arg_long as)
     else if c0 = CHR ''l'' \<and> c1 = CHR ''l'' \<and> c2 = CHR ''u'' then num u 3 (arg_long as)
     else if c0 = CHR ''x'' then num h 1 (widen (arg_int as))
     else if c0 = CHR ''l'' \<and> c1 = CHR ''x'' then num h 2 (arg_long as)
     else if c0 = CHR ''l'' \<and> c1 = CHR ''l'' \<and> c2 = CHR ''x'' then num h 3 (arg_long as)
     else if c0 = CHR ''p'' then num (Some \<circ> ptr) 1 (arg_long as)
     else if c0 = CHR ''s'' then (case arg_str as of None \<Rightarrow> None | Some (s, as) \<Rightarrow> Some (s, 1, as))
     else if c0 = CHR ''%'' then Some (''%'', 1, as)
     else Some ([CHR ''%'', c0], 1, as))"

text \<open>The main loop of \<open>printf\<close>; a \<open>%\<close> at the end of the format ends it.\<close>

function format_text :: "(u64 \<Rightarrow> nat \<Rightarrow> bool \<Rightarrow> string option) \<Rightarrow> (u64 \<Rightarrow> string) \<Rightarrow> string \<Rightarrow> arg list \<Rightarrow> string option" where
  "format_text prn ptr fmt as =
    (case fmt of
       [] \<Rightarrow> Some []
     | cx # rest \<Rightarrow>
         if cx \<noteq> CHR ''%'' then map_option (\<lambda>t. cx # t) (format_text prn ptr rest as)
         else if rest = [] then Some []
         else (case conversion prn ptr rest as of
             None \<Rightarrow> None
           | Some (t, k, as') \<Rightarrow> map_option (\<lambda>t'. t @ t') (format_text prn ptr (drop k rest) as')))"
  by pat_completeness auto
termination by (relation "measure (\<lambda>(prn, ptr, fmt, as). length fmt)") auto

declare format_text.simps [simp del]

definition printf_text :: "string \<Rightarrow> arg list \<Rightarrow> string option" where
  "printf_text fmt as = format_text printint printptr fmt as"

definition printf :: "string \<Rightarrow> arg list \<Rightarrow> (uart, unit) km" where
  "printf fmt as =
    (case printf_text fmt as of
       None \<Rightarrow> mdiverge
     | Some t \<Rightarrow> mfor t (\<lambda>c. consputc (int (of_char c))))"

text \<open>\<open>panic\<close> prints the message, freezes the output of the other CPUs and never returns.\<close>

definition panic :: "string \<Rightarrow> (uart, 'a) km" where
  "panic s =
    mbind (printf ''panic: '' []) (\<lambda>_.
    mbind (printf (''%s'' @ [CHR 0x0A]) [Astr (Some s)]) (\<lambda>_.
    mbind (mmod (u_panicked_update (\<lambda>_. True))) (\<lambda>_.
    mdiverge)))"

section \<open>The user library\<close>

definition user_digits :: string where "user_digits = ''0123456789ABCDEF''"

text \<open>The user's \<open>printint\<close> has an \<open>int\<close> parameter: 64-bit arguments are truncated.\<close>

definition user_printint :: "u64 \<Rightarrow> nat \<Rightarrow> bool \<Rightarrow> string option" where
  "user_printint arg base sgnd =
    (let xx = ucast arg :: u32;
         neg = (sgnd \<and> sint xx < 0);
         x = (if neg then - xx else xx);
         buf = print_digits user_digits base (unat x) @ (if neg then ''-'' else [])
     in if length buf > BUFLEN then None else Some (rev buf))"

definition user_printptr :: "u64 \<Rightarrow> string" where
  "user_printptr x = ''0x'' @ map (\<lambda>i. user_digits ! unat (drop_bit 60 (push_bit (4 * i) x))) [0..<16]"

definition vprintf :: "string \<Rightarrow> arg list \<Rightarrow> string option" where
  "vprintf fmt as = format_text user_printint user_printptr fmt as"

section \<open>Properties\<close>

definition digit_value :: "string \<Rightarrow> char \<Rightarrow> nat" where
  "digit_value ds c = length (takeWhile (\<lambda>d. d \<noteq> c) ds)"

text \<open>The number that a sequence of digits denotes, most significant digit first.\<close>

definition parse_number :: "string \<Rightarrow> nat \<Rightarrow> string \<Rightarrow> nat" where
  "parse_number ds base t = fold (\<lambda>c n. n * base + digit_value ds c) t 0"

lemma digit_value_nth: "distinct ds \<Longrightarrow> k < length ds \<Longrightarrow> digit_value ds (ds ! k) = k"
proof (induction ds arbitrary: k)
  case (Cons d ds)
  then show ?case by (cases k) (auto simp: digit_value_def)
qed simp

lemma parse_print_digits:
  assumes "1 < base" "base \<le> length ds" "distinct ds"
  shows "parse_number ds base (rev (print_digits ds base x)) = x"
proof (induction x rule: less_induct)
  case (less x)
  have v: "digit_value ds (ds ! (x mod base)) = x mod base"
    using assms by (intro digit_value_nth) (auto intro: less_le_trans [OF mod_less_divisor])
  show ?case
  proof (cases "x div base = 0")
    case True
    then have "x mod base = x" using assms(1) by (simp add: div_eq_0_iff)
    then show ?thesis using True v by (simp add: print_digits.simps [of ds base x] parse_number_def)
  next
    case False
    then have "0 < x" by (cases x) auto
    then have "x div base < x" using assms(1) by (intro div_less_dividend)
    from less.IH [OF this] have "parse_number ds base (rev (print_digits ds base (x div base))) = x div base" .
    then show ?thesis
      using False v assms(1) by (simp add: print_digits.simps [of ds base x] parse_number_def)
  qed
qed

lemma print_digits_length:
  assumes "1 < base" "x < base ^ Suc n"
  shows "length (print_digits ds base x) \<le> Suc n"
  using assms(2)
proof (induction n arbitrary: x)
  case 0
  then show ?case by (simp add: print_digits.simps [of ds base x])
next
  case (Suc n)
  have "x div base < base ^ Suc n" using Suc.prems by (simp add: less_mult_imp_div_less mult.commute)
  from Suc.IH [OF this] show ?case by (simp add: print_digits.simps [of ds base x])
qed

lemma print_digits_length_ge:
  assumes "1 < base" "base ^ n \<le> x"
  shows "n < length (print_digits ds base x)"
  using assms(2)
proof (induction n arbitrary: x)
  case 0
  then show ?case by (simp add: print_digits.simps [of ds base x])
next
  case (Suc n)
  have "base ^ n \<le> x div base" using Suc.prems assms(1) by (simp add: less_eq_div_iff_mult_less_eq mult.commute)
  moreover have "0 < base ^ n" using assms(1) by simp
  then have "x div base \<noteq> 0" using calculation by linarith
  ultimately show ?case using Suc.IH [of "x div base"] assms(1) by (simp add: print_digits.simps [of ds base x])
qed

lemma digits_distinct: "distinct digits" "length digits = 16" "distinct user_digits" "length user_digits = 16"
  by (simp_all add: digits_def user_digits_def)


lemma sint_scast64: "sint (scast (y :: u32) :: u64) = sint y"
proof -
  have "- (2 ^ 31) \<le> sint y" "sint y < 2 ^ 31" using sint_ge [of y] sint_lt [of y] by simp_all
  then have "signed_take_bit 63 (sint y) = sint y" by (intro signed_take_bit_int_eq_self) auto
  then show ?thesis by (simp add: signed_scast_eq)
qed

text \<open>
  C23. What the kernel's \<open>printint\<close> prints in base 10 or 16 denotes the number: the digits read back give
  the unsigned value, and for a negative number printed as signed, a minus sign and the digits of its
  absolute value.
\<close>

theorem printint_roundtrip:
  assumes "printint xx base sign = Some t" "base = 10 \<or> base = 16"
  shows "if sign \<and> sint xx < 0 then hd t = CHR ''-'' \<and> int (parse_number digits base (tl t)) = - sint xx
    else parse_number digits base t = unat xx"
proof -
  have "parse_number digits base (rev (print_digits digits base x)) = x" for x
    using assms(2) digits_distinct by (intro parse_print_digits) auto
  then show ?thesis
    using assms(1) unat_uminus [of xx] by (auto simp: printint_def Let_def split: if_splits)
qed

lemma print_small:
  "print_digits ds 10 7 = [ds ! 7]" "print_digits ds 16 255 = [ds ! 15, ds ! 15]" "print_digits ds 10 42 = [ds ! 2, ds ! 4]"
  by (simp_all add: print_digits.simps)

theorem printint_roundtrip_witness:
  "printint (- 42) 10 True = Some ''-42'' \<and> int (parse_number digits 10 ''42'') = 42"
proof -
  have "printint (- 42) 10 True = Some ''-42''"
    by (simp add: printint_def print_small digits_def BUFLEN_def signed_of_int)
  with printint_roundtrip [OF this] show ?thesis by (simp add: signed_of_int)
qed

lemma printint_hex: "\<exists>t. printint x 16 False = Some t"
proof -
  have "unat x < 16 ^ Suc 15" using unsigned_less [where ?'a = nat, of x] by simp
  from print_digits_length [OF _ this, of digits] show ?thesis by (auto simp: printint_def Let_def BUFLEN_def)
qed

lemma printint_int: "\<exists>t. printint (scast (y :: u32)) 10 True = Some t"
proof -
  let ?x = "scast y :: u64"
  note s = sint_scast64 [of y]
  have r: "- (2 ^ 31) \<le> sint y" "sint y < 2 ^ 31" using sint_ge [of y] sint_lt [of y] by simp_all
  have "unat (if sint ?x < 0 then - ?x else ?x) < 10 ^ Suc 9"
  proof (cases "sint ?x < 0")
    case True
    then have "int (unat (- ?x)) < 10 ^ Suc 9" using unat_uminus [OF True] s r by simp
    then show ?thesis using True by (simp only: of_nat_less_iff [symmetric, where ?'a = int]) simp
  next
    case False
    then have "int (unat ?x) < 10 ^ Suc 9" using unat_sint [of ?x] s r by simp
    then show ?thesis using False by (simp only: of_nat_less_iff [symmetric, where ?'a = int]) simp
  qed
  from print_digits_length [OF _ this] have "length (print_digits digits 10 (unat (if sint ?x < 0 then - ?x else ?x))) \<le> 10"
    by simp
  then show ?thesis by (auto simp: printint_def Let_def BUFLEN_def)
qed

text \<open>
  C24. The sixteen bytes of \<open>buf\<close> suffice for every number in base 16 and for every signed number of 32
  bits in base 10, so the conversions \<open>%d\<close>, \<open>%x\<close>, \<open>%lx\<close> and \<open>%p\<close> are safe.
\<close>

theorem printint_fits:
  "(\<exists>t. printint x 16 False = Some t) \<and> (\<exists>t. printint (scast (y :: u32)) 10 True = Some t)"
  using printint_hex printint_int by blast

text \<open>
  C25. The unsigned decimal conversions overflow the buffer: \<open>%u\<close> of any \<open>int\<close> with the top bit set (it is
  sign-extended to 64 bits and has 20 digits), and \<open>%lu\<close> or \<open>%ld\<close> of any number from \<open>10 ^ 16\<close> on, store
  past the end of \<open>buf\<close>.
\<close>

theorem printint_overflows:
  "(sint (y :: u32) < 0 \<longrightarrow> printint (scast y) 10 False = None)
   \<and> (10 ^ 16 \<le> unat x \<and> 0 \<le> sint x \<longrightarrow> printint x 10 sign = None)"
proof -
  have big: "printint z 10 b = None" if "10 ^ 16 \<le> unat z" "\<not> (b \<and> sint z < 0)" for z b
    using print_digits_length_ge [OF _ that(1), of digits] that(2) by (auto simp: printint_def Let_def BUFLEN_def)
  have "10 ^ 16 \<le> unat (scast y :: u64)" if "sint y < 0"
  proof -
    have "int (unat (- (scast y :: u64))) \<le> int (2 ^ 31)"
      using that unat_uminus [of "scast y :: u64"] sint_ge [of y] by (simp add: sint_scast64)
    then have "unat (- (scast y :: u64)) \<le> 2 ^ 31" by (simp only: of_nat_le_iff)
    moreover have "- (scast y :: u64) \<noteq> 0" using that sint_scast64 [of y] by auto
    then have "unat (scast y :: u64) + unat (- (scast y :: u64)) = 2 ^ 64" by (intro unat_add_uminus) simp
    ultimately show ?thesis by simp
  qed
  then show ?thesis using big [of "scast y" False] big [of x sign] by auto
qed

theorem printint_overflows_witness:
  "printint (scast (- 1 :: u32)) 10 False = None \<and> printint 10000000000000000 10 True = None"
  using printint_overflows [of "- 1" "10000000000000000" True] by (simp add: signed_of_int)

end
