(* ===== verification/Kernel.thy ===== *)
theory Kernel
  imports Dir Proc Mutex Pipe Printf
begin

text \<open>
  The state of the whole kernel, and how the operations of its components act on it.

  The components above the file system (\<open>console.c\<close>, \<open>file.c\<close>, the creation of processes in \<open>proc.c\<close>,
  \<open>exec.c\<close>, the system calls, the trap handlers) share this state. Each of their functions is written as
  one sequential run of the calling process \<open>p\<close> (an index into the process table, \<open>myproc()\<close>). A call
  that has to sleep is \<open>Blocked\<close>; for the functions that make progress before they sleep
  (\<open>consoleread\<close>, \<open>piperead\<close>, \<open>pipewrite\<close>) the state in which they sleep is given by their runs.

  A pointer \<open>struct file *\<close> is 0 or \<open>Suc k\<close> for \<open>ftable.file[k]\<close>. A \<open>struct pipe\<close> is kept under the address
  of its page, apart from the bytes of that page. Sections under a spin lock are sequential
  here; \<open>Spinlock\<close> shows what the locks guarantee.
\<close>

definition NFILE :: nat where "NFILE = 100"
definition NDEV :: nat where "NDEV = 10"
definition CONSOLE :: nat where "CONSOLE = 1"
definition INPUT_BUF_SIZE :: nat where "INPUT_BUF_SIZE = 128"

datatype ftype = FD_NONE | FD_PIPE | FD_INODE | FD_DEVICE

record file_entry =
  f_type :: ftype
  f_ref :: int
  f_readable :: bool
  f_writable :: bool
  f_executable :: bool
  f_pipe :: u64
  f_ip :: nat
  f_off :: u32
  f_major :: u16

record cons =
  cons_buf :: block
  cons_r :: u32
  cons_w :: u32
  cons_e :: u32

text \<open>
  \<open>k_devsw\<close> tells which entries of \<open>devsw\<close> are set: \<open>consoleinit\<close> is the only function that sets one,
  to \<open>consoleread\<close> and \<open>consolewrite\<close>. \<open>k_first\<close> is the static variable \<open>first\<close> of \<open>forkret\<close>.
\<close>

record kernel =
  k_fs :: fs
  k_pt :: ptable
  k_uart :: uart
  k_cons :: cons
  k_devsw :: "nat \<Rightarrow> bool"
  k_ftable :: "nat \<Rightarrow> file_entry"
  k_pipes :: "u64 \<Rightarrow> pipe"
  k_mutexes :: mtable
  k_ticks :: u32
  k_first :: bool

section \<open>Operations of the components\<close>

definition kfs :: "(fs, 'a) km \<Rightarrow> (kernel, 'a) km" where
  [km_defs]: "kfs = mzoom k_fs k_fs_update"

definition kmemory :: "(kmem, 'a) km \<Rightarrow> (kernel, 'a) km" where
  [km_defs]: "kmemory m = kfs (fmem m)"

definition kpt :: "(ptable, 'a) km \<Rightarrow> (kernel, 'a) km" where
  [km_defs]: "kpt = mzoom k_pt k_pt_update"

definition kuart :: "(uart, 'a) km \<Rightarrow> (kernel, 'a) km" where
  [km_defs]: "kuart = mzoom k_uart k_uart_update"

definition kmutex :: "(mtable, 'a) km \<Rightarrow> (kernel, 'a) km" where
  [km_defs]: "kmutex = mzoom k_mutexes k_mutexes_update"

text \<open>Fields of the calling process, and the memory it owns.\<close>

definition proc_at :: "nat \<Rightarrow> kernel \<Rightarrow> proc" where
  "proc_at p s = pt_proc (k_pt s) p"

definition my :: "(proc \<Rightarrow> 'a) \<Rightarrow> nat \<Rightarrow> (kernel, 'a) km" where
  [km_defs]: "my f p = mget (\<lambda>s. f (proc_at p s))"

text \<open>An operation of the file system on behalf of \<open>p\<close>; it identifies the holder of a sleep lock by pid.\<close>

definition fsop :: "nat \<Rightarrow> (int \<Rightarrow> (fs, 'a) km) \<Rightarrow> (kernel, 'a) km" where
  [km_defs]: "fsop p f = mbind (my p_pid p) (\<lambda>pid. kfs (f pid))"

definition op_begin :: "(kernel, unit) km" where
  [km_defs]: "op_begin = kfs (flog begin_op)"

definition op_end :: "nat \<Rightarrow> (kernel, unit) km" where
  [km_defs]: "op_end p = fsop p (\<lambda>me. flog (end_op me))"

text \<open>\<open>copyout(p->pagetable, ...)\<close> and \<open>copyin(p->pagetable, ...)\<close>.\<close>

definition kcopyout :: "nat \<Rightarrow> u64 \<Rightarrow> u8 list \<Rightarrow> (kernel, int) km" where
  [km_defs]: "kcopyout p va bs = mbind (my p_pagetable p) (\<lambda>pt. kmemory (copyout pt va bs))"

definition kcopyin :: "nat \<Rightarrow> u64 \<Rightarrow> nat \<Rightarrow> (kernel, int \<times> u8 list) km" where
  [km_defs]: "kcopyin p va n = mbind (my p_pagetable p) (\<lambda>pt. kmemory (copyin pt va n))"

text \<open>The bytes of an \<open>int\<close> and of a \<open>uint64\<close> in memory.\<close>

definition bytes32 :: "u32 \<Rightarrow> u8 list" where
  "bytes32 w = load_bytes 0 4 (put32 0 w (\<lambda>_. 0))"

definition bytes64 :: "u64 \<Rightarrow> u8 list" where
  "bytes64 w = load_bytes 0 8 (put64 0 w (\<lambda>_. 0))"

text \<open>A C string held in an array of \<open>n\<close> bytes.\<close>

definition str_bytes :: "nat \<Rightarrow> ptr \<Rightarrow> u8 list" where
  "str_bytes n s = takeWhile (\<lambda>c. c \<noteq> 0) (load_bytes 0 n s)"

definition str_text :: "nat \<Rightarrow> ptr \<Rightarrow> string" where
  "str_text n s = map (\<lambda>c. char_of (unat c)) (str_bytes n s)"

text \<open>A string literal of the source as bytes, and as a pointer.\<close>

definition lit :: "string \<Rightarrow> u8 list" where
  "lit t = map (\<lambda>c. of_nat (of_char c)) t"

definition lit_ptr :: "string \<Rightarrow> ptr" where
  "lit_ptr t = bytes_fun (lit t)"

end
