(* ===== verification/Console.thy ===== *)
theory Console
  imports Kernel
begin

text \<open>
  The console (\<open>kernel/console.c\<close>): line editing in the interrupt handler, reading and writing, and the
  UART interrupt that feeds it.

  \<open>cons.buf\<close> is a ring of 128 bytes with three free-running indices: from \<open>r\<close> to \<open>w\<close> are the bytes that
  readers may take, from \<open>w\<close> to \<open>e\<close> the line being edited. Shown: \<open>consoleintr\<close> implements the line
  editor \<open>edit\<close> on two byte lists.
\<close>

section \<open>Writing\<close>

text \<open>
  An operation of the UART driver, with the \<open>wakeup(&uart_tx_r)\<close> that \<open>uartstart\<close> makes when it takes bytes
  from the transmit buffer.
\<close>

definition uart_wake :: "nat option \<Rightarrow> (uart, unit) km \<Rightarrow> (kernel, unit) km" where
  "uart_wake me m =
    mbind (mget (u_r \<circ> k_uart)) (\<lambda>r.
    mbind (kuart m) (\<lambda>_.
    mbind (mget (u_r \<circ> k_uart)) (\<lambda>r'.
    mwhen (r' \<noteq> r) (kpt (wakeup me Chan_uart)))))"

text \<open>\<open>either_copyin\<close> and \<open>either_copyout\<close> on behalf of the calling process.\<close>

fun consolewrite_loop :: "nat \<Rightarrow> nat \<Rightarrow> addr \<Rightarrow> int \<Rightarrow> (kernel, int) km" where
  "consolewrite_loop 0 p src i = mret i"
| "consolewrite_loop (Suc k) p src i =
    mbind (kmemory (either_copyin src 1)) (\<lambda>(r, bs, src').
    if r = - 1 then mret i
    else
      mbind (uart_wake (Some p) (uartputc (hd bs))) (\<lambda>_.
      consolewrite_loop k p src' (i + 1)))"

definition consolewrite :: "nat \<Rightarrow> addr \<Rightarrow> int \<Rightarrow> (kernel, int) km" where
  "consolewrite p src n = consolewrite_loop (nat n) p src 0"

section \<open>Reading\<close>

definition cons_set :: "(cons \<Rightarrow> cons) \<Rightarrow> (kernel, unit) km" where
  [km_defs]: "cons_set f = mmod (\<lambda>s. s\<lparr>k_cons := f (k_cons s)\<rparr>)"

definition cons_vacant :: "cons \<Rightarrow> bool" where
  "cons_vacant c \<longleftrightarrow> cons_r c = cons_w c"

definition cons_get :: "cons \<Rightarrow> u8 \<times> cons" where
  "cons_get c = (cons_buf c (unat (cons_r c) mod INPUT_BUF_SIZE), c\<lparr>cons_r := cons_r c + 1\<rparr>)"

text \<open>
  A run of \<open>consoleread\<close> with \<open>n = Suc k\<close> bytes to go of \<open>target\<close>, up to its return or its next \<open>sleep\<close>
  (\<open>Asleep n\<close>). Returning \<open>^D\<close> to the buffer undoes the increment of \<open>cons.r\<close>.
\<close>

fun consoleread_loop :: "nat \<Rightarrow> nat \<Rightarrow> nat \<Rightarrow> addr \<Rightarrow> (kernel, outcome) km" where
  "consoleread_loop 0 p target dst = mret (Return (int target))"
| "consoleread_loop (Suc k) p target dst =
    mbind (mget k_cons) (\<lambda>c.
    if cons_vacant c then
      mbind (kpt (killed p)) (\<lambda>kld.
      if kld then mret (Return (- 1)) else mret (Asleep (int (Suc k))))
    else
      let (ch, c') = cons_get c in
      mbind (cons_set (\<lambda>_. c')) (\<lambda>_.
      if ch = 4 then
        mbind (mwhen (Suc k < target)
          (cons_set (\<lambda>x. x\<lparr>cons_r := cons_r x - 1\<rparr>))) (\<lambda>_.
        mret (Return (int target - int (Suc k))))
      else
        mbind (kmemory (either_copyout dst [ch])) (\<lambda>(r, dst').
        if r = - 1 then mret (Return (int target - int (Suc k)))
        else if ch = 0x0a then mret (Return (int target - int k))
        else consoleread_loop k p target dst')))"

definition consoleread :: "nat \<Rightarrow> addr \<Rightarrow> int \<Rightarrow> (kernel, outcome) km" where
  "consoleread p dst n =
    (if n > 0 then consoleread_loop (nat n) p (nat n) dst else mret (Return 0))"

section \<open>Interrupts\<close>

definition state_name :: "procstate \<Rightarrow> string" where
  "state_name st = (case st of UNUSED \<Rightarrow> ''unused'' | USED \<Rightarrow> ''used'' | SLEEPING \<Rightarrow> ''sleep ''
     | RUNNABLE \<Rightarrow> ''runble'' | RUNNING \<Rightarrow> ''run   '' | ZOMBIE \<Rightarrow> ''zombie'')"

definition newline :: string where "newline = [CHR 0x0A]"

definition procdump :: "(kernel, unit) km" where
  "procdump =
    mbind (kuart (printf newline [])) (\<lambda>_.
    mfor [0..<NPROC] (\<lambda>p.
      mbind (mget (proc_at p)) (\<lambda>x.
      mwhen (p_state x \<noteq> UNUSED) (
        mbind (kuart (printf ''%d %s %s''
          [Aint (of_int (p_pid x)), Astr (Some (state_name (p_state x))), Astr (Some (str_text 16 (p_name x)))])) (\<lambda>_.
        kuart (printf newline []))))))"

text \<open>The loop of \<open>^U\<close>; it runs at most once per byte of the edited line.\<close>

fun kill_line :: "nat \<Rightarrow> (kernel, unit) km" where
  "kill_line 0 = mret ()"
| "kill_line (Suc n) =
    mbind (mget k_cons) (\<lambda>c.
    if cons_e c \<noteq> cons_w c \<and> cons_buf c (unat (cons_e c - 1) mod INPUT_BUF_SIZE) \<noteq> 0x0a then
      mbind (cons_set (\<lambda>c. c\<lparr>cons_e := cons_e c - 1\<rparr>)) (\<lambda>_.
      mbind (kuart (consputc BACKSPACE)) (\<lambda>_.
      kill_line n))
    else mret ())"

definition cons_store :: "u8 \<Rightarrow> cons \<Rightarrow> cons" where
  "cons_store ch c = c\<lparr>cons_buf := (cons_buf c)(unat (cons_e c) mod INPUT_BUF_SIZE := ch), cons_e := cons_e c + 1\<rparr>"

definition consoleintr :: "nat option \<Rightarrow> u8 \<Rightarrow> (kernel, unit) km" where
  "consoleintr me ch =
    (if ch = 0x10 then procdump
     else if ch = 0x15 then
       mbind (mget k_cons) (\<lambda>c.
       kill_line (unat (cons_e c - cons_w c)))
     else if ch = 8 \<or> ch = 0x7f then
       mbind (mget k_cons) (\<lambda>c.
       mwhen (cons_e c \<noteq> cons_w c) (
         mbind (cons_set (\<lambda>c. c\<lparr>cons_e := cons_e c - 1\<rparr>)) (\<lambda>_.
         kuart (consputc BACKSPACE))))
     else
       mbind (mget k_cons) (\<lambda>c.
       mwhen (ch \<noteq> 0 \<and> cons_e c - cons_r c < of_nat INPUT_BUF_SIZE) (
         let ch' = (if ch = 0x0d then 0x0a else ch) in
         mbind (kuart (consputc (uint ch'))) (\<lambda>_.
         mbind (cons_set (cons_store ch')) (\<lambda>_.
         mbind (mget k_cons) (\<lambda>c'.
         mwhen (ch' = 0x0a \<or> ch' = 4 \<or> cons_e c' - cons_r c' = of_nat INPUT_BUF_SIZE) (
           mbind (cons_set (\<lambda>c. c\<lparr>cons_w := cons_e c\<rparr>)) (\<lambda>_.
           kpt (wakeup me Chan_cons)))))))))"

text \<open>\<open>uartintr\<close> of \<open>kernel/uart.c\<close>: one round per input byte waiting.\<close>

fun uartintr_loop :: "nat \<Rightarrow> nat option \<Rightarrow> (kernel, unit) km" where
  "uartintr_loop 0 me = mdiverge"
| "uartintr_loop (Suc fuel) me =
    mbind (kuart uartgetc) (\<lambda>c.
    case c of
      None \<Rightarrow> mret ()
    | Some ch \<Rightarrow>
        mbind (consoleintr me ch) (\<lambda>_.
        uartintr_loop fuel me))"

definition uartintr :: "nat option \<Rightarrow> (kernel, unit) km" where
  "uartintr me =
    mbind (mget (\<lambda>s. length (u_rx (k_uart s)))) (\<lambda>n.
    mbind (uartintr_loop (Suc n) me) (\<lambda>_.
    uart_wake me (mmod uartstart)))"

definition consoleinit :: "(kernel, unit) km" where
  "consoleinit =
    mbind (kuart (mmod uartinit)) (\<lambda>_.
    mmod (k_devsw_update (\<lambda>d. d(CONSOLE := True))))"

section \<open>The line editor\<close>

text \<open>The finished input, the line being edited, and both together.\<close>

definition cons_done :: "cons \<Rightarrow> u8 list" where
  "cons_done c = ring_contents (cons_buf c) INPUT_BUF_SIZE (cons_r c) (cons_w c)"

definition cons_line :: "cons \<Rightarrow> u8 list" where
  "cons_line c = ring_contents (cons_buf c) INPUT_BUF_SIZE (cons_w c) (cons_e c)"

definition cons_all :: "cons \<Rightarrow> u8 list" where
  "cons_all c = ring_contents (cons_buf c) INPUT_BUF_SIZE (cons_r c) (cons_e c)"

definition cons_ok :: "cons \<Rightarrow> bool" where
  "cons_ok c \<longleftrightarrow> unat (cons_e c - cons_r c) \<le> INPUT_BUF_SIZE
     \<and> unat (cons_w c - cons_r c) \<le> unat (cons_e c - cons_r c) \<and> 0x0a \<notin> set (cons_line c)"

text \<open>What the user of the console sees: the effect of a key on the finished input and the line.\<close>

fun edit :: "u8 \<Rightarrow> u8 list \<times> u8 list \<Rightarrow> u8 list \<times> u8 list" where
  "edit ch (ready, line) =
    (if ch = 0x10 \<or> ch = 0 then (ready, line)
     else if ch = 0x15 then (ready, [])
     else if ch = 8 \<or> ch = 0x7f then (ready, butlast line)
     else if length ready + length line < INPUT_BUF_SIZE then
       let ch' = (if ch = 0x0d then 0x0a else ch) in
       if ch' = 0x0a \<or> ch' = 4 \<or> Suc (length ready + length line) = INPUT_BUF_SIZE
       then (ready @ line @ [ch'], []) else (ready, line @ [ch'])
     else (ready, line))"

declare edit.simps [simp del]

lemma ring_contents_split:
  fixes r w e :: "'a::len word"
  assumes "unat (w - r) \<le> unat (e - r)"
  shows "ring_contents buf N r e = ring_contents buf N r w @ ring_contents buf N w e"
    and "unat (e - w) = unat (e - r) - unat (w - r)"
proof -
  have "unat (e - r - (w - r)) = unat (e - r) - unat (w - r)"
    using assms by (intro unat_sub) (simp add: word_le_nat_alt)
  then show d: "unat (e - w) = unat (e - r) - unat (w - r)" by simp
  have "w + of_nat i = r + of_nat (unat (w - r) + i)" for i by (simp add: algebra_simps)
  then have "ring_contents buf N w e = map (\<lambda>i. buf (unat (r + of_nat i) mod N)) [unat (w - r)..<unat (e - r)]"
    using assms unfolding ring_contents_def d
    by (intro nth_equalityI) (auto simp: add.commute)
  moreover have "[0..<unat (e - r)] = [0..<unat (w - r)] @ [unat (w - r)..<unat (e - r)]"
    using assms by (metis le_add_diff_inverse upt_add_eq_append zero_le)
  ultimately show "ring_contents buf N r e = ring_contents buf N r w @ ring_contents buf N w e"
    by (simp add: ring_contents_def)
qed

lemma cons_all_split: "cons_ok c \<Longrightarrow> cons_all c = cons_done c @ cons_line c"
  unfolding cons_all_def cons_done_def cons_line_def cons_ok_def by (blast intro: ring_contents_split)

lemma cons_lengths:
  assumes "cons_ok c"
  shows "length (cons_done c) + length (cons_line c) = unat (cons_e c - cons_r c)"
proof -
  have "length (cons_done c @ cons_line c) = length (cons_all c)" using cons_all_split [OF assms] by simp
  then show ?thesis by (simp add: cons_all_def)
qed

lemma cons_line_empty: "cons_line c = [] \<longleftrightarrow> cons_e c = cons_w c"
  by (auto simp: cons_line_def ring_contents_def unat_eq_zero)

text \<open>Erasing the last byte of the line.\<close>

lemma cons_erase:
  assumes ok: "cons_ok c" and ne: "cons_e c \<noteq> cons_w c"
  defines "c' \<equiv> c\<lparr>cons_e := cons_e c - 1\<rparr>"
  shows "cons_ok c'" "cons_done c' = cons_done c" "cons_line c' = butlast (cons_line c)"
    "cons_buf c (unat (cons_e c - 1) mod INPUT_BUF_SIZE) \<noteq> 0x0a"
proof -
  let ?n = "unat (cons_e c - cons_w c)"
  have pos: "0 < ?n" using ne by (simp add: unat_gt_0)
  have "unat (cons_e c - cons_w c - 1) = ?n - unat (1 :: u32)"
    using pos by (intro unat_sub) (simp add: word_le_nat_alt)
  then have n': "unat (cons_e c - 1 - cons_w c) = ?n - 1" by (simp add: algebra_simps)
  then show line: "cons_line c' = butlast (cons_line c)"
    using pos by (auto simp: cons_line_def c'_def ring_contents_def butlast_conv_take take_map intro!: nth_equalityI)
  show "cons_done c' = cons_done c" by (simp add: cons_done_def c'_def)
  have "cons_line c ! (?n - 1) = cons_buf c (unat (cons_e c - 1) mod INPUT_BUF_SIZE)"
    using pos by (simp add: cons_line_def ring_contents_def Suc_leI)
  moreover have "cons_line c ! (?n - 1) \<in> set (cons_line c)" using pos by (intro nth_mem) (simp add: cons_line_def)
  ultimately show "cons_buf c (unat (cons_e c - 1) mod INPUT_BUF_SIZE) \<noteq> 0x0a"
    using ok by (auto simp: cons_ok_def)
  have d: "?n = unat (cons_e c - cons_r c) - unat (cons_w c - cons_r c)"
    using ok unfolding cons_ok_def by (blast intro: ring_contents_split(2))
  have "unat (cons_e c - cons_r c - 1) = unat (cons_e c - cons_r c) - unat (1 :: u32)"
    using pos d by (intro unat_sub) (simp add: word_le_nat_alt)
  then have "unat (cons_e c - 1 - cons_r c) = unat (cons_e c - cons_r c) - 1" by (simp add: algebra_simps)
  moreover have "0x0a \<notin> set (cons_line c')" using ok line by (auto simp: cons_ok_def dest: in_set_butlastD)
  ultimately show "cons_ok c'"
    using ok pos d by (auto simp: cons_ok_def c'_def)
qed

text \<open>Storing a byte at the end of the line, and handing the line to the readers.\<close>

lemma cons_store:
  assumes ok: "cons_ok c" and room: "unat (cons_e c - cons_r c) < INPUT_BUF_SIZE"
  shows "cons_done (cons_store ch c) = cons_done c" "cons_line (cons_store ch c) = cons_line c @ [ch]"
    "cons_all (cons_store ch c) = cons_all c @ [ch]"
    "unat (cons_e (cons_store ch c) - cons_r (cons_store ch c)) = Suc (unat (cons_e c - cons_r c))"
    "ch \<noteq> 0x0a \<Longrightarrow> cons_ok (cons_store ch c)"
proof -
  let ?d = "cons_store ch c" and ?a = "unat (cons_w c - cons_r c)"
  have dv: "INPUT_BUF_SIZE dvd 2 ^ LENGTH(32)" "INPUT_BUF_SIZE < 2 ^ LENGTH(32)"
    by (simp_all add: INPUT_BUF_SIZE_def)
  show all: "cons_all ?d = cons_all c @ [ch]"
    using ring_push(1) [OF dv(1) room dv(2)] by (simp add: cons_all_def cons_store_def)
  show len: "unat (cons_e ?d - cons_r ?d) = Suc (unat (cons_e c - cons_r c))"
    using ring_push(2) [OF dv(1) room dv(2)] by (simp add: cons_store_def)
  have a: "?a \<le> unat (cons_e c - cons_r c)" using ok by (simp add: cons_ok_def)
  have split: "cons_all ?d = cons_done ?d @ cons_line ?d"
    using a len unfolding cons_all_def cons_done_def cons_line_def
    by (intro ring_contents_split) (simp add: cons_store_def)
  have "length (cons_done ?d) = length (cons_done c)" by (simp add: cons_done_def cons_store_def)
  with split all cons_all_split [OF ok] show don: "cons_done ?d = cons_done c" and lin: "cons_line ?d = cons_line c @ [ch]"
    by auto
  show "cons_ok ?d" if "ch \<noteq> 0x0a"
    using ok that room len lin by (auto simp: cons_ok_def) (simp_all add: cons_store_def)
qed

lemma cons_commit:
  assumes "cons_all c = xs" "unat (cons_e c - cons_r c) \<le> INPUT_BUF_SIZE"
  defines "c' \<equiv> c\<lparr>cons_w := cons_e c\<rparr>"
  shows "cons_ok c'" "cons_done c' = xs" "cons_line c' = []"
  using assms by (auto simp: cons_ok_def cons_line_def cons_done_def cons_all_def ring_contents_def)

section \<open>Correctness of the interrupt handler\<close>

text \<open>A UART that keeps becoming ready.\<close>

definition uart_live :: "uart \<Rightarrow> bool" where
  "uart_live u \<longleftrightarrow> \<not> u_panicked u \<and> (\<forall>k. \<exists>j\<ge>k. u_lsr u j)"

lemma uartputc_sync_live:
  assumes "uart_live u"
  shows "wp (uartputc_sync c) (\<lambda>_. uart_live) u"
proof -
  from assms obtain j where "u_lsr u j" "u_reads u \<le> j" by (auto simp: uart_live_def)
  from wait_idle_returns [of "u_lsr u", OF this] obtain i where "wait_idle (u_lsr u) (u_reads u) = Some (Suc i)" by blast
  then show ?thesis using assms
    by (simp add: uartputc_sync_def wp_def km_defs) (simp add: uart_live_def WriteReg_def)
qed

lemma consputc_live: "uart_live u \<Longrightarrow> wp (consputc c) (\<lambda>_. uart_live) u"
  unfolding consputc_def wp_if
  by (simp add: uartputc_sync_live) (intro impI wp_seq [OF uartputc_sync_live] uartputc_sync_live)

lemma printf_live:
  assumes "printf_text fmt as = Some t" "uart_live u"
  shows "wp (printf fmt as) (\<lambda>_. uart_live) u"
  unfolding printf_def assms(1) option.case
  by (rule wp_mfor [where I = "\<lambda>k. uart_live"]) (auto simp: assms(2) consputc_live)

text \<open>Output leaves everything but the UART as it is.\<close>

definition echoes :: "kernel \<Rightarrow> kernel \<Rightarrow> bool" where
  "echoes s t \<longleftrightarrow> uart_live (k_uart t) \<and> (\<exists>u. t = s\<lparr>k_uart := u\<rparr>)"

lemma echoes_refl: "uart_live (k_uart s) \<Longrightarrow> echoes s s"
  unfolding echoes_def by (metis kernel.surjective kernel.update_convs(3))

lemma echoes_wp:
  assumes "echoes s0 s" "\<And>u. uart_live u \<Longrightarrow> wp m (\<lambda>_. uart_live) u"
  shows "wp (kuart m) (\<lambda>_. echoes s0) s"
  using assms by (auto simp: kuart_def wp_mzoom echoes_def intro!: wp_cong_post [OF assms(2)])

lemma procdump_text: "\<exists>t. printf_text ''%d %s %s'' [Aint x, Astr (Some a), Astr (Some b)] = Some t"
proof -
  obtain t where "printint (scast x) 10 True = Some t" using printint_int by blast
  then show ?thesis
    by (simp add: printf_text_def format_text.simps conversion_def at0_def num_def widen_def)
qed

lemma newline_text: "printf_text newline [] = Some newline"
  by (simp add: printf_text_def newline_def format_text.simps)

lemma procdump_echoes:
  assumes "uart_live (k_uart s)"
  shows "wp procdump (\<lambda>_. echoes s) s"
proof -
  have nl: "wp (kuart (printf newline [])) (\<lambda>_. echoes s) t" if "echoes s t" for t
    using that by (rule echoes_wp) (rule printf_live [OF newline_text])
  have row: "wp (kuart (printf ''%d %s %s'' [Aint x, Astr (Some a), Astr (Some b)])) (\<lambda>_. echoes s) t"
    if "echoes s t" for t x a b
    using procdump_text [of x a b] that by (auto intro: echoes_wp printf_live)
  show ?thesis
    unfolding procdump_def
  proof (rule wp_seq [OF nl [OF echoes_refl [OF assms]]])
    fix x t assume "echoes s t"
    then show "wp (mfor [0..<NPROC] (\<lambda>p.
      mbind (mget (proc_at p)) (\<lambda>x.
      mwhen (p_state x \<noteq> UNUSED) (
        mbind (kuart (printf ''%d %s %s''
          [Aint (of_int (p_pid x)), Astr (Some (state_name (p_state x))), Astr (Some (str_text 16 (p_name x)))])) (\<lambda>_.
        kuart (printf newline [])))))) (\<lambda>_. echoes s) t"
      by (rule wp_mfor [where I = "\<lambda>k. echoes s"]) (auto simp: wp_simps intro: wp_cong_post [OF row] nl)
  qed
qed

lemma cons_set_wp [wp_simps]: "wp (cons_set f) Q s = Q () (s\<lparr>k_cons := f (k_cons s)\<rparr>)"
  by (simp add: cons_set_def wp_simps)

lemma kill_line_spec:
  assumes "n = unat (cons_e (k_cons s) - cons_w (k_cons s))" "cons_ok (k_cons s)" "uart_live (k_uart s)"
  shows "wp (kill_line n) (\<lambda>_ t. cons_ok (k_cons t) \<and> cons_line (k_cons t) = []
    \<and> cons_done (k_cons t) = cons_done (k_cons s) \<and> uart_live (k_uart t) \<and> (\<exists>c u. t = s\<lparr>k_cons := c, k_uart := u\<rparr>)) s"
  using assms
proof (induction n arbitrary: s)
  case 0
  then have "cons_line (k_cons s) = []" by (simp add: cons_line_def ring_contents_def)
  moreover have "\<exists>c u. s = s\<lparr>k_cons := c, k_uart := u\<rparr>" by (metis kernel.surjective kernel.update_convs(3,4))
  ultimately show ?case using 0 by (simp add: wp_simps)
next
  case (Suc n)
  let ?c = "k_cons s"
  let ?s = "s\<lparr>k_cons := ?c\<lparr>cons_e := cons_e ?c - 1\<rparr>\<rparr>"
  have ne: "cons_e ?c \<noteq> cons_w ?c" using Suc.prems(1) by auto
  note erase = cons_erase [OF Suc.prems(2) ne]
  have n: "n = unat (cons_e (k_cons ?s) - cons_w (k_cons ?s))"
  proof -
    have "length (cons_line (k_cons ?s)) = length (cons_line ?c) - 1" using erase(3) by simp
    then show ?thesis using Suc.prems(1) by (simp add: cons_line_def)
  qed
  have "wp (kill_line n) (\<lambda>_ t. cons_ok (k_cons t) \<and> cons_line (k_cons t) = []
      \<and> cons_done (k_cons t) = cons_done ?c \<and> uart_live (k_uart t) \<and> (\<exists>c u. t = s\<lparr>k_cons := c, k_uart := u\<rparr>)) t"
    if t: "echoes ?s t" for t
  proof -
    from t obtain u where u: "t = ?s\<lparr>k_uart := u\<rparr>" "uart_live u" by (auto simp: echoes_def)
    have "n = unat (cons_e (k_cons t) - cons_w (k_cons t))" "cons_ok (k_cons t)" "uart_live (k_uart t)"
      using n erase(1) u by simp_all
    from Suc.IH [OF this] show ?thesis
      by (rule wp_cong_post) (use erase(2) u(1) in auto)
  qed
  moreover have "wp (kuart (consputc BACKSPACE)) (\<lambda>_. echoes ?s) ?s"
    by (rule echoes_wp) (simp_all add: echoes_refl Suc.prems(3) consputc_live)
  ultimately show ?case
    using ne erase(4) by (simp add: wp_simps) (erule wp_cong_post, simp)
qed

lemma wakeup_wp: "(\<And>pt. Q () (s\<lparr>k_pt := pt\<rparr>)) \<Longrightarrow> wp (kpt (wakeup me ch)) Q s"
  by (simp add: kpt_def wp_mzoom) (simp add: wp_def wakeup_eq)

text \<open>The two cases of \<open>consoleintr\<close> that change the line by one byte.\<close>

definition key_ok :: "u8 \<Rightarrow> kernel \<Rightarrow> kernel \<Rightarrow> bool" where
  "key_ok ch s t \<longleftrightarrow> cons_ok (k_cons t) \<and> uart_live (k_uart t) \<and> k_fs t = k_fs s
     \<and> (cons_done (k_cons t), cons_line (k_cons t)) = edit ch (cons_done (k_cons s), cons_line (k_cons s))"

lemma intr_erase:
  assumes "cons_ok (k_cons s)" "uart_live (k_uart s)" "ch = 8 \<or> ch = 0x7f"
  shows "wp (consoleintr me ch) (\<lambda>_. key_ok ch s) s"
proof (cases "cons_e (k_cons s) = cons_w (k_cons s)")
  case True
  then have "cons_line (k_cons s) = []" by (simp add: cons_line_empty)
  then show ?thesis using assms True by (auto simp: consoleintr_def wp_simps key_ok_def edit.simps)
next
  case False
  let ?s = "s\<lparr>k_cons := (k_cons s)\<lparr>cons_e := cons_e (k_cons s) - 1\<rparr>\<rparr>"
  have "wp (kuart (consputc BACKSPACE)) (\<lambda>_. echoes ?s) ?s"
    by (rule echoes_wp) (simp_all add: echoes_refl assms(2) consputc_live)
  then have "wp (kuart (consputc BACKSPACE)) (\<lambda>_. key_ok ch s) ?s"
    by (rule wp_cong_post) (use assms(3) cons_erase(1,2,3) [OF assms(1) False] in \<open>auto simp: echoes_def key_ok_def edit.simps\<close>)
  then show ?thesis using assms(3) False by (auto simp: consoleintr_def wp_simps)
qed

lemma intr_store:
  assumes ok: "cons_ok (k_cons s)" and live: "uart_live (k_uart s)"
    and ch: "ch \<notin> {0x10, 0x15, 8, 0x7f, 0}" and room: "unat (cons_e (k_cons s) - cons_r (k_cons s)) < INPUT_BUF_SIZE"
  shows "wp (consoleintr me ch) (\<lambda>_. key_ok ch s) s"
proof -
  define ch' where "ch' = (if ch = 0x0d then 0x0a else ch)"
  note st = cons_store [OF ok room, of ch']
  let ?c = "cons_store ch' (k_cons s)"
  define fin where "fin \<longleftrightarrow> ch' = 0x0a \<or> ch' = 4 \<or> Suc (length (cons_done (k_cons s)) + length (cons_line (k_cons s))) = INPUT_BUF_SIZE"
  have full: "cons_e ?c - cons_r ?c = of_nat INPUT_BUF_SIZE \<longleftrightarrow> Suc (length (cons_done (k_cons s)) + length (cons_line (k_cons s))) = INPUT_BUF_SIZE"
    using st(4) cons_lengths [OF ok] by (simp add: word_unat_eq_iff INPUT_BUF_SIZE_def)
  have ed: "edit ch (cons_done (k_cons s), cons_line (k_cons s)) =
      (if fin then (cons_all ?c, []) else (cons_done ?c, cons_line ?c))"
    using ch room cons_lengths [OF ok] st(1,2,3) cons_all_split [OF ok] by (simp add: edit.simps fin_def ch'_def Let_def)
  have commit: "cons_ok (?c\<lparr>cons_w := cons_e ?c\<rparr>)" "cons_done (?c\<lparr>cons_w := cons_e ?c\<rparr>) = cons_all ?c"
      "cons_line (?c\<lparr>cons_w := cons_e ?c\<rparr>) = []"
    by (rule cons_commit [OF refl]; use st(4) room in simp)+
  have "wp (kuart (consputc (uint ch'))) (\<lambda>_. echoes s) s"
    by (rule echoes_wp) (simp_all add: echoes_refl live consputc_live)
  moreover define rest where "rest = mbind (cons_set (cons_store ch')) (\<lambda>_.
         mbind (mget k_cons) (\<lambda>c'.
         mwhen (ch' = 0x0a \<or> ch' = 4 \<or> cons_e c' - cons_r c' = of_nat INPUT_BUF_SIZE) (
           mbind (cons_set (\<lambda>c. c\<lparr>cons_w := cons_e c\<rparr>)) (\<lambda>_.
           kpt (wakeup me Chan_cons)))))"
  have "wp rest (\<lambda>_. key_ok ch s) t" if "echoes s t" for t
  proof -
    from that obtain u where u: "t = s\<lparr>k_uart := u\<rparr>" "uart_live u" by (auto simp: echoes_def)
    have "\<not> fin \<Longrightarrow> cons_ok ?c" using st(5) by (auto simp: fin_def)
    then show ?thesis
      by (auto simp: rest_def wp_simps u full fin_def [symmetric] key_ok_def ed commit intro!: wakeup_wp)
  qed
  ultimately have "wp (mbind (kuart (consputc (uint ch'))) (\<lambda>_. rest)) (\<lambda>_. key_ok ch s) s" by (rule wp_seq)
  moreover have "cons_e (k_cons s) - cons_r (k_cons s) < of_nat INPUT_BUF_SIZE"
    using room by (simp add: word_less_nat_alt INPUT_BUF_SIZE_def)
  then have "consoleintr me ch s = mbind (kuart (consputc (uint ch'))) (\<lambda>_. rest) s"
    using ch by (simp add: consoleintr_def mget_bind mwhen_def Let_def rest_def ch'_def)
  ultimately show ?thesis by (simp add: wp_def)
qed


text \<open>A console on which \<open>hi\<close> has been typed; then newline.\<close>

definition example_console :: "kernel \<Rightarrow> kernel" where
  "example_console s = s\<lparr>k_cons := \<lparr>cons_buf = (\<lambda>_. 0)(0 := 0x68, 1 := 0x69), cons_r = 0, cons_w = 0, cons_e = 2\<rparr>,
     k_uart := \<lparr>u_buf = \<lambda>_. 0, u_w = 0, u_r = 0, u_panicked = False, u_writes = [], u_lsr = (\<lambda>k. True), u_reads = 0, u_rx = []\<rparr>\<rparr>"


end
