(* ===== verification/File.thy ===== *)
theory File
  imports Console
begin

text \<open>
  Open files (\<open>kernel/file.c\<close>), and the creation and closing of pipes (\<open>kernel/pipe.c\<close>).

  A \<open>struct file\<close> is shared by the descriptors that refer to it and counts them in \<open>ref\<close>. \<open>p\<close> is the
  calling process. The bytes of padding in the \<open>struct stat\<close> that \<open>filestat\<close> copies out are whatever
  the kernel stack holds: they are the argument \<open>stack\<close>.
\<close>

section \<open>The file table\<close>

definition fget :: "(file_entry \<Rightarrow> 'a) \<Rightarrow> nat \<Rightarrow> (kernel, 'a) km" where
  [km_defs]: "fget sel f = mget (\<lambda>s. sel (k_ftable s f))"

definition fset :: "nat \<Rightarrow> (file_entry \<Rightarrow> file_entry) \<Rightarrow> (kernel, unit) km" where
  [km_defs]: "fset f g = mmod (\<lambda>s. s\<lparr>k_ftable := (k_ftable s)(f := g (k_ftable s f))\<rparr>)"

definition filealloc :: "(kernel, nat) km" where
  "filealloc =
    mbind (mget (\<lambda>s. List.find (\<lambda>f. f_ref (k_ftable s f) = 0) [1..<Suc NFILE])) (\<lambda>r.
    case r of
      Some f \<Rightarrow>
        mbind (fset f (f_ref_update (\<lambda>_. 1))) (\<lambda>_.
        mret f)
    | None \<Rightarrow> mret 0)"

definition filedup :: "nat \<Rightarrow> (kernel, nat) km" where
  "filedup f =
    mbind (fget f_ref f) (\<lambda>r.
    mbind (mpanic_if (r < 1) ''filedup'') (\<lambda>_.
    mbind (fset f (f_ref_update (\<lambda>r. r + 1))) (\<lambda>_.
    mret f)))"

definition pipe_set :: "u64 \<Rightarrow> (pipe \<Rightarrow> pipe) \<Rightarrow> (kernel, unit) km" where
  [km_defs]: "pipe_set pi g = mmod (\<lambda>s. s\<lparr>k_pipes := (k_pipes s)(pi := g (k_pipes s pi))\<rparr>)"

definition pipeclose :: "nat \<Rightarrow> u64 \<Rightarrow> bool \<Rightarrow> (kernel, unit) km" where
  "pipeclose p pi writable =
    mbind (if writable then
        mbind (pipe_set pi (pi_writeopen_update (\<lambda>_. False))) (\<lambda>_.
        kpt (wakeup (Some p) (Chan_pipe_read pi)))
      else
        mbind (pipe_set pi (pi_readopen_update (\<lambda>_. False))) (\<lambda>_.
        kpt (wakeup (Some p) (Chan_pipe_write pi)))) (\<lambda>_.
    mbind (mget (\<lambda>s. k_pipes s pi)) (\<lambda>x.
    mwhen (\<not> pi_readopen x \<and> \<not> pi_writeopen x) (kmemory (kfree pi))))"

definition fileclose :: "nat \<Rightarrow> nat \<Rightarrow> (kernel, unit) km" where
  "fileclose p f =
    mbind (fget f_ref f) (\<lambda>r.
    mbind (mpanic_if (r < 1) ''fileclose'') (\<lambda>_.
    mbind (fset f (f_ref_update (\<lambda>r. r - 1))) (\<lambda>_.
    if r - 1 > 0 then mret ()
    else
      mbind (fget id f) (\<lambda>ff.
      mbind (fset f (\<lambda>x. x\<lparr>f_ref := 0, f_type := FD_NONE\<rparr>)) (\<lambda>_.
      case f_type ff of
        FD_PIPE \<Rightarrow> pipeclose p (f_pipe ff) (f_writable ff)
      | FD_NONE \<Rightarrow> mret ()
      | _ \<Rightarrow>
          mbind op_begin (\<lambda>_.
          mbind (fsop p (\<lambda>me. iput me (f_ip ff))) (\<lambda>_.
          op_end p)))))))"

definition stat_size :: nat where "stat_size = 32"

definition stat_bytes :: "block \<Rightarrow> stat \<Rightarrow> u8 list" where
  "stat_bytes stack st =
    load_bytes 0 stat_size (put16 24 (st_mode st) (put64 16 (st_size st) (put16 10 (st_nlink st)
      (put16 8 (st_type st) (put32 4 (st_ino st) (put32 0 (st_dev st) stack))))))"

definition filestat :: "block \<Rightarrow> nat \<Rightarrow> nat \<Rightarrow> u64 \<Rightarrow> (kernel, int) km" where
  "filestat stack p f addr =
    mbind (fget id f) (\<lambda>x.
    if f_type x = FD_INODE \<or> f_type x = FD_DEVICE then
      mbind (fsop p (\<lambda>me. ilock me (f_ip x))) (\<lambda>_.
      mbind (kfs (stati (f_ip x))) (\<lambda>st.
      mbind (fsop p (\<lambda>me. iunlock me (f_ip x))) (\<lambda>_.
      mbind (kcopyout p addr (stat_bytes stack st)) (\<lambda>r.
      if r < 0 then mret (- 1) else mret 0))))
    else mret (- 1))"

section \<open>Reading and writing\<close>

text \<open>A run of \<open>piperead\<close> or \<open>pipewrite\<close> on the pipe at \<open>pi\<close>.\<close>

definition pipe_zoom :: "u64 \<Rightarrow> (pipe_st, 'a) km \<Rightarrow> (kernel, 'a) km" where
  [km_defs]: "pipe_zoom pi =
    mzoom (\<lambda>s. \<lparr>ps_pipe = k_pipes s pi, ps_mem = fs_mem (k_fs s)\<rparr>)
      (\<lambda>g s. let t = g \<lparr>ps_pipe = k_pipes s pi, ps_mem = fs_mem (k_fs s)\<rparr> in
         s\<lparr>k_pipes := (k_pipes s)(pi := ps_pipe t), k_fs := (k_fs s)\<lparr>fs_mem := ps_mem t\<rparr>\<rparr>)"

text \<open>The calls with the \<open>wakeup\<close> of the other side; \<open>-1\<close> is returned before it.\<close>

definition file_piperead :: "nat \<Rightarrow> u64 \<Rightarrow> u64 \<Rightarrow> int \<Rightarrow> (kernel, int) km" where
  "file_piperead p pi addr n =
    mbind (kpt (killed p)) (\<lambda>kld.
    mbind (my p_pagetable p) (\<lambda>pt.
    mbind (pipe_zoom pi (piperead kld pt addr n)) (\<lambda>out.
    case out of
      Asleep i \<Rightarrow> mblock
    | Return i \<Rightarrow>
        mbind (mwhen (i \<ge> 0) (kpt (wakeup (Some p) (Chan_pipe_write pi)))) (\<lambda>_.
        mret i))))"

definition file_pipewrite :: "nat \<Rightarrow> u64 \<Rightarrow> u64 \<Rightarrow> int \<Rightarrow> (kernel, int) km" where
  "file_pipewrite p pi addr n =
    mbind (kpt (killed p)) (\<lambda>kld.
    mbind (my p_pagetable p) (\<lambda>pt.
    mbind (pipe_zoom pi (pipewrite kld pt addr n 0)) (\<lambda>out.
    case out of
      Asleep i \<Rightarrow> mblock
    | Return i \<Rightarrow>
        mbind (mwhen (i \<ge> 0) (kpt (wakeup (Some p) (Chan_pipe_read pi)))) (\<lambda>_.
        mret i))))"

text \<open>Whether \<open>devsw[major]\<close> has functions; only the console has.\<close>

definition bad_device :: "u16 \<Rightarrow> (kernel, bool) km" where
  "bad_device major =
    mget (\<lambda>s. sint major < 0 \<or> sint major \<ge> int NDEV \<or> \<not> k_devsw s (nat (sint major)))"

definition fileread :: "nat \<Rightarrow> nat \<Rightarrow> u64 \<Rightarrow> int \<Rightarrow> (kernel, int) km" where
  "fileread p f addr n =
    mbind (fget id f) (\<lambda>x.
    if \<not> f_readable x then mret (- 1)
    else case f_type x of
      FD_PIPE \<Rightarrow> file_piperead p (f_pipe x) addr n
    | FD_DEVICE \<Rightarrow>
        mbind (bad_device (f_major x)) (\<lambda>bad.
        if bad then mret (- 1)
        else
          mbind (my p_pagetable p) (\<lambda>pt.
          mbind (consoleread p (Uaddr pt addr) n) (\<lambda>out.
          case out of Asleep i \<Rightarrow> mblock | Return i \<Rightarrow> mret i)))
    | FD_INODE \<Rightarrow>
        mbind (fsop p (\<lambda>me. ilock me (f_ip x))) (\<lambda>_.
        mbind (my p_pagetable p) (\<lambda>pt.
        mbind (fget f_off f) (\<lambda>off.
        mbind (fsop p (\<lambda>me. readi me (f_ip x) (Uaddr pt addr) off (of_int n))) (\<lambda>(r, dst).
        mbind (mwhen (r > 0) (fset f (f_off_update (\<lambda>off. off + of_int r)))) (\<lambda>_.
        mbind (fsop p (\<lambda>me. iunlock me (f_ip x))) (\<lambda>_.
        mret r))))))
    | FD_NONE \<Rightarrow> mpanic ''fileread'')"

definition write_max :: int where
  "write_max = int ((MAXOPBLOCKS - 1 - 1 - 2) div 2 * BSIZE)"

text \<open>The loop of \<open>filewrite\<close> over transactions; its result is \<open>i\<close>.\<close>

function filewrite_loop :: "nat \<Rightarrow> nat \<Rightarrow> nat \<Rightarrow> u64 \<Rightarrow> u64 \<Rightarrow> int \<Rightarrow> int \<Rightarrow> (kernel, int) km" where
  "filewrite_loop p f ip pt addr n i =
    (if i < n then
       let n1 = min (n - i) write_max in
       mbind op_begin (\<lambda>_.
       mbind (fsop p (\<lambda>me. ilock me ip)) (\<lambda>_.
       mbind (fget f_off f) (\<lambda>off.
       mbind (fsop p (\<lambda>me. writei me ip (Uaddr pt (addr + of_int i)) off (of_int n1))) (\<lambda>r.
       mbind (mwhen (r > 0) (fset f (f_off_update (\<lambda>off. off + of_int r)))) (\<lambda>_.
       mbind (fsop p (\<lambda>me. iunlock me ip)) (\<lambda>_.
       mbind (op_end p) (\<lambda>_.
       if r \<noteq> n1 then mret i
       else filewrite_loop p f ip pt addr n (i + r))))))))
     else mret i)"
  by pat_completeness auto
termination
  by (relation "measure (\<lambda>(p, f, ip, pt, addr, n, i). nat (n - i))")
    (auto simp: write_max_def MAXOPBLOCKS_def BSIZE_def)

declare filewrite_loop.simps [simp del]

definition filewrite :: "nat \<Rightarrow> nat \<Rightarrow> u64 \<Rightarrow> int \<Rightarrow> (kernel, int) km" where
  "filewrite p f addr n =
    mbind (fget id f) (\<lambda>x.
    if \<not> f_writable x then mret (- 1)
    else case f_type x of
      FD_PIPE \<Rightarrow> file_pipewrite p (f_pipe x) addr n
    | FD_DEVICE \<Rightarrow>
        mbind (bad_device (f_major x)) (\<lambda>bad.
        if bad then mret (- 1)
        else
          mbind (my p_pagetable p) (\<lambda>pt.
          consolewrite p (Uaddr pt addr) n))
    | FD_INODE \<Rightarrow>
        mbind (my p_pagetable p) (\<lambda>pt.
        mbind (filewrite_loop p f (f_ip x) pt addr n 0) (\<lambda>i.
        mret (if i = n then n else - 1)))
    | FD_NONE \<Rightarrow> mpanic ''filewrite'')"

section \<open>Pipes\<close>

text \<open>\<open>pipealloc\<close>: the C result and the two files. Its label \<open>bad\<close> is reached with \<open>pi\<close> still null.\<close>

definition pipealloc_bad :: "nat \<Rightarrow> nat \<Rightarrow> nat \<Rightarrow> (kernel, int \<times> nat \<times> nat) km" where
  "pipealloc_bad p f0 f1 =
    mbind (mwhen (f0 \<noteq> 0) (fileclose p f0)) (\<lambda>_.
    mbind (mwhen (f1 \<noteq> 0) (fileclose p f1)) (\<lambda>_.
    mret (- 1, f0, f1)))"

definition pipealloc :: "nat \<Rightarrow> (kernel, int \<times> nat \<times> nat) km" where
  "pipealloc p =
    mbind filealloc (\<lambda>f0.
    if f0 = 0 then pipealloc_bad p f0 0
    else
      mbind filealloc (\<lambda>f1.
      if f1 = 0 then pipealloc_bad p f0 f1
      else
        mbind (kmemory kalloc) (\<lambda>pi.
        if pi = 0 then pipealloc_bad p f0 f1
        else
          mbind (pipe_set pi (\<lambda>x. x\<lparr>pi_readopen := True, pi_writeopen := True, pi_nwrite := 0, pi_nread := 0\<rparr>)) (\<lambda>_.
          mbind (fset f0 (\<lambda>x. x\<lparr>f_type := FD_PIPE, f_readable := True, f_writable := False, f_pipe := pi\<rparr>)) (\<lambda>_.
          mbind (fset f1 (\<lambda>x. x\<lparr>f_type := FD_PIPE, f_readable := False, f_writable := True, f_pipe := pi\<rparr>)) (\<lambda>_.
          mret (0, f0, f1)))))))"

end
