(* ===== verification/Process.thy ===== *)
theory Process
  imports File
begin

text \<open>
  Creating, copying and ending processes: the part of \<open>kernel/proc.c\<close> that moves memory and files.

  The addresses of code that the linker chooses, \<open>trampoline\<close> and \<open>forkret\<close>, are arguments. The trap frame
  of a process lies in its page of physical memory; its fields are 64-bit words at the offsets that
  \<open>kernel/proc.h\<close> gives. A null pointer that the code dereferences traps in the kernel, which panics in
  \<open>kerneltrap\<close>.
\<close>

section \<open>Trap frames\<close>

definition TF_kernel_satp :: u64 where "TF_kernel_satp = 0"
definition TF_kernel_sp :: u64 where "TF_kernel_sp = 8"
definition TF_kernel_trap :: u64 where "TF_kernel_trap = 16"
definition TF_epc :: u64 where "TF_epc = 24"
definition TF_kernel_hartid :: u64 where "TF_kernel_hartid = 32"
definition TF_sp :: u64 where "TF_sp = 48"
definition TF_a0 :: u64 where "TF_a0 = 112"
definition TF_a1 :: u64 where "TF_a1 = 120"
definition TF_a7 :: u64 where "TF_a7 = 168"
definition TF_size :: u64 where "TF_size = 288"

definition tf_load :: "nat \<Rightarrow> u64 \<Rightarrow> (kernel, u64) km" where
  "tf_load p off = mbind (my p_trapframe p) (\<lambda>tf. kmemory (kload64 (tf + off)))"

definition tf_store :: "nat \<Rightarrow> u64 \<Rightarrow> u64 \<Rightarrow> (kernel, unit) km" where
  "tf_store p off w = mbind (my p_trapframe p) (\<lambda>tf. kmemory (kstore64 (tf + off) w))"

section \<open>Page tables of processes\<close>

definition proc_pagetable :: "u64 \<Rightarrow> u64 \<Rightarrow> (kmem, u64) km" where
  "proc_pagetable trampoline trapframe =
    mbind uvmcreate (\<lambda>pagetable.
    if pagetable = 0 then mret 0
    else
      mbind (mappages pagetable TRAMPOLINE PGSIZE trampoline (PTE_R OR PTE_X)) (\<lambda>r.
      if r < 0 then
        mbind (uvmfree pagetable 0) (\<lambda>_.
        mret 0)
      else
        mbind (mappages pagetable TRAPFRAME PGSIZE trapframe (PTE_R OR PTE_W)) (\<lambda>r.
        if r < 0 then
          mbind (uvmunmap pagetable TRAMPOLINE 1 False) (\<lambda>_.
          mbind (uvmfree pagetable 0) (\<lambda>_.
          mret 0))
        else mret pagetable)))"

definition proc_freepagetable :: "u64 \<Rightarrow> u64 \<Rightarrow> (kmem, unit) km" where
  "proc_freepagetable pagetable sz =
    mbind (uvmunmap pagetable TRAMPOLINE 1 False) (\<lambda>_.
    mbind (uvmunmap pagetable TRAPFRAME 1 False) (\<lambda>_.
    uvmfree pagetable sz))"

section \<open>Slots of the process table\<close>

definition freeproc :: "nat \<Rightarrow> (kernel, unit) km" where
  "freeproc p =
    mbind (my p_trapframe p) (\<lambda>tf.
    mbind (mwhen (tf \<noteq> 0) (kmemory (kfree tf))) (\<lambda>_.
    mbind (kpt (pset p (p_trapframe_update (\<lambda>_. 0)))) (\<lambda>_.
    mbind (my p_pagetable p) (\<lambda>pt.
    mbind (my p_sz p) (\<lambda>sz.
    mbind (mwhen (pt \<noteq> 0) (kmemory (proc_freepagetable pt sz))) (\<lambda>_.
    kpt (clear_proc p)))))))"

definition allocproc :: "u64 \<Rightarrow> u64 \<Rightarrow> (kernel, nat option) km" where
  "allocproc trampoline forkret =
    mbind (kpt find_unused) (\<lambda>r.
    case r of
      None \<Rightarrow> mret None
    | Some p \<Rightarrow>
        mbind (kpt (claim_proc p)) (\<lambda>_.
        mbind (kmemory kalloc) (\<lambda>tf.
        mbind (kpt (pset p (p_trapframe_update (\<lambda>_. tf)))) (\<lambda>_.
        if tf = 0 then
          mbind (freeproc p) (\<lambda>_.
          mret None)
        else
          mbind (kmemory (proc_pagetable trampoline tf)) (\<lambda>pt.
          mbind (kpt (pset p (p_pagetable_update (\<lambda>_. pt)))) (\<lambda>_.
          if pt = 0 then
            mbind (freeproc p) (\<lambda>_.
            mret None)
          else
            mbind (my p_kstack p) (\<lambda>kstack.
            mbind (kpt (pset p (p_context_update (\<lambda>_. \<lparr>ctx_ra = forkret, ctx_sp = kstack + PGSIZE, ctx_s = \<lambda>_. 0\<rparr>)))) (\<lambda>_.
            mret (Some p)))))))))"

text \<open>The program \<open>user/initcode.S\<close>, assembled.\<close>

definition initcode :: "u8 list" where
  "initcode =
    [0x17, 0x05, 0x00, 0x00, 0x13, 0x05, 0x45, 0x02,
     0x97, 0x05, 0x00, 0x00, 0x93, 0x85, 0x35, 0x02,
     0x93, 0x08, 0x70, 0x00, 0x73, 0x00, 0x00, 0x00,
     0x93, 0x08, 0x20, 0x00, 0x73, 0x00, 0x00, 0x00,
     0xef, 0xf0, 0x9f, 0xff, 0x2f, 0x69, 0x6e, 0x69,
     0x74, 0x00, 0x00, 0x24, 0x00, 0x00, 0x00, 0x00,
     0x00, 0x00, 0x00, 0x00]"

text \<open>\<open>userinit\<close> runs at boot, when no process is running: \<open>namei\<close> gets no pid and no directory.\<close>

definition userinit :: "u64 \<Rightarrow> u64 \<Rightarrow> (kernel, unit) km" where
  "userinit trampoline forkret =
    mbind (allocproc trampoline forkret) (\<lambda>r.
    mbind (mmod (\<lambda>s. s\<lparr>k_pt := (k_pt s)\<lparr>pt_initproc := r\<rparr>\<rparr>)) (\<lambda>_.
    case r of
      None \<Rightarrow> mpanic ''kerneltrap''
    | Some p \<Rightarrow>
        mbind (my p_pagetable p) (\<lambda>pt.
        mbind (kmemory (uvmfirst pt initcode)) (\<lambda>_.
        mbind (kpt (pset p (p_sz_update (\<lambda>_. PGSIZE)))) (\<lambda>_.
        mbind (tf_store p TF_epc 0) (\<lambda>_.
        mbind (tf_store p TF_sp PGSIZE) (\<lambda>_.
        mbind (kpt (pset p (p_name_update (\<lambda>nm. safestrcpy nm (lit_ptr ''initcode'') 16)))) (\<lambda>_.
        mbind (kfs (namei 0 0 (lit ''/''))) (\<lambda>ip.
        mbind (kpt (pset p (p_cwd_update (\<lambda>_. ip)))) (\<lambda>_.
        kpt (make_runnable p)))))))))))"

definition growproc :: "nat \<Rightarrow> int \<Rightarrow> (kernel, int) km" where
  "growproc p n =
    mbind (my p_sz p) (\<lambda>sz.
    mbind (my p_pagetable p) (\<lambda>pt.
    if n > 0 then
      mbind (kmemory (uvmalloc pt sz (sz + of_int n) PTE_W)) (\<lambda>sz'.
      if sz' = 0 then mret (- 1)
      else
        mbind (kpt (pset p (p_sz_update (\<lambda>_. sz')))) (\<lambda>_.
        mret 0))
    else
      mbind (if n < 0 then kmemory (uvmdealloc pt sz (sz + of_int n)) else mret sz) (\<lambda>sz'.
      mbind (kpt (pset p (p_sz_update (\<lambda>_. sz')))) (\<lambda>_.
      mret 0))))"

section \<open>fork, exit, wait\<close>

definition fork :: "u64 \<Rightarrow> u64 \<Rightarrow> nat \<Rightarrow> (kernel, int) km" where
  "fork trampoline forkret p =
    mbind (allocproc trampoline forkret) (\<lambda>r.
    case r of
      None \<Rightarrow> mret (- 1)
    | Some np \<Rightarrow>
        mbind (mget (proc_at p)) (\<lambda>x.
        mbind (mget (proc_at np)) (\<lambda>y.
        mbind (kmemory (uvmcopy (p_pagetable x) (p_pagetable y) (p_sz x))) (\<lambda>r.
        if r < 0 then
          mbind (freeproc np) (\<lambda>_.
          mret (- 1))
        else
          mbind (kpt (pset np (p_sz_update (\<lambda>_. p_sz x)))) (\<lambda>_.
          mbind (kmemory (kmemmove (p_trapframe y) (p_trapframe x) TF_size)) (\<lambda>_.
          mbind (tf_store np TF_a0 0) (\<lambda>_.
          mbind (mfor [0..<NOFILE] (\<lambda>i.
            mbind (my (\<lambda>x. p_ofile x i) p) (\<lambda>f.
            mwhen (f \<noteq> 0) (
              mbind (filedup f) (\<lambda>f'.
              kpt (pset np (\<lambda>y. y\<lparr>p_ofile := (p_ofile y)(i := f')\<rparr>))))))) (\<lambda>_.
          mbind (kfs (idup (p_cwd x))) (\<lambda>cwd.
          mbind (kpt (pset np (p_cwd_update (\<lambda>_. cwd)))) (\<lambda>_.
          mbind (kpt (pset np (p_name_update (\<lambda>nm. safestrcpy nm (p_name x) 16)))) (\<lambda>_.
          mbind (my p_pid np) (\<lambda>pid.
          mbind (kpt (pset np (p_parent_update (\<lambda>_. Some p)))) (\<lambda>_.
          mbind (kpt (make_runnable np)) (\<lambda>_.
          mret pid))))))))))))))"

text \<open>
  \<open>exit\<close> on CPU \<open>c\<close>. It does not return: the state is the one in which the scheduler continues. Waking
  the parent does nothing when there is none.
\<close>

definition exit :: "nat \<Rightarrow> nat \<Rightarrow> int \<Rightarrow> (kernel, unit) km" where
  "exit c p status =
    mbind (mget (\<lambda>s. pt_initproc (k_pt s))) (\<lambda>ini.
    mbind (mpanic_if (ini = Some p) ''init exiting'') (\<lambda>_.
    mbind (mfor [0..<NOFILE] (\<lambda>fd.
      mbind (my (\<lambda>x. p_ofile x fd) p) (\<lambda>f.
      mwhen (f \<noteq> 0) (
        mbind (fileclose p f) (\<lambda>_.
        kpt (pset p (\<lambda>x. x\<lparr>p_ofile := (p_ofile x)(fd := 0)\<rparr>))))))) (\<lambda>_.
    mbind op_begin (\<lambda>_.
    mbind (my p_cwd p) (\<lambda>cwd.
    mbind (fsop p (\<lambda>me. iput me cwd)) (\<lambda>_.
    mbind (op_end p) (\<lambda>_.
    mbind (kpt (pset p (p_cwd_update (\<lambda>_. 0)))) (\<lambda>_.
    mbind (kpt (reparent p)) (\<lambda>_.
    mbind (my p_parent p) (\<lambda>par.
    mbind (case par of None \<Rightarrow> mret () | Some q \<Rightarrow> kpt (wakeup (Some p) (Chan_proc q))) (\<lambda>_.
    kpt (exit_sched c p status))))))))))))"

text \<open>
  One scan of \<open>wait\<close> over the table. It reaps the first zombie child; a process with children but no
  zombie among them sleeps, unless it is killed.
\<close>

fun wait_scan :: "nat \<Rightarrow> u64 \<Rightarrow> nat list \<Rightarrow> bool \<Rightarrow> (kernel, int) km" where
  "wait_scan p addr [] havekids =
    mbind (kpt (killed p)) (\<lambda>kld.
    if \<not> havekids \<or> kld then mret (- 1) else mblock)"
| "wait_scan p addr (pp # pps) havekids =
    mbind (mget (proc_at pp)) (\<lambda>x.
    if p_parent x = Some p then
      if p_state x = ZOMBIE then
        mbind (if addr \<noteq> 0 then kcopyout p addr (bytes32 (of_int (p_xstate x))) else mret 0) (\<lambda>r.
        if r < 0 then mret (- 1)
        else
          mbind (freeproc pp) (\<lambda>_.
          mret (p_pid x)))
      else wait_scan p addr pps True
    else wait_scan p addr pps havekids)"

definition wait :: "nat \<Rightarrow> u64 \<Rightarrow> (kernel, int) km" where
  "wait p addr = wait_scan p addr [0..<NPROC] False"

end
