(* ===== verification/Syscall.thy ===== *)
theory Syscall
  imports Process
begin

text \<open>
  Arguments of system calls (\<open>kernel/syscall.c\<close>), the calls on processes and mutexes
  (\<open>kernel/sysproc.c\<close>) and \<open>sys_getprocs\<close> (\<open>kernel/proc.c\<close>).

  A system call is a function on the state of the kernel, called by process \<open>p\<close> on CPU \<open>c\<close>; its
  result is the \<open>uint64\<close> that goes to register \<open>a0\<close>.
\<close>

section \<open>Arguments\<close>

definition fetchaddr :: "nat \<Rightarrow> u64 \<Rightarrow> (kernel, int \<times> u64) km" where
  "fetchaddr p addr =
    mbind (my p_sz p) (\<lambda>sz.
    if addr \<ge> sz \<or> addr + 8 > sz then mret (- 1, 0)
    else
      mbind (kcopyin p addr 8) (\<lambda>(r, bs).
      if r \<noteq> 0 then mret (- 1, 0)
      else mret (0, get64 0 (bytes_fun bs))))"

text \<open>\<open>fetchstr\<close>: the C result and the string, without its terminator.\<close>

definition fetchstr :: "nat \<Rightarrow> u64 \<Rightarrow> nat \<Rightarrow> (kernel, int \<times> u8 list) km" where
  "fetchstr p addr mx =
    mbind (my p_pagetable p) (\<lambda>pt.
    mbind (kmemory (copyinstr pt addr mx)) (\<lambda>(r, bs).
    if r < 0 then mret (- 1, [])
    else
      let str = takeWhile (\<lambda>b. b \<noteq> 0) bs in
      mret (int (length str), str)))"

definition argraw :: "nat \<Rightarrow> nat \<Rightarrow> (kernel, u64) km" where
  "argraw p n =
    (if n \<le> 5 then tf_load p (TF_a0 + 8 * of_nat n) else mpanic ''argraw'')"

definition argint :: "nat \<Rightarrow> nat \<Rightarrow> (kernel, int) km" where
  "argint p n =
    mbind (argraw p n) (\<lambda>w.
    mret (sint (ucast w :: u32)))"

definition argaddr :: "nat \<Rightarrow> nat \<Rightarrow> (kernel, u64) km" where
  "argaddr p n = argraw p n"

definition argstr :: "nat \<Rightarrow> nat \<Rightarrow> nat \<Rightarrow> (kernel, int \<times> u8 list) km" where
  "argstr p n mx =
    mbind (argaddr p n) (\<lambda>addr.
    fetchstr p addr mx)"

section \<open>Processes\<close>

definition sys_exit :: "nat \<Rightarrow> nat \<Rightarrow> (kernel, u64) km" where
  "sys_exit c p =
    mbind (argint p 0) (\<lambda>n.
    mbind (exit c p n) (\<lambda>_.
    mret 0))"

definition sys_getpid :: "nat \<Rightarrow> (kernel, u64) km" where
  "sys_getpid p =
    mbind (my p_pid p) (\<lambda>pid.
    mret (of_int pid))"

definition sys_fork :: "u64 \<Rightarrow> u64 \<Rightarrow> nat \<Rightarrow> (kernel, u64) km" where
  "sys_fork trampoline forkret p =
    mbind (fork trampoline forkret p) (\<lambda>r.
    mret (of_int r))"

definition sys_wait :: "nat \<Rightarrow> (kernel, u64) km" where
  "sys_wait p =
    mbind (argaddr p 0) (\<lambda>addr.
    mbind (wait p addr) (\<lambda>r.
    mret (of_int r)))"

definition sys_sbrk :: "nat \<Rightarrow> (kernel, u64) km" where
  "sys_sbrk p =
    mbind (argint p 0) (\<lambda>n.
    mbind (my p_sz p) (\<lambda>addr.
    mbind (growproc p n) (\<lambda>r.
    if r < 0 then mret (- 1) else mret addr)))"

text \<open>
  The loop of \<open>sys_sleep\<close>, which is entered again after every tick; \<open>n\<close> is not negative, so the comparison
  is unsigned.
\<close>

definition sleep_until :: "nat \<Rightarrow> u32 \<Rightarrow> u32 \<Rightarrow> (kernel, outcome) km" where
  "sleep_until p n ticks0 =
    mbind (mget k_ticks) (\<lambda>ticks.
    if ticks - ticks0 < n then
      mbind (kpt (killed p)) (\<lambda>kld.
      mret (if kld then Return (- 1) else Asleep 0))
    else mret (Return 0))"

definition sys_sleep :: "nat \<Rightarrow> (kernel, u64) km" where
  "sys_sleep p =
    mbind (argint p 0) (\<lambda>n.
    mbind (mget k_ticks) (\<lambda>ticks0.
    mbind (sleep_until p (of_int (max n 0)) ticks0) (\<lambda>out.
    case out of Asleep i \<Rightarrow> mblock | Return r \<Rightarrow> mret (of_int r))))"

definition sys_kill :: "nat \<Rightarrow> (kernel, u64) km" where
  "sys_kill p =
    mbind (argint p 0) (\<lambda>pid.
    mbind (kpt (kill pid)) (\<lambda>r.
    mret (of_int r)))"

definition sys_uptime :: "(kernel, u64) km" where
  "sys_uptime = mget (\<lambda>s. ucast (k_ticks s))"

definition sys_freemem :: "(kernel, u64) km" where
  "sys_freemem = kmemory kalloc_free_memory"

section \<open>Mutexes\<close>

text \<open>A successful \<open>mutex_unlock\<close> or \<open>mutex_free\<close> wakes the processes waiting for the mutex.\<close>

definition mutex_wake :: "nat \<Rightarrow> int \<Rightarrow> int \<Rightarrow> (kernel, u64) km" where
  "mutex_wake p mutex_id r =
    mbind (mwhen (r = 0) (kpt (wakeup (Some p) (Chan_mutex (nat mutex_id))))) (\<lambda>_.
    mret (of_int r))"

definition sys_mutex_create :: "nat \<Rightarrow> (kernel, u64) km" where
  "sys_mutex_create p =
    mbind (my p_pid p) (\<lambda>pid.
    mbind (kmutex (mutex_create pid)) (\<lambda>r.
    mret (of_int r)))"

definition sys_mutex_lock :: "nat \<Rightarrow> (kernel, u64) km" where
  "sys_mutex_lock p =
    mbind (argint p 0) (\<lambda>mutex_id.
    mbind (my p_pid p) (\<lambda>pid.
    mbind (kmutex (mutex_lock pid mutex_id)) (\<lambda>r.
    mret (of_int r))))"

definition sys_mutex_unlock :: "nat \<Rightarrow> (kernel, u64) km" where
  "sys_mutex_unlock p =
    mbind (argint p 0) (\<lambda>mutex_id.
    mbind (my p_pid p) (\<lambda>pid.
    mbind (kmutex (mutex_unlock pid mutex_id)) (\<lambda>r.
    mutex_wake p mutex_id r)))"

definition sys_mutex_free :: "nat \<Rightarrow> (kernel, u64) km" where
  "sys_mutex_free p =
    mbind (argint p 0) (\<lambda>mutex_id.
    mbind (my p_pid p) (\<lambda>pid.
    mbind (kmutex (mutex_free pid mutex_id)) (\<lambda>r.
    mutex_wake p mutex_id r)))"

section \<open>The process listing\<close>

definition state_num :: "procstate \<Rightarrow> u32" where
  "state_num st = (case st of UNUSED \<Rightarrow> 0 | USED \<Rightarrow> 1 | SLEEPING \<Rightarrow> 2 | RUNNABLE \<Rightarrow> 3 | RUNNING \<Rightarrow> 4 | ZOMBIE \<Rightarrow> 5)"

definition proc_info_size :: nat where "proc_info_size = 24"

text \<open>\<open>info[count] = ...\<close>: the stores into the local array, at the offset of its entry \<open>count\<close>.\<close>

definition put_info :: "nat \<Rightarrow> proc \<Rightarrow> block \<Rightarrow> block" where
  "put_info count x info =
    (let o' = proc_info_size * count;
         info1 = put32 (o' + 4) (state_num (p_state x)) (put32 o' (of_int (p_pid x)) info);
         name = safestrcpy (\<lambda>i. info1 (o' + 8 + i)) (p_name x) 16
     in store_bytes (o' + 8) (load_bytes 0 16 name) info1)"

fun getprocs_loop :: "kernel \<Rightarrow> nat list \<Rightarrow> nat \<Rightarrow> block \<Rightarrow> nat \<times> block" where
  "getprocs_loop s [] count info = (count, info)"
| "getprocs_loop s (p # ps) count info =
    (if p_state (proc_at p s) \<noteq> UNUSED
     then getprocs_loop s ps (Suc count) (put_info count (proc_at p s) info)
     else getprocs_loop s ps count info)"

text \<open>\<open>stack\<close> is what the array \<open>info\<close> on the kernel stack holds before; bytes after a name are left as they are.\<close>

definition sys_getprocs :: "block \<Rightarrow> nat \<Rightarrow> (kernel, u64) km" where
  "sys_getprocs stack p =
    mbind (argaddr p 0) (\<lambda>info_addr.
    mbind (mget (\<lambda>s. getprocs_loop s [0..<NPROC] 0 stack)) (\<lambda>(count, info).
    mbind (if count > 0 then kcopyout p info_addr (load_bytes 0 (proc_info_size * count) info) else mret 0) (\<lambda>r.
    if r < 0 then mret (- 1) else mret (of_nat count))))"

end
