(* ===== verification/Exec.thy ===== *)
theory Exec
  imports Syscall
begin

text \<open>
  Replacing the image of a process (\<open>kernel/exec.c\<close>, with \<open>kernel/elf.h\<close>).

  \<open>path\<close> is the list of bytes before its terminator, \<open>argv\<close> the list of the kernel pages that hold the
  argument strings, without the null pointer at its end. The headers of the ELF file are read into local
  variables and decoded at the offsets of \<open>struct elfhdr\<close> and \<open>struct proghdr\<close>.
\<close>

section \<open>ELF\<close>

definition MAXARG :: nat where "MAXARG = 32"
definition MAXPATH :: nat where "MAXPATH = 128"
definition USERSTACK :: u64 where "USERSTACK = 1"
definition ELF_MAGIC :: u32 where "ELF_MAGIC = 0x464C457F"
definition ELF_PROG_LOAD :: u32 where "ELF_PROG_LOAD = 1"
definition elfhdr_size :: nat where "elfhdr_size = 64"
definition proghdr_size :: nat where "proghdr_size = 56"

record elfhdr =
  elf_magic :: u32
  elf_entry :: u64
  elf_phoff :: u64
  elf_phnum :: u16

definition get_elfhdr :: "block \<Rightarrow> elfhdr" where
  "get_elfhdr d = \<lparr>elf_magic = get32 0 d, elf_entry = get64 24 d, elf_phoff = get64 32 d, elf_phnum = get16 56 d\<rparr>"

record proghdr =
  ph_type :: u32
  ph_flags :: u32
  ph_off :: u64
  ph_vaddr :: u64
  ph_filesz :: u64
  ph_memsz :: u64

definition get_proghdr :: "block \<Rightarrow> proghdr" where
  "get_proghdr d = \<lparr>ph_type = get32 0 d, ph_flags = get32 4 d, ph_off = get64 8 d, ph_vaddr = get64 16 d,
     ph_filesz = get64 32 d, ph_memsz = get64 40 d\<rparr>"

definition flags2perm :: "u32 \<Rightarrow> u64" where
  "flags2perm flags =
    (let perm = (if flags AND 1 \<noteq> 0 then PTE_X else 0)
     in if flags AND 2 \<noteq> 0 then perm OR PTE_W else perm)"

section \<open>Loading\<close>

text \<open>The loop of \<open>loadseg\<close>, one round per page.\<close>

fun loadseg_loop :: "nat \<Rightarrow> nat \<Rightarrow> u64 \<Rightarrow> u64 \<Rightarrow> nat \<Rightarrow> u32 \<Rightarrow> u32 \<Rightarrow> u32 \<Rightarrow> (kernel, int) km" where
  "loadseg_loop 0 p pagetable va ip offset sz i = mdiverge"
| "loadseg_loop (Suc fuel) p pagetable va ip offset sz i =
    (if i < sz then
       mbind (kmemory (walkaddr pagetable (va + ucast i))) (\<lambda>pa.
       mbind (mpanic_if (pa = 0) ''loadseg: address should exist'') (\<lambda>_.
       let n = (if sz - i < 4096 then sz - i else 4096) in
       mbind (fsop p (\<lambda>me. readi me ip (Paddr pa) (offset + i) n)) (\<lambda>(r, dst).
       if r \<noteq> int (unat n) then mret (- 1)
       else loadseg_loop fuel p pagetable va ip offset sz (i + 4096))))
     else mret 0)"

definition loadseg :: "nat \<Rightarrow> u64 \<Rightarrow> u64 \<Rightarrow> nat \<Rightarrow> u32 \<Rightarrow> u32 \<Rightarrow> (kernel, int) km" where
  "loadseg p pagetable va ip offset sz =
    loadseg_loop (Suc (Suc (unat sz div 4096))) p pagetable va ip offset sz 0"

text \<open>
  The loop of \<open>exec\<close> over the program headers: whether it succeeded, and \<open>sz\<close> when it stopped. \<open>off\<close> is a
  C \<open>int\<close>.
\<close>

fun load_segments :: "nat \<Rightarrow> nat \<Rightarrow> u64 \<Rightarrow> nat \<Rightarrow> u32 \<Rightarrow> u64 \<Rightarrow> (kernel, bool \<times> u64) km" where
  "load_segments 0 p pagetable ip off sz = mret (True, sz)"
| "load_segments (Suc k) p pagetable ip off sz =
    mbind (fsop p (\<lambda>me. readi me ip (Local []) off (of_nat proghdr_size))) (\<lambda>(r, buf).
    if r \<noteq> int proghdr_size then mret (False, sz)
    else
      let ph = get_proghdr (local_bytes buf) in
      if ph_type ph \<noteq> ELF_PROG_LOAD then load_segments k p pagetable ip (off + of_nat proghdr_size) sz
      else if ph_memsz ph < ph_filesz ph then mret (False, sz)
      else if ph_vaddr ph + ph_memsz ph < ph_vaddr ph then mret (False, sz)
      else if ph_vaddr ph mod PGSIZE \<noteq> 0 then mret (False, sz)
      else
        mbind (kmemory (uvmalloc pagetable sz (ph_vaddr ph + ph_memsz ph) (flags2perm (ph_flags ph)))) (\<lambda>sz1.
        if sz1 = 0 then mret (False, sz)
        else
          mbind (loadseg p pagetable (ph_vaddr ph) ip (ucast (ph_off ph)) (ucast (ph_filesz ph))) (\<lambda>r.
          if r < 0 then mret (False, sz1)
          else load_segments k p pagetable ip (off + of_nat proghdr_size) sz1)))"

section \<open>The stack\<close>

text \<open>The string in the kernel page \<open>a\<close>.\<close>

definition page_string :: "u64 \<Rightarrow> (kernel, u8 list) km" where
  "page_string a = mget (\<lambda>s. takeWhile (\<lambda>b. b \<noteq> 0) (load_bytes (unat a) (unat PGSIZE) (pm (fs_mem (k_fs s)))))"

definition align16 :: "u64 \<Rightarrow> u64" where
  "align16 sp = sp - sp mod 16"

text \<open>
  The loop that pushes the argument strings: the stack pointer and the addresses of the strings, or
  \<open>None\<close> for \<open>goto bad\<close>. \<open>ustack\<close> are the addresses so far.
\<close>

fun push_args :: "u64 \<Rightarrow> u64 \<Rightarrow> u64 list \<Rightarrow> u64 \<Rightarrow> u64 list \<Rightarrow> (kernel, (u64 \<times> u64 list) option) km" where
  "push_args pagetable stackbase [] sp ustack = mret (Some (sp, ustack))"
| "push_args pagetable stackbase (a # argv) sp ustack =
    (if length ustack \<ge> MAXARG then mret None
     else
       mbind (page_string a) (\<lambda>str.
       let sp1 = align16 (sp - of_nat (length str + 1)) in
       if sp1 < stackbase then mret None
       else
         mbind (kmemory (copyout pagetable sp1 (str @ [0]))) (\<lambda>r.
         if r < 0 then mret None
         else push_args pagetable stackbase argv sp1 (ustack @ [sp1]))))"

text \<open>The last element of the path, for \<open>p->name\<close>.\<close>

definition last_elem :: "u8 list \<Rightarrow> u8 list" where
  "last_elem path = rev (takeWhile (\<lambda>b. b \<noteq> slash) (rev path))"

section \<open>exec\<close>

definition exec_bad :: "nat \<Rightarrow> u64 \<Rightarrow> u64 \<Rightarrow> nat \<Rightarrow> (kernel, int) km" where
  "exec_bad p pagetable sz ip =
    mbind (mwhen (pagetable \<noteq> 0) (kmemory (proc_freepagetable pagetable sz))) (\<lambda>_.
    mbind (mwhen (ip \<noteq> 0) (
      mbind (fsop p (\<lambda>me. iunlockput me ip)) (\<lambda>_.
      op_end p))) (\<lambda>_.
    mret (- 1)))"

text \<open>The second half of \<open>exec\<close>, once the segments are loaded and the file is closed.\<close>

definition exec_stack :: "nat \<Rightarrow> u8 list \<Rightarrow> u64 list \<Rightarrow> elfhdr \<Rightarrow> u64 \<Rightarrow> u64 \<Rightarrow> (kernel, int) km" where
  "exec_stack p path argv elf pagetable sz0 =
    mbind (my p_sz p) (\<lambda>oldsz.
    let sz = PGROUNDUP sz0 in
    mbind (kmemory (uvmalloc pagetable sz (sz + (USERSTACK + 1) * PGSIZE) PTE_W)) (\<lambda>sz1.
    if sz1 = 0 then exec_bad p pagetable sz 0
    else
      mbind (kmemory (uvmclear pagetable (sz1 - (USERSTACK + 1) * PGSIZE))) (\<lambda>_.
      let stackbase = sz1 - USERSTACK * PGSIZE in
      mbind (push_args pagetable stackbase argv sz1 []) (\<lambda>r.
      case r of
        None \<Rightarrow> exec_bad p pagetable sz1 0
      | Some (sp, ustack) \<Rightarrow>
          let argc = length ustack; sp1 = align16 (sp - of_nat ((argc + 1) * 8)) in
          if sp1 < stackbase then exec_bad p pagetable sz1 0
          else
            mbind (kmemory (copyout pagetable sp1 (concat (map bytes64 (ustack @ [0]))))) (\<lambda>r.
            if r < 0 then exec_bad p pagetable sz1 0
            else
              mbind (tf_store p TF_a1 sp1) (\<lambda>_.
              mbind (kpt (pset p (p_name_update (\<lambda>nm. safestrcpy nm (bytes_fun (last_elem path)) 16)))) (\<lambda>_.
              mbind (my p_pagetable p) (\<lambda>oldpagetable.
              mbind (kpt (pset p (\<lambda>x. x\<lparr>p_pagetable := pagetable, p_sz := sz1\<rparr>))) (\<lambda>_.
              mbind (tf_store p TF_epc (elf_entry elf)) (\<lambda>_.
              mbind (tf_store p TF_sp sp1) (\<lambda>_.
              mbind (kmemory (proc_freepagetable oldpagetable oldsz)) (\<lambda>_.
              mret (int argc)))))))))))))"

definition exec :: "u64 \<Rightarrow> nat \<Rightarrow> u8 list \<Rightarrow> u64 list \<Rightarrow> (kernel, int) km" where
  "exec trampoline p path argv =
    mbind op_begin (\<lambda>_.
    mbind (my p_cwd p) (\<lambda>cwd.
    mbind (fsop p (\<lambda>me. namei me cwd path)) (\<lambda>ip.
    if ip = 0 then
      mbind (op_end p) (\<lambda>_.
      mret (- 1))
    else
      mbind (fsop p (\<lambda>me. ilock me ip)) (\<lambda>_.
      mbind (fsop p (\<lambda>me. readi me ip (Local []) 0 (of_nat elfhdr_size))) (\<lambda>(r, buf).
      let elf = get_elfhdr (local_bytes buf) in
      if r \<noteq> int elfhdr_size \<or> elf_magic elf \<noteq> ELF_MAGIC then exec_bad p 0 0 ip
      else
        mbind (my p_trapframe p) (\<lambda>tf.
        mbind (kmemory (proc_pagetable trampoline tf)) (\<lambda>pagetable.
        if pagetable = 0 then exec_bad p 0 0 ip
        else
          mbind (load_segments (unat (elf_phnum elf)) p pagetable ip (ucast (elf_phoff elf)) 0) (\<lambda>(ok, sz).
          if \<not> ok then exec_bad p pagetable sz ip
          else
            mbind (fsop p (\<lambda>me. iunlockput me ip)) (\<lambda>_.
            mbind (op_end p) (\<lambda>_.
            exec_stack p path argv elf pagetable sz)))))))))) "

end
