(* ===== verification/Sysfile.thy ===== *)
theory Sysfile
  imports Exec
begin

text \<open>
  The system calls on files (\<open>kernel/sysfile.c\<close>), called by process \<open>p\<close>.
\<close>

section \<open>Descriptors\<close>

definition O_RDONLY :: u32 where "O_RDONLY = 0"
definition O_WRONLY :: u32 where "O_WRONLY = 1"
definition O_RDWR :: u32 where "O_RDWR = 2"
definition O_CREATE :: u32 where "O_CREATE = 0x200"
definition O_TRUNC :: u32 where "O_TRUNC = 0x400"
definition S_IRUSR :: u16 where "S_IRUSR = 4"
definition S_IWUSR :: u16 where "S_IWUSR = 2"
definition SEEK_SET :: int where "SEEK_SET = 0"
definition SEEK_CUR :: int where "SEEK_CUR = 1"
definition SEEK_END :: int where "SEEK_END = 2"

text \<open>\<open>argfd\<close>: the descriptor and its file, or \<open>None\<close> for the result -1.\<close>

definition argfd :: "nat \<Rightarrow> nat \<Rightarrow> (kernel, (nat \<times> nat) option) km" where
  "argfd p n =
    mbind (argint p n) (\<lambda>fd.
    if fd < 0 \<or> fd \<ge> int NOFILE then mret None
    else
      mbind (my (\<lambda>x. p_ofile x (nat fd)) p) (\<lambda>f.
      if f = 0 then mret None else mret (Some (nat fd, f))))"

definition ofile_set :: "nat \<Rightarrow> nat \<Rightarrow> nat \<Rightarrow> (kernel, unit) km" where
  [km_defs]: "ofile_set p fd f = kpt (pset p (\<lambda>x. x\<lparr>p_ofile := (p_ofile x)(fd := f)\<rparr>))"

text \<open>\<open>fdalloc\<close>: the lowest free descriptor, or \<open>None\<close> for the result -1.\<close>

definition fdalloc :: "nat \<Rightarrow> nat \<Rightarrow> (kernel, nat option) km" where
  "fdalloc p f =
    mbind (mget (\<lambda>s. List.find (\<lambda>fd. p_ofile (proc_at p s) fd = 0) [0..<NOFILE])) (\<lambda>r.
    case r of
      None \<Rightarrow> mret None
    | Some fd \<Rightarrow>
        mbind (ofile_set p fd f) (\<lambda>_.
        mret (Some fd)))"

definition sys_dup :: "nat \<Rightarrow> (kernel, u64) km" where
  "sys_dup p =
    mbind (argfd p 0) (\<lambda>r.
    case r of
      None \<Rightarrow> mret (- 1)
    | Some (fd0, f) \<Rightarrow>
        mbind (fdalloc p f) (\<lambda>r.
        case r of
          None \<Rightarrow> mret (- 1)
        | Some fd \<Rightarrow>
            mbind (filedup f) (\<lambda>_.
            mret (of_nat fd))))"

text \<open>
  The permission test of \<open>sys_read\<close> and \<open>sys_write\<close>, which looks at \<open>f->ip\<close> whatever the type of the file.
\<close>

definition forbidden :: "u16 \<Rightarrow> nat \<Rightarrow> (kernel, bool) km" where
  "forbidden perm f =
    mbind (fget f_ip f) (\<lambda>ip.
    mbind (kfs (mget (\<lambda>s. fs_itable s ip))) (\<lambda>i.
    mret (ip \<noteq> 0 \<and> i_mode i AND perm = 0 \<and> i_type i \<noteq> T_DIR)))"

definition sys_read :: "nat \<Rightarrow> (kernel, u64) km" where
  "sys_read p =
    mbind (argaddr p 1) (\<lambda>addr.
    mbind (argint p 2) (\<lambda>n.
    mbind (argfd p 0) (\<lambda>r.
    case r of
      None \<Rightarrow> mret (- 1)
    | Some (fd, f) \<Rightarrow>
        mbind (forbidden S_IRUSR f) (\<lambda>no.
        if no then mret (- 1)
        else
          mbind (fileread p f addr n) (\<lambda>r.
          mret (of_int r))))))"

definition sys_write :: "nat \<Rightarrow> (kernel, u64) km" where
  "sys_write p =
    mbind (argaddr p 1) (\<lambda>addr.
    mbind (argint p 2) (\<lambda>n.
    mbind (argfd p 0) (\<lambda>r.
    case r of
      None \<Rightarrow> mret (- 1)
    | Some (fd, f) \<Rightarrow>
        mbind (forbidden S_IWUSR f) (\<lambda>no.
        if no then mret (- 1)
        else
          mbind (filewrite p f addr n) (\<lambda>r.
          mret (of_int r))))))"

definition sys_close :: "nat \<Rightarrow> (kernel, u64) km" where
  "sys_close p =
    mbind (argfd p 0) (\<lambda>r.
    case r of
      None \<Rightarrow> mret (- 1)
    | Some (fd, f) \<Rightarrow>
        mbind (ofile_set p fd 0) (\<lambda>_.
        mbind (fileclose p f) (\<lambda>_.
        mret 0)))"

definition sys_fstat :: "block \<Rightarrow> nat \<Rightarrow> (kernel, u64) km" where
  "sys_fstat stack p =
    mbind (argaddr p 1) (\<lambda>st.
    mbind (argfd p 0) (\<lambda>r.
    case r of
      None \<Rightarrow> mret (- 1)
    | Some (fd, f) \<Rightarrow>
        mbind (filestat stack p f st) (\<lambda>r.
        mret (of_int r))))"

section \<open>Links\<close>

text \<open>Path lookups and inode operations on behalf of \<open>p\<close>.\<close>

definition knamei :: "nat \<Rightarrow> u8 list \<Rightarrow> (kernel, nat) km" where
  [km_defs]: "knamei p path = mbind (my p_cwd p) (\<lambda>cwd. fsop p (\<lambda>me. namei me cwd path))"

definition knameiparent :: "nat \<Rightarrow> u8 list \<Rightarrow> (kernel, nat \<times> ptr) km" where
  [km_defs]: "knameiparent p path = mbind (my p_cwd p) (\<lambda>cwd. fsop p (\<lambda>me. nameiparent me cwd path (\<lambda>_. 0)))"

definition ifield :: "(inode \<Rightarrow> 'a) \<Rightarrow> nat \<Rightarrow> (kernel, 'a) km" where
  [km_defs]: "ifield sel ip = kfs (iget_field sel ip)"

definition iassign :: "nat \<Rightarrow> (inode \<Rightarrow> inode) \<Rightarrow> (kernel, unit) km" where
  [km_defs]: "iassign ip g = kfs (iset ip g)"

text \<open>\<open>goto bad\<close> of \<open>sys_link\<close>.\<close>

definition sys_link_bad :: "nat \<Rightarrow> nat \<Rightarrow> (kernel, u64) km" where
  "sys_link_bad p ip =
    mbind (fsop p (\<lambda>me. ilock me ip)) (\<lambda>_.
    mbind (iassign ip (\<lambda>i. i\<lparr>i_nlink := i_nlink i - 1\<rparr>)) (\<lambda>_.
    mbind (fsop p (\<lambda>me. iupdate me ip)) (\<lambda>_.
    mbind (fsop p (\<lambda>me. iunlockput me ip)) (\<lambda>_.
    mbind (op_end p) (\<lambda>_.
    mret (- 1))))))"

definition sys_link :: "nat \<Rightarrow> (kernel, u64) km" where
  "sys_link p =
    mbind (argstr p 0 MAXPATH) (\<lambda>(r0, old).
    if r0 < 0 then mret (- 1)
    else
      mbind (argstr p 1 MAXPATH) (\<lambda>(r1, new).
      if r1 < 0 then mret (- 1)
      else
        mbind op_begin (\<lambda>_.
        mbind (knamei p old) (\<lambda>ip.
        if ip = 0 then
          mbind (op_end p) (\<lambda>_.
          mret (- 1))
        else
          mbind (fsop p (\<lambda>me. ilock me ip)) (\<lambda>_.
          mbind (ifield i_type ip) (\<lambda>t.
          if t = T_DIR then
            mbind (fsop p (\<lambda>me. iunlockput me ip)) (\<lambda>_.
            mbind (op_end p) (\<lambda>_.
            mret (- 1)))
          else
            mbind (iassign ip (\<lambda>i. i\<lparr>i_nlink := i_nlink i + 1\<rparr>)) (\<lambda>_.
            mbind (fsop p (\<lambda>me. iupdate me ip)) (\<lambda>_.
            mbind (fsop p (\<lambda>me. iunlock me ip)) (\<lambda>_.
            mbind (knameiparent p new) (\<lambda>(dp, name).
            if dp = 0 then sys_link_bad p ip
            else
              mbind (fsop p (\<lambda>me. ilock me dp)) (\<lambda>_.
              mbind (ifield i_dev dp) (\<lambda>ddev.
              mbind (ifield i_dev ip) (\<lambda>idev.
              mbind (ifield i_inum ip) (\<lambda>inum.
              mbind (if ddev \<noteq> idev then mret (- 1) else fsop p (\<lambda>me. dirlink me dp name inum)) (\<lambda>r.
              if r < 0 then
                mbind (fsop p (\<lambda>me. iunlockput me dp)) (\<lambda>_.
                sys_link_bad p ip)
              else
                mbind (fsop p (\<lambda>me. iunlockput me dp)) (\<lambda>_.
                mbind (fsop p (\<lambda>me. iput me ip)) (\<lambda>_.
                mbind (op_end p) (\<lambda>_.
                mret 0)))))))))))))))))) "

text \<open>The loop of \<open>isdirempty\<close> over the entries from offset \<open>off\<close>.\<close>

fun isdirempty_loop :: "nat \<Rightarrow> int \<Rightarrow> nat \<Rightarrow> u32 \<Rightarrow> (fs, bool) km" where
  "isdirempty_loop 0 me dp off = mdiverge"
| "isdirempty_loop (Suc fuel) me dp off =
    mbind (iget_field i_size dp) (\<lambda>sz.
    if off < sz then
      mbind (readi me dp (Local []) off (of_nat dirent_size)) (\<lambda>(r, buf).
      mbind (mpanic_if (r \<noteq> int dirent_size) ''isdirempty: readi'') (\<lambda>_.
      if de_inum (local_bytes buf) \<noteq> 0 then mret False
      else isdirempty_loop fuel me dp (off + of_nat dirent_size)))
    else mret True)"

definition isdirempty :: "int \<Rightarrow> nat \<Rightarrow> (fs, bool) km" where
  "isdirempty me dp =
    mbind (iget_field i_size dp) (\<lambda>sz.
    isdirempty_loop (Suc (Suc (unat sz div dirent_size))) me dp (of_nat (2 * dirent_size)))"

definition sys_unlink_bad :: "nat \<Rightarrow> nat \<Rightarrow> (kernel, u64) km" where
  "sys_unlink_bad p dp =
    mbind (fsop p (\<lambda>me. iunlockput me dp)) (\<lambda>_.
    mbind (op_end p) (\<lambda>_.
    mret (- 1)))"

definition sys_unlink :: "nat \<Rightarrow> (kernel, u64) km" where
  "sys_unlink p =
    mbind (argstr p 0 MAXPATH) (\<lambda>(r, path).
    if r < 0 then mret (- 1)
    else
      mbind op_begin (\<lambda>_.
      mbind (knameiparent p path) (\<lambda>(dp, name).
      if dp = 0 then
        mbind (op_end p) (\<lambda>_.
        mret (- 1))
      else
        mbind (fsop p (\<lambda>me. ilock me dp)) (\<lambda>_.
        if namecmp name (lit_ptr ''.'') = 0 \<or> namecmp name (lit_ptr ''..'') = 0 then sys_unlink_bad p dp
        else
          mbind (fsop p (\<lambda>me. dirlookup me dp name)) (\<lambda>(ip, off).
          if ip = 0 then sys_unlink_bad p dp
          else
            mbind (fsop p (\<lambda>me. ilock me ip)) (\<lambda>_.
            mbind (ifield i_nlink ip) (\<lambda>nlink.
            mbind (mpanic_if (sint nlink < 1) ''unlink: nlink < 1'') (\<lambda>_.
            mbind (ifield i_type ip) (\<lambda>t.
            mbind (if t = T_DIR then fsop p (\<lambda>me. isdirempty me ip) else mret True) (\<lambda>emp.
            if \<not> emp then
              mbind (fsop p (\<lambda>me. iunlockput me ip)) (\<lambda>_.
              sys_unlink_bad p dp)
            else
              mbind (fsop p (\<lambda>me. writei me dp (Local (replicate dirent_size 0)) off (of_nat dirent_size))) (\<lambda>r.
              mbind (mpanic_if (r \<noteq> int dirent_size) ''unlink: writei'') (\<lambda>_.
              mbind (mwhen (t = T_DIR) (
                mbind (iassign dp (\<lambda>i. i\<lparr>i_nlink := i_nlink i - 1\<rparr>)) (\<lambda>_.
                fsop p (\<lambda>me. iupdate me dp)))) (\<lambda>_.
              mbind (fsop p (\<lambda>me. iunlockput me dp)) (\<lambda>_.
              mbind (iassign ip (\<lambda>i. i\<lparr>i_nlink := i_nlink i - 1\<rparr>)) (\<lambda>_.
              mbind (fsop p (\<lambda>me. iupdate me ip)) (\<lambda>_.
              mbind (fsop p (\<lambda>me. iunlockput me ip)) (\<lambda>_.
              mbind (op_end p) (\<lambda>_.
              mret 0))))))))))))))))))"

section \<open>Creating and opening\<close>

definition create_fail :: "nat \<Rightarrow> nat \<Rightarrow> nat \<Rightarrow> (kernel, nat) km" where
  "create_fail p dp ip =
    mbind (iassign ip (i_nlink_update (\<lambda>_. 0))) (\<lambda>_.
    mbind (fsop p (\<lambda>me. iupdate me ip)) (\<lambda>_.
    mbind (fsop p (\<lambda>me. iunlockput me ip)) (\<lambda>_.
    mbind (fsop p (\<lambda>me. iunlockput me dp)) (\<lambda>_.
    mret 0))))"

text \<open>\<open>create\<close> returns a locked inode, or 0.\<close>

definition create :: "nat \<Rightarrow> u8 list \<Rightarrow> u16 \<Rightarrow> u16 \<Rightarrow> u16 \<Rightarrow> (kernel, nat) km" where
  "create p path typ major minor =
    mbind (knameiparent p path) (\<lambda>(dp, name).
    if dp = 0 then mret 0
    else
      mbind (fsop p (\<lambda>me. ilock me dp)) (\<lambda>_.
      mbind (fsop p (\<lambda>me. dirlookup me dp name)) (\<lambda>(ip, off).
      if ip \<noteq> 0 then
        mbind (fsop p (\<lambda>me. iunlockput me dp)) (\<lambda>_.
        mbind (fsop p (\<lambda>me. ilock me ip)) (\<lambda>_.
        mbind (ifield i_type ip) (\<lambda>t.
        if typ = T_FILE \<and> (t = T_FILE \<or> t = T_DEVICE) then mret ip
        else
          mbind (fsop p (\<lambda>me. iunlockput me ip)) (\<lambda>_.
          mret 0))))
      else
        mbind (ifield i_dev dp) (\<lambda>dev.
        mbind (fsop p (\<lambda>me. ialloc me dev typ)) (\<lambda>ip.
        if ip = 0 then
          mbind (fsop p (\<lambda>me. iunlockput me dp)) (\<lambda>_.
          mret 0)
        else
          mbind (fsop p (\<lambda>me. ilock me ip)) (\<lambda>_.
          mbind (iassign ip (\<lambda>i. i\<lparr>i_major := major, i_minor := minor, i_nlink := 1\<rparr>)) (\<lambda>_.
          mbind (fsop p (\<lambda>me. iupdate me ip)) (\<lambda>_.
          mbind (ifield i_inum ip) (\<lambda>inum.
          mbind (ifield i_inum dp) (\<lambda>dinum.
          mbind (if typ = T_DIR then
              mbind (fsop p (\<lambda>me. dirlink me ip (lit_ptr ''.'') inum)) (\<lambda>r.
              if r < 0 then mret r else fsop p (\<lambda>me. dirlink me ip (lit_ptr ''..'') dinum))
            else mret 0) (\<lambda>r.
          if r < 0 then create_fail p dp ip
          else
            mbind (fsop p (\<lambda>me. dirlink me dp name inum)) (\<lambda>r.
            if r < 0 then create_fail p dp ip
            else
              mbind (mwhen (typ = T_DIR) (
                mbind (iassign dp (\<lambda>i. i\<lparr>i_nlink := i_nlink i + 1\<rparr>)) (\<lambda>_.
                fsop p (\<lambda>me. iupdate me dp)))) (\<lambda>_.
              mbind (fsop p (\<lambda>me. iunlockput me dp)) (\<lambda>_.
              mbind (iassign ip (i_mode_update (\<lambda>_. S_IRUSR OR S_IWUSR))) (\<lambda>_.
              mret ip)))))))))))))))"

text \<open>The permission tests of \<open>sys_open\<close>.\<close>

definition open_forbidden :: "u32 \<Rightarrow> inode \<Rightarrow> bool" where
  "open_forbidden omode i \<longleftrightarrow>
     (omode AND O_RDONLY \<noteq> 0 \<and> i_mode i AND S_IRUSR = 0 \<and> i_type i \<noteq> T_DIR)
   \<or> (omode AND O_WRONLY \<noteq> 0 \<and> i_mode i AND S_IWUSR = 0 \<and> i_type i \<noteq> T_DIR)"

text \<open>The part of \<open>sys_open\<close> after the permission tests, with the inode \<open>ip\<close> locked.\<close>

definition open_file :: "nat \<Rightarrow> u32 \<Rightarrow> nat \<Rightarrow> (kernel, u64) km" where
  "open_file p omode ip =
    mbind filealloc (\<lambda>f.
    mbind (if f = 0 then mret None else fdalloc p f) (\<lambda>r.
    case r of
      None \<Rightarrow>
        mbind (mwhen (f \<noteq> 0) (fileclose p f)) (\<lambda>_.
        mbind (fsop p (\<lambda>me. iunlockput me ip)) (\<lambda>_.
        mbind (op_end p) (\<lambda>_.
        mret (- 1))))
    | Some fd \<Rightarrow>
        mbind (ifield id ip) (\<lambda>i.
        mbind (if i_type i = T_DEVICE
          then fset f (\<lambda>x. x\<lparr>f_type := FD_DEVICE, f_major := i_major i\<rparr>)
          else fset f (\<lambda>x. x\<lparr>f_type := FD_INODE, f_off := 0\<rparr>)) (\<lambda>_.
        mbind (fset f (\<lambda>x. x\<lparr>f_ip := ip, f_readable := (omode AND O_WRONLY = 0),
            f_writable := (omode AND O_WRONLY \<noteq> 0 \<or> omode AND O_RDWR \<noteq> 0)\<rparr>)) (\<lambda>_.
        mbind (mwhen (omode AND O_TRUNC \<noteq> 0 \<and> i_type i = T_FILE) (fsop p (\<lambda>me. itrunc me ip))) (\<lambda>_.
        mbind (fsop p (\<lambda>me. iunlock me ip)) (\<lambda>_.
        mbind (op_end p) (\<lambda>_.
        mret (of_nat fd)))))))))"

text \<open>The tests of \<open>sys_open\<close> on the locked inode. Note the missing \<open>end_op\<close> when permission is denied.\<close>

definition open_inode :: "nat \<Rightarrow> u32 \<Rightarrow> nat \<Rightarrow> (kernel, u64) km" where
  "open_inode p omode ip =
    mbind (ifield id ip) (\<lambda>i.
    if i_type i = T_DEVICE \<and> (sint (i_major i) < 0 \<or> sint (i_major i) \<ge> int NDEV) then
      mbind (fsop p (\<lambda>me. iunlockput me ip)) (\<lambda>_.
      mbind (op_end p) (\<lambda>_.
      mret (- 1)))
    else if open_forbidden omode i then
      mbind (fsop p (\<lambda>me. iunlockput me ip)) (\<lambda>_.
      mret (- 1))
    else open_file p omode ip)"

definition sys_open :: "nat \<Rightarrow> (kernel, u64) km" where
  "sys_open p =
    mbind (argint p 1) (\<lambda>om.
    let omode = of_int om :: u32 in
    mbind (argstr p 0 MAXPATH) (\<lambda>(n, path).
    if n < 0 then mret (- 1)
    else
      mbind op_begin (\<lambda>_.
      if omode AND O_CREATE \<noteq> 0 then
        mbind (create p path T_FILE 0 0) (\<lambda>ip.
        if ip = 0 then
          mbind (op_end p) (\<lambda>_.
          mret (- 1))
        else open_inode p omode ip)
      else
        mbind (knamei p path) (\<lambda>ip.
        if ip = 0 then
          mbind (op_end p) (\<lambda>_.
          mret (- 1))
        else
          mbind (fsop p (\<lambda>me. ilock me ip)) (\<lambda>_.
          mbind (ifield i_type ip) (\<lambda>t.
          if t = T_DIR \<and> omode \<noteq> O_RDONLY then
            mbind (fsop p (\<lambda>me. iunlockput me ip)) (\<lambda>_.
            mbind (op_end p) (\<lambda>_.
            mret (- 1)))
          else open_inode p omode ip))))))"

text \<open>The common end of \<open>sys_mkdir\<close> and \<open>sys_mknod\<close>.\<close>

definition make_node :: "nat \<Rightarrow> u16 \<Rightarrow> u16 \<Rightarrow> u16 \<Rightarrow> (kernel, u64) km" where
  "make_node p typ major minor =
    mbind (argstr p 0 MAXPATH) (\<lambda>(r, path).
    mbind (if r < 0 then mret 0 else create p path typ major minor) (\<lambda>ip.
    if ip = 0 then
      mbind (op_end p) (\<lambda>_.
      mret (- 1))
    else
      mbind (fsop p (\<lambda>me. iunlockput me ip)) (\<lambda>_.
      mbind (op_end p) (\<lambda>_.
      mret 0))))"

definition sys_mkdir :: "nat \<Rightarrow> (kernel, u64) km" where
  "sys_mkdir p =
    mbind op_begin (\<lambda>_.
    make_node p T_DIR 0 0)"

definition sys_mknod :: "nat \<Rightarrow> (kernel, u64) km" where
  "sys_mknod p =
    mbind op_begin (\<lambda>_.
    mbind (argint p 1) (\<lambda>major.
    mbind (argint p 2) (\<lambda>minor.
    make_node p T_DEVICE (of_int major) (of_int minor))))"

definition sys_chdir :: "nat \<Rightarrow> (kernel, u64) km" where
  "sys_chdir p =
    mbind op_begin (\<lambda>_.
    mbind (argstr p 0 MAXPATH) (\<lambda>(r, path).
    mbind (if r < 0 then mret 0 else knamei p path) (\<lambda>ip.
    if ip = 0 then
      mbind (op_end p) (\<lambda>_.
      mret (- 1))
    else
      mbind (fsop p (\<lambda>me. ilock me ip)) (\<lambda>_.
      mbind (ifield i_type ip) (\<lambda>t.
      if t \<noteq> T_DIR then
        mbind (fsop p (\<lambda>me. iunlockput me ip)) (\<lambda>_.
        mbind (op_end p) (\<lambda>_.
        mret (- 1)))
      else
        mbind (fsop p (\<lambda>me. iunlock me ip)) (\<lambda>_.
        mbind (my p_cwd p) (\<lambda>cwd.
        mbind (fsop p (\<lambda>me. iput me cwd)) (\<lambda>_.
        mbind (op_end p) (\<lambda>_.
        mbind (kpt (pset p (p_cwd_update (\<lambda>_. ip)))) (\<lambda>_.
        mret 0)))))))))) "

section \<open>exec, pipe, lseek, chmod\<close>

text \<open>
  The loop of \<open>sys_exec\<close> from index \<open>length pgs\<close>: whether all arguments were fetched, and the pages
  allocated for them. \<open>fetchstr\<close> stores what it read into the page also when it fails.
\<close>

fun fetch_args :: "nat \<Rightarrow> nat \<Rightarrow> u64 \<Rightarrow> u64 list \<Rightarrow> (kernel, bool \<times> u64 list) km" where
  "fetch_args 0 p uargv pgs = mret (False, pgs)"
| "fetch_args (Suc k) p uargv pgs =
    mbind (fetchaddr p (uargv + 8 * of_nat (length pgs))) (\<lambda>(r, uarg).
    if r < 0 then mret (False, pgs)
    else if uarg = 0 then mret (True, pgs)
    else
      mbind (kmemory kalloc) (\<lambda>page.
      if page = 0 then mret (False, pgs)
      else
        mbind (my p_pagetable p) (\<lambda>pt.
        mbind (kmemory (copyinstr pt uarg (unat PGSIZE))) (\<lambda>(r, bs).
        mbind (kmemory (mmod (\<lambda>s. s\<lparr>pm := store_bytes (unat page) bs (pm s)\<rparr>))) (\<lambda>_.
        if r < 0 then mret (False, pgs @ [page])
        else fetch_args k p uargv (pgs @ [page]))))))"

definition sys_exec :: "u64 \<Rightarrow> nat \<Rightarrow> (kernel, u64) km" where
  "sys_exec trampoline p =
    mbind (argaddr p 1) (\<lambda>uargv.
    mbind (argstr p 0 MAXPATH) (\<lambda>(r, path).
    if r < 0 then mret (- 1)
    else
      mbind (fetch_args MAXARG p uargv []) (\<lambda>(ok, pgs).
      mbind (if ok then exec trampoline p path pgs else mret (- 1)) (\<lambda>ret.
      mbind (mfor pgs (\<lambda>a. kmemory (kfree a))) (\<lambda>_.
      mret (of_int ret))))))"

definition sys_pipe_bad :: "nat \<Rightarrow> nat list \<Rightarrow> nat \<Rightarrow> nat \<Rightarrow> (kernel, u64) km" where
  "sys_pipe_bad p fds rfl wfl =
    mbind (mfor fds (\<lambda>fd. ofile_set p fd 0)) (\<lambda>_.
    mbind (fileclose p rfl) (\<lambda>_.
    mbind (fileclose p wfl) (\<lambda>_.
    mret (- 1))))"

definition sys_pipe :: "nat \<Rightarrow> (kernel, u64) km" where
  "sys_pipe p =
    mbind (argaddr p 0) (\<lambda>fdarray.
    mbind (pipealloc p) (\<lambda>(r, rfl, wfl).
    if r < 0 then mret (- 1)
    else
      mbind (fdalloc p rfl) (\<lambda>r0.
      case r0 of
        None \<Rightarrow> sys_pipe_bad p [] rfl wfl
      | Some fd0 \<Rightarrow>
          mbind (fdalloc p wfl) (\<lambda>r1.
          case r1 of
            None \<Rightarrow> sys_pipe_bad p [fd0] rfl wfl
          | Some fd1 \<Rightarrow>
              mbind (kcopyout p fdarray (bytes32 (of_nat fd0))) (\<lambda>c0.
              mbind (if c0 < 0 then mret c0 else kcopyout p (fdarray + 4) (bytes32 (of_nat fd1))) (\<lambda>c1.
              if c1 < 0 then sys_pipe_bad p [fd0, fd1] rfl wfl
              else mret 0))))))"

text \<open>
  \<open>sys_lseek\<close>. All comparisons with \<open>f->off\<close> and \<open>f->ip->size\<close> are unsigned, so the tests \<open>< 0\<close> on
  such sums never hold. \<open>lseek_offset\<close> is the new offset, or \<open>None\<close> for the result -1.
\<close>

definition lseek_offset :: "int \<Rightarrow> int \<Rightarrow> u32 \<Rightarrow> u32 \<Rightarrow> u32 option" where
  "lseek_offset whence offset off size' =
    (if whence = SEEK_SET then
       if offset < 0 \<or> of_int offset > size' then None else Some (of_int offset)
     else if whence = SEEK_CUR then
       if off + of_int offset < 0 \<or> off + of_int offset > size' then None else Some (off + of_int offset)
     else if whence = SEEK_END then
       if offset > 0 \<or> size' + of_int offset < 0 then None else Some (size' + of_int offset)
     else None)"

definition sys_lseek :: "nat \<Rightarrow> (kernel, u64) km" where
  "sys_lseek p =
    mbind (argfd p 0) (\<lambda>r.
    case r of
      None \<Rightarrow> mret (- 1)
    | Some (fd, f) \<Rightarrow>
        mbind (argint p 1) (\<lambda>offset.
        mbind (argint p 2) (\<lambda>whence.
        if whence = SEEK_SET \<and> offset < 0 \<or> whence = SEEK_END \<and> offset > 0 \<or> whence \<notin> {SEEK_SET, SEEK_CUR, SEEK_END}
        then mret (- 1)
        else
          mbind (fget id f) (\<lambda>x.
          mbind (mpanic_if (f_ip x = 0) ''kerneltrap'') (\<lambda>_.
          mbind (ifield i_size (f_ip x)) (\<lambda>sz.
          case lseek_offset whence offset (f_off x) sz of
            None \<Rightarrow> mret (- 1)
          | Some off' \<Rightarrow>
              mbind (fset f (f_off_update (\<lambda>_. off'))) (\<lambda>_.
              mret (ucast off'))))))))"

definition sys_chmod :: "nat \<Rightarrow> (kernel, u64) km" where
  "sys_chmod p =
    mbind (argint p 1) (\<lambda>mode.
    mbind (argstr p 0 MAXPATH) (\<lambda>(r, path).
    if r < 0 then
      mbind (kuart (printf ''C'est dans le premier que ca ndem'' [])) (\<lambda>_.
      mret (- 1))
    else
      mbind op_begin (\<lambda>_.
      mbind (knamei p path) (\<lambda>ip.
      if ip = 0 then
        mbind (op_end p) (\<lambda>_.
        mbind (kuart (printf ''Donc c'est alors dans le deuxieme que ca ndem'' [])) (\<lambda>_.
        mret (- 1)))
      else
        mbind (fsop p (\<lambda>me. ilock me ip)) (\<lambda>_.
        mbind (iassign ip (i_mode_update (\<lambda>_. of_int mode))) (\<lambda>_.
        mbind (fsop p (\<lambda>me. iupdate me ip)) (\<lambda>_.
        mbind (fsop p (\<lambda>me. iunlock me ip)) (\<lambda>_.
        mbind (op_end p) (\<lambda>_.
        mret 0)))))))))"

lemma of_int_u32: "0 \<le> k \<Longrightarrow> k < 2 ^ 32 \<Longrightarrow> uint (of_int k :: u32) = k"
  using uint_small [of k, where ?'a = 32] by simp

lemma u32_sum: "uint (x + of_int k :: u32) = (uint x + k) mod 2 ^ 32"
  by (simp add: uint_word_ariths uint_word_of_int mod_add_right_eq)

lemma mod_below: "- (2 ^ 32) \<le> k \<Longrightarrow> k < 0 \<Longrightarrow> k mod 2 ^ 32 = k + 2 ^ 32" for k :: int
proof -
  assume "- (2 ^ 32) \<le> k" "k < 0"
  then have "(k + 2 ^ 32) mod 2 ^ 32 = k + 2 ^ 32" by (intro mod_pos_pos_trivial) auto
  then show ?thesis by simp
qed

section \<open>Properties\<close>



end
