(* ===== verification/Virtio.thy ===== *)
theory Virtio
  imports Ring Kalloc
begin

text \<open>
  The driver of the virtio disk (\<open>kernel/virtio_disk.c\<close>, \<open>kernel/virtio.h\<close>).

  A request is a chain of three descriptors. The driver puts the number of its first descriptor into the
  available ring, the device answers in the used ring and raises an interrupt. \<open>virtio_disk_rw\<close>
  sleeps while the device works, so it is modelled by its part before the wait and its part after it.
  The memory that a descriptor points to is named instead of computed: the request header \<open>ops[i]\<close>,
  the data of a buffer, the status byte \<open>info[i].status\<close>. The registers of the device are a function for
  the values read and the list of the writes.

  \<open>wakeup\<close> lets sleeping callers retry and changes nothing here; \<open>virtio_disk_intr\<close> returns the
  buffers whose owners it wakes.
\<close>

section \<open>State\<close>

definition NUM :: nat where "NUM = 8"
definition VRING_DESC_F_NEXT :: u16 where "VRING_DESC_F_NEXT = 1"
definition VRING_DESC_F_WRITE :: u16 where "VRING_DESC_F_WRITE = 2"

datatype dma = Null | Op nat | Data nat | Status nat

record virtq_desc =
  d_addr :: dma
  d_len :: u32
  d_flags :: u16
  d_next :: u16

record virtio_blk_req =
  req_type :: u32
  req_sector :: u64

text \<open>
  \<open>vd_info\<close> and \<open>vd_status\<close> are the two fields of \<open>info[]\<close>; \<open>vd_busy b\<close> is \<open>b->disk\<close> of buffer \<open>b\<close>;
  \<open>vd_avail_idx\<close> and \<open>vd_dev_idx\<close> are \<open>avail->idx\<close> and \<open>used->idx\<close>.
\<close>

record vdisk =
  vd_desc :: "nat \<Rightarrow> virtq_desc"
  vd_avail :: "nat \<Rightarrow> u16"
  vd_avail_idx :: u16
  vd_used :: "nat \<Rightarrow> u32"
  vd_dev_idx :: u16
  vd_free :: "nat \<Rightarrow> bool"
  vd_used_idx :: u16
  vd_info :: "nat \<Rightarrow> nat option"
  vd_status :: "nat \<Rightarrow> u8"
  vd_ops :: "nat \<Rightarrow> virtio_blk_req"
  vd_busy :: "nat \<Rightarrow> bool"
  vd_read :: "nat \<Rightarrow> u32"
  vd_writes :: "(nat \<times> u32) list"

definition reg_write :: "nat \<Rightarrow> u32 \<Rightarrow> (vdisk, unit) km" where
  [km_defs]: "reg_write r w = mmod (\<lambda>s. s\<lparr>vd_writes := vd_writes s @ [(r, w)]\<rparr>)"

definition desc_set :: "nat \<Rightarrow> virtq_desc \<Rightarrow> vdisk \<Rightarrow> vdisk" where
  "desc_set i d s = s\<lparr>vd_desc := (vd_desc s)(i := d)\<rparr>"

section \<open>Initialisation\<close>

text \<open>The feature bits that the driver clears.\<close>

definition driver_features :: "u32 \<Rightarrow> u32" where
  "driver_features f = fold (\<lambda>b f. f AND NOT (push_bit b 1)) [5, 7, 11, 12, 27, 29, 28] f"

record vdisk_init =
  vi_disk :: vdisk
  vi_mem :: kmem

definition vdisk_op :: "(vdisk, 'a) km \<Rightarrow> (vdisk_init, 'a) km" where
  [km_defs]: "vdisk_op = mzoom vi_disk vi_disk_update"

definition vmem_op :: "(kmem, 'a) km \<Rightarrow> (vdisk_init, 'a) km" where
  [km_defs]: "vmem_op = mzoom vi_mem vi_mem_update"

definition zero_desc :: virtq_desc where
  "zero_desc = \<lparr>d_addr = Null, d_len = 0, d_flags = 0, d_next = 0\<rparr>"

definition write_addr :: "nat \<Rightarrow> u64 \<Rightarrow> (vdisk_init, unit) km" where
  "write_addr r a =
    mbind (vdisk_op (reg_write r (ucast a))) (\<lambda>_.
    vdisk_op (reg_write (r + 4) (ucast (drop_bit 32 a))))"

text \<open>
  The three pages are zeroed: no descriptor is in use and both rings are empty. The driver keeps
  them as \<open>vd_desc\<close>, \<open>vd_avail\<close> and \<open>vd_used\<close>; the bytes of the pages are not tracked further.
\<close>

definition virtio_disk_init :: "(vdisk_init, unit) km" where
  "virtio_disk_init =
    mbind (vdisk_op (mget vd_read)) (\<lambda>rd.
    mbind (mpanic_if (rd 0 \<noteq> 0x74726976 \<or> rd 4 \<noteq> 2 \<or> rd 8 \<noteq> 2 \<or> rd 0xc \<noteq> 0x554d4551) ''could not find virtio disk'') (\<lambda>_.
    mbind (vdisk_op (reg_write 0x70 0)) (\<lambda>_.
    mbind (vdisk_op (reg_write 0x70 1)) (\<lambda>_.
    mbind (vdisk_op (reg_write 0x70 (1 OR 2))) (\<lambda>_.
    mbind (vdisk_op (reg_write 0x20 (driver_features (rd 0x10)))) (\<lambda>_.
    mbind (vdisk_op (reg_write 0x70 (1 OR 2 OR 8))) (\<lambda>_.
    mbind (mpanic_if (rd 0x70 AND 8 = 0) ''virtio disk FEATURES_OK unset'') (\<lambda>_.
    mbind (vdisk_op (reg_write 0x30 0)) (\<lambda>_.
    mbind (mpanic_if (rd 0x44 \<noteq> 0) ''virtio disk should not be ready'') (\<lambda>_.
    mbind (mpanic_if (rd 0x34 = 0) ''virtio disk has no queue 0'') (\<lambda>_.
    mbind (mpanic_if (rd 0x34 < of_nat NUM) ''virtio disk max queue too short'') (\<lambda>_.
    mbind (vmem_op kalloc) (\<lambda>desc.
    mbind (vmem_op kalloc) (\<lambda>avail.
    mbind (vmem_op kalloc) (\<lambda>used.
    mbind (mpanic_if (desc = 0 \<or> avail = 0 \<or> used = 0) ''virtio disk kalloc'') (\<lambda>_.
    mbind (mfor [desc, avail, used] (\<lambda>a. vmem_op (mmod (\<lambda>m. m\<lparr>pm := memset (unat a) 0 (unat PGSIZE) (pm m)\<rparr>)))) (\<lambda>_.
    mbind (vdisk_op (mmod (\<lambda>s. s\<lparr>vd_desc := \<lambda>_. zero_desc, vd_avail := \<lambda>_. 0, vd_avail_idx := 0,
        vd_used := \<lambda>_. 0, vd_dev_idx := 0\<rparr>))) (\<lambda>_.
    mbind (vdisk_op (reg_write 0x38 (of_nat NUM))) (\<lambda>_.
    mbind (write_addr 0x80 desc) (\<lambda>_.
    mbind (write_addr 0x90 avail) (\<lambda>_.
    mbind (write_addr 0xa0 used) (\<lambda>_.
    mbind (vdisk_op (reg_write 0x44 1)) (\<lambda>_.
    mbind (vdisk_op (mmod (\<lambda>s. s\<lparr>vd_free := \<lambda>i. i < NUM \<or> vd_free s i\<rparr>))) (\<lambda>_.
    vdisk_op (reg_write 0x70 (rd 0x70 OR 4))))))))))))))))))))))))))"

section \<open>Descriptors\<close>

definition alloc_desc :: "(vdisk, nat option) km" where
  "alloc_desc =
    mbind (mget (\<lambda>s. List.find (vd_free s) [0..<NUM])) (\<lambda>r.
    case r of
      None \<Rightarrow> mret None
    | Some i \<Rightarrow>
        mbind (mmod (\<lambda>s. s\<lparr>vd_free := (vd_free s)(i := False)\<rparr>)) (\<lambda>_.
        mret (Some i)))"

definition free_desc :: "nat \<Rightarrow> (vdisk, unit) km" where
  "free_desc i =
    mbind (mpanic_if (i \<ge> NUM) ''free_desc 1'') (\<lambda>_.
    mbind (mget (\<lambda>s. vd_free s i)) (\<lambda>fr.
    mbind (mpanic_if fr ''free_desc 2'') (\<lambda>_.
    mmod (\<lambda>s. (desc_set i zero_desc s)\<lparr>vd_free := (vd_free s)(i := True)\<rparr>))))"

text \<open>A chain has at most \<open>NUM\<close> descriptors: freeing one twice panics.\<close>

fun free_chain_loop :: "nat \<Rightarrow> nat \<Rightarrow> (vdisk, unit) km" where
  "free_chain_loop 0 i = mdiverge"
| "free_chain_loop (Suc fuel) i =
    mbind (mget (\<lambda>s. vd_desc s i)) (\<lambda>d.
    mbind (free_desc i) (\<lambda>_.
    if d_flags d AND VRING_DESC_F_NEXT \<noteq> 0 then free_chain_loop fuel (unat (d_next d)) else mret ()))"

definition free_chain :: "nat \<Rightarrow> (vdisk, unit) km" where
  "free_chain i = free_chain_loop (Suc NUM) i"

definition alloc3_desc :: "(vdisk, (nat \<times> nat \<times> nat) option) km" where
  "alloc3_desc =
    mbind alloc_desc (\<lambda>r0.
    case r0 of
      None \<Rightarrow> mret None
    | Some i0 \<Rightarrow>
        mbind alloc_desc (\<lambda>r1.
        case r1 of
          None \<Rightarrow>
            mbind (free_desc i0) (\<lambda>_.
            mret None)
        | Some i1 \<Rightarrow>
            mbind alloc_desc (\<lambda>r2.
            case r2 of
              None \<Rightarrow>
                mbind (free_desc i0) (\<lambda>_.
                mbind (free_desc i1) (\<lambda>_.
                mret None))
            | Some i2 \<Rightarrow> mret (Some (i0, i1, i2)))))"

section \<open>Requests\<close>

text \<open>The stores of \<open>virtio_disk_rw\<close> that describe the request on buffer \<open>b\<close> to the device.\<close>

definition format_request :: "nat \<Rightarrow> bool \<Rightarrow> u32 \<Rightarrow> nat \<times> nat \<times> nat \<Rightarrow> vdisk \<Rightarrow> vdisk" where
  "format_request b write blockno idx s =
    (let (i0, i1, i2) = idx;
         s1 = s\<lparr>vd_ops := (vd_ops s)(i0 := \<lparr>req_type = (if write then 1 else 0), req_sector = ucast (blockno * 2)\<rparr>)\<rparr>;
         s2 = desc_set i0 \<lparr>d_addr = Op i0, d_len = 16, d_flags = VRING_DESC_F_NEXT, d_next = of_nat i1\<rparr> s1;
         s3 = desc_set i1 \<lparr>d_addr = Data b, d_len = 1024,
                d_flags = (if write then 0 else VRING_DESC_F_WRITE) OR VRING_DESC_F_NEXT, d_next = of_nat i2\<rparr> s2;
         s4 = s3\<lparr>vd_status := (vd_status s3)(i0 := 0xff)\<rparr>;
         s5 = desc_set i2 \<lparr>d_addr = Status i0, d_len = 1, d_flags = VRING_DESC_F_WRITE, d_next = 0\<rparr> s4;
         s6 = s5\<lparr>vd_busy := (vd_busy s5)(b := True), vd_info := (vd_info s5)(i0 := Some b)\<rparr>
     in s6\<lparr>vd_avail := (vd_avail s6)(unat (vd_avail_idx s6) mod NUM := of_nat i0), vd_avail_idx := vd_avail_idx s6 + 1\<rparr>)"

text \<open>
  \<open>virtio_disk_rw\<close> up to the wait for the device: the descriptors used, or \<open>None\<close> if it has to sleep until
  descriptors are free.
\<close>

definition virtio_disk_rw :: "nat \<Rightarrow> bool \<Rightarrow> u32 \<Rightarrow> (vdisk, (nat \<times> nat \<times> nat) option) km" where
  "virtio_disk_rw b write blockno =
    mbind alloc3_desc (\<lambda>r.
    case r of
      None \<Rightarrow> mret None
    | Some idx \<Rightarrow>
        mbind (mmod (format_request b write blockno idx)) (\<lambda>_.
        mbind (reg_write 0x50 0) (\<lambda>_.
        mret (Some idx))))"

text \<open>Its part after the wait; while \<open>b->disk\<close> is set it goes on sleeping.\<close>

definition virtio_disk_rw_end :: "nat \<Rightarrow> nat \<Rightarrow> (vdisk, unit) km" where
  "virtio_disk_rw_end b i0 =
    mbind (mget (\<lambda>s. vd_busy s b)) (\<lambda>busy.
    if busy then mblock
    else
      mbind (mmod (\<lambda>s. s\<lparr>vd_info := (vd_info s)(i0 := None)\<rparr>)) (\<lambda>_.
      free_chain i0))"

text \<open>
  The loop of \<open>virtio_disk_intr\<close> runs once per new entry of the used ring. An entry whose \<open>info[id].b\<close> is
  null would be dereferenced: the kernel traps and panics.
\<close>

fun virtio_intr_loop :: "nat \<Rightarrow> (vdisk, nat list) km" where
  "virtio_intr_loop 0 = mret []"
| "virtio_intr_loop (Suc k) =
    mbind (mget (\<lambda>s. unat (vd_used s (unat (vd_used_idx s) mod NUM)))) (\<lambda>id.
    mbind (mget (\<lambda>s. vd_status s id)) (\<lambda>st.
    mbind (mpanic_if (st \<noteq> 0) ''virtio_disk_intr status'') (\<lambda>_.
    mbind (mget (\<lambda>s. vd_info s id)) (\<lambda>r.
    case r of
      None \<Rightarrow> mpanic ''kerneltrap''
    | Some b \<Rightarrow>
        mbind (mmod (\<lambda>s. s\<lparr>vd_busy := (vd_busy s)(b := False), vd_used_idx := vd_used_idx s + 1\<rparr>)) (\<lambda>_.
        mbind (virtio_intr_loop k) (\<lambda>bs.
        mret (b # bs)))))))"

definition virtio_disk_intr :: "(vdisk, nat list) km" where
  "virtio_disk_intr =
    mbind (mget (\<lambda>s. vd_read s 0x60)) (\<lambda>isr.
    mbind (reg_write 0x64 (isr AND 3)) (\<lambda>_.
    mbind (mget (\<lambda>s. unat (vd_dev_idx s - vd_used_idx s))) (\<lambda>k.
    virtio_intr_loop k)))"

end
