(* ===== verification/Trap.thy ===== *)
theory Trap
  imports Sysfile Virtio
begin

text \<open>
  Entering and leaving the kernel: the system-call table (\<open>kernel/syscall.c\<close>), traps and interrupts
  (\<open>kernel/trap.c\<close>), the interrupt controller (\<open>kernel/plic.c\<close>), the first scheduling of a process
  (\<open>forkret\<close>) and booting (\<open>kernel/main.c\<close>, \<open>kernel/start.c\<close>).

  The state is the kernel, the disk driver and the control registers of the hart on which the
  code runs. Addresses that the linker chooses are fields of \<open>code\<close>. A handler that gives up the CPU
  ends its run there: \<open>exit\<close> never comes back, after \<open>yield\<close> the handler goes on when the process is
  scheduled again.
\<close>

section \<open>State\<close>

record code =
  at_trampoline :: u64
  at_uservec :: u64
  at_userret :: u64
  at_kernelvec :: u64
  at_usertrap :: u64
  at_forkret :: u64
  at_etext :: u64
  at_main :: u64

text \<open>
  The registers of a hart. \<open>h_irqs\<close> are the interrupts that the PLIC hands out on the next claims, \<open>h_mmio\<close> the
  writes to its registers.
\<close>

record hart =
  h_id :: nat
  h_sstatus :: u64
  h_sepc :: u64
  h_scause :: u64
  h_stval :: u64
  h_stvec :: u64
  h_satp :: u64
  h_time :: u64
  h_stimecmp :: u64
  h_irqs :: "u32 list"
  h_mmio :: "(u64 \<times> u32) list"

record machine =
  mc_kernel :: kernel
  mc_hart :: hart
  mc_vdisk :: vdisk

definition onk :: "(kernel, 'a) km \<Rightarrow> (machine, 'a) km" where
  [km_defs]: "onk = mzoom mc_kernel mc_kernel_update"

definition onv :: "(vdisk, 'a) km \<Rightarrow> (machine, 'a) km" where
  [km_defs]: "onv = mzoom mc_vdisk mc_vdisk_update"

definition csr :: "(hart \<Rightarrow> 'a) \<Rightarrow> (machine, 'a) km" where
  [km_defs]: "csr sel = mget (\<lambda>s. sel (mc_hart s))"

definition csrw :: "(hart \<Rightarrow> hart) \<Rightarrow> (machine, unit) km" where
  [km_defs]: "csrw g = mmod (\<lambda>s. s\<lparr>mc_hart := g (mc_hart s)\<rparr>)"

definition intr_on :: "(machine, unit) km" where
  "intr_on = csrw (\<lambda>h. h\<lparr>h_sstatus := h_sstatus h OR SSTATUS_SIE\<rparr>)"

definition intr_off :: "(machine, unit) km" where
  "intr_off = csrw (\<lambda>h. h\<lparr>h_sstatus := h_sstatus h AND NOT SSTATUS_SIE\<rparr>)"

definition intr_get :: "(machine, bool) km" where
  "intr_get = csr (\<lambda>h. h_sstatus h AND SSTATUS_SIE \<noteq> 0)"

section \<open>System calls\<close>

text \<open>The table \<open>syscalls[]\<close>, without \<open>sys_exit\<close>, which does not return. \<open>stack\<close> is what the kernel stack holds.\<close>

definition syscalls :: "code \<Rightarrow> block \<Rightarrow> nat \<Rightarrow> int \<Rightarrow> (kernel, u64) km option" where
  "syscalls A stack p nr =
    map_of
     [(1, sys_fork (at_trampoline A) (at_forkret A) p), (3, sys_wait p), (4, sys_pipe p), (5, sys_read p),
      (6, sys_kill p), (7, sys_exec (at_trampoline A) p), (8, sys_fstat stack p), (9, sys_chdir p), (10, sys_dup p),
      (11, sys_getpid p), (12, sys_sbrk p), (13, sys_sleep p), (14, sys_uptime), (15, sys_open p), (16, sys_write p),
      (17, sys_mknod p), (18, sys_unlink p), (19, sys_link p), (20, sys_mkdir p), (21, sys_close p), (22, sys_freemem),
      (23, sys_lseek p), (24, sys_chmod p), (25, sys_mutex_create p), (26, sys_mutex_lock p), (27, sys_mutex_unlock p),
      (28, sys_mutex_free p), (29, sys_getprocs stack p)] nr"

definition SYS_exit :: int where "SYS_exit = 2"

text \<open>\<open>syscall\<close>; the result tells whether the process goes on (it does not after \<open>exit\<close>).\<close>

definition syscall :: "code \<Rightarrow> block \<Rightarrow> nat \<Rightarrow> nat \<Rightarrow> (kernel, bool) km" where
  "syscall A stack c p =
    mbind (tf_load p TF_a7) (\<lambda>a7.
    let nr = sint (ucast a7 :: u32) in
    if nr = SYS_exit then
      mbind (sys_exit c p) (\<lambda>_.
      mret False)
    else case syscalls A stack p nr of
      Some f \<Rightarrow>
        mbind f (\<lambda>r.
        mbind (tf_store p TF_a0 r) (\<lambda>_.
        mret True))
    | None \<Rightarrow>
        mbind (my id p) (\<lambda>x.
        mbind (kuart (printf (''%d %s: unknown sys call %d'' @ newline)
          [Aint (of_int (p_pid x)), Astr (Some (str_text 16 (p_name x))), Aint (ucast a7)])) (\<lambda>_.
        mbind (tf_store p TF_a0 (- 1)) (\<lambda>_.
        mret True))))"

section \<open>Interrupts\<close>

definition PLIC_SENABLE :: "nat \<Rightarrow> u64" where "PLIC_SENABLE hart = PLIC + 0x2080 + of_nat hart * 0x100"
definition PLIC_SPRIORITY :: "nat \<Rightarrow> u64" where "PLIC_SPRIORITY hart = PLIC + 0x201000 + of_nat hart * 0x2000"
definition PLIC_SCLAIM :: "nat \<Rightarrow> u64" where "PLIC_SCLAIM hart = PLIC + 0x201004 + of_nat hart * 0x2000"

definition mmio_write :: "u64 \<Rightarrow> u32 \<Rightarrow> (machine, unit) km" where
  [km_defs]: "mmio_write a w = csrw (\<lambda>h. h\<lparr>h_mmio := h_mmio h @ [(a, w)]\<rparr>)"

definition plicinit :: "(machine, unit) km" where
  "plicinit =
    mbind (mmio_write (PLIC + of_int UART0_IRQ * 4) 1) (\<lambda>_.
    mmio_write (PLIC + of_int VIRTIO0_IRQ * 4) 1)"

definition plicinithart :: "(machine, unit) km" where
  "plicinithart =
    mbind (csr h_id) (\<lambda>hart.
    mbind (mmio_write (PLIC_SENABLE hart) (push_bit (nat UART0_IRQ) 1 OR push_bit (nat VIRTIO0_IRQ) 1)) (\<lambda>_.
    mmio_write (PLIC_SPRIORITY hart) 0))"

definition plic_claim :: "(machine, u32) km" where
  "plic_claim =
    mbind (csr h_irqs) (\<lambda>irqs.
    case irqs of
      [] \<Rightarrow> mret 0
    | irq # rest \<Rightarrow>
        mbind (csrw (h_irqs_update (\<lambda>_. rest))) (\<lambda>_.
        mret irq))"

definition plic_complete :: "u32 \<Rightarrow> (machine, unit) km" where
  "plic_complete irq =
    mbind (csr h_id) (\<lambda>hart.
    mmio_write (PLIC_SCLAIM hart) irq)"

text \<open>\<open>me\<close> is \<open>myproc()\<close>.\<close>

definition clockintr :: "nat option \<Rightarrow> (machine, unit) km" where
  "clockintr me =
    mbind (csr h_id) (\<lambda>cpu.
    mbind (mwhen (cpu = 0) (
      mbind (onk (mmod (\<lambda>s. s\<lparr>k_ticks := k_ticks s + 1\<rparr>))) (\<lambda>_.
      onk (kpt (wakeup me Chan_ticks))))) (\<lambda>_.
    csrw (\<lambda>h. h\<lparr>h_stimecmp := h_time h + 1000000\<rparr>)))"

definition devintr :: "nat option \<Rightarrow> (machine, int) km" where
  "devintr me =
    mbind (csr h_scause) (\<lambda>scause.
    if scause = 0x8000000000000009 then
      mbind plic_claim (\<lambda>irq.
      mbind (if irq = of_int UART0_IRQ then onk (uartintr me)
        else if irq = of_int VIRTIO0_IRQ then
          mbind (onv virtio_disk_intr) (\<lambda>bs.
          mfor bs (\<lambda>b. onk (kpt (wakeup me (Chan_buf b)))))
        else mwhen (irq \<noteq> 0) (onk (kuart (printf (''unexpected interrupt irq=%d'' @ newline) [Aint irq])))) (\<lambda>_.
      mbind (mwhen (irq \<noteq> 0) (plic_complete irq)) (\<lambda>_.
      mret 1)))
    else if scause = 0x8000000000000005 then
      mbind (clockintr me) (\<lambda>_.
      mret 2)
    else mret 0)"

section \<open>Traps from user space\<close>

text \<open>How the handling of a trap ends: with a jump to \<open>userret\<close> for a page table, or off the CPU.\<close>

datatype trap_end = To_user u64 u64 | Exited | Yielded

definition usertrapret :: "code \<Rightarrow> nat \<Rightarrow> (machine, trap_end) km" where
  "usertrapret A p =
    mbind intr_off (\<lambda>_.
    mbind (csrw (\<lambda>h. h\<lparr>h_stvec := TRAMPOLINE + (at_uservec A - at_trampoline A)\<rparr>)) (\<lambda>_.
    mbind (csr id) (\<lambda>h.
    mbind (onk (my p_kstack p)) (\<lambda>kstack.
    mbind (onk (tf_store p TF_kernel_satp (h_satp h))) (\<lambda>_.
    mbind (onk (tf_store p TF_kernel_sp (kstack + PGSIZE))) (\<lambda>_.
    mbind (onk (tf_store p TF_kernel_trap (at_usertrap A))) (\<lambda>_.
    mbind (onk (tf_store p TF_kernel_hartid (of_nat (h_id h)))) (\<lambda>_.
    mbind (csrw (\<lambda>h. h\<lparr>h_sstatus := (h_sstatus h AND NOT SSTATUS_SPP) OR SSTATUS_SPIE\<rparr>)) (\<lambda>_.
    mbind (onk (tf_load p TF_epc)) (\<lambda>epc.
    mbind (csrw (\<lambda>h. h\<lparr>h_sepc := epc\<rparr>)) (\<lambda>_.
    mbind (onk (my p_pagetable p)) (\<lambda>pt.
    mret (To_user (TRAMPOLINE + (at_userret A - at_trampoline A)) (MAKE_SATP pt))))))))))))))"

text \<open>The end of \<open>usertrap\<close>, from its second test of \<open>killed\<close>.\<close>

definition usertrap_end :: "code \<Rightarrow> nat \<Rightarrow> int \<Rightarrow> (machine, trap_end) km" where
  "usertrap_end A p which_dev =
    mbind (csr h_id) (\<lambda>c.
    mbind (onk (kpt (killed p))) (\<lambda>kld.
    if kld then
      mbind (onk (exit c p (- 1))) (\<lambda>_.
      mret Exited)
    else if which_dev = 2 then
      mbind (onk (kpt (yield c p))) (\<lambda>_.
      mret Yielded)
    else usertrapret A p))"

definition usertrap :: "code \<Rightarrow> block \<Rightarrow> nat \<Rightarrow> (machine, trap_end) km" where
  "usertrap A stack p =
    mbind (csr id) (\<lambda>h.
    mbind (mpanic_if (h_sstatus h AND SSTATUS_SPP \<noteq> 0) ''usertrap: not from user mode'') (\<lambda>_.
    mbind (csrw (\<lambda>h. h\<lparr>h_stvec := at_kernelvec A\<rparr>)) (\<lambda>_.
    mbind (onk (tf_store p TF_epc (h_sepc h))) (\<lambda>_.
    if h_scause h = 8 then
      mbind (onk (kpt (killed p))) (\<lambda>kld.
      if kld then
        mbind (onk (exit (h_id h) p (- 1))) (\<lambda>_.
        mret Exited)
      else
        mbind (onk (tf_load p TF_epc)) (\<lambda>epc.
        mbind (onk (tf_store p TF_epc (epc + 4))) (\<lambda>_.
        mbind intr_on (\<lambda>_.
        mbind (onk (syscall A stack (h_id h) p)) (\<lambda>goes_on.
        if goes_on then usertrap_end A p 0 else mret Exited)))))
    else
      mbind (devintr (Some p)) (\<lambda>which_dev.
      mbind (mwhen (which_dev = 0) (
        mbind (onk (my p_pid p)) (\<lambda>pid.
        mbind (onk (kuart (printf (''usertrap(): unexpected scause 0x%lx pid=%d'' @ newline) [Along (h_scause h), Aint (of_int pid)]))) (\<lambda>_.
        mbind (onk (kuart (printf (''            sepc=0x%lx stval=0x%lx'' @ newline) [Along (h_sepc h), Along (h_stval h)]))) (\<lambda>_.
        onk (kpt (setkilled p))))))) (\<lambda>_.
      usertrap_end A p which_dev))))))"

section \<open>Traps in the kernel\<close>

text \<open>\<open>kerneltrap\<close>; its result tells whether it yielded. The registers it saved are restored by the second part.\<close>

definition kerneltrap :: "nat option \<Rightarrow> (machine, bool) km" where
  "kerneltrap me =
    mbind (csr id) (\<lambda>h.
    mbind (mpanic_if (h_sstatus h AND SSTATUS_SPP = 0) ''kerneltrap: not from supervisor mode'') (\<lambda>_.
    mbind intr_get (\<lambda>on.
    mbind (mpanic_if on ''kerneltrap: interrupts enabled'') (\<lambda>_.
    mbind (devintr me) (\<lambda>which_dev.
    mbind (mwhen (which_dev = 0) (
      mbind (onk (kuart (printf (''scause=0x%lx sepc=0x%lx stval=0x%lx'' @ newline)
        [Along (h_scause h), Along (h_sepc h), Along (h_stval h)]))) (\<lambda>_.
      mpanic ''kerneltrap''))) (\<lambda>_.
    case me of
      Some p \<Rightarrow>
        if which_dev = 2 then
          mbind (onk (kpt (yield (h_id h) p))) (\<lambda>_.
          mret True)
        else mret False
    | None \<Rightarrow> mret False))))))"

definition kerneltrap_ret :: "u64 \<Rightarrow> u64 \<Rightarrow> (machine, unit) km" where
  "kerneltrap_ret sepc sstatus = csrw (\<lambda>h. h\<lparr>h_sepc := sepc, h_sstatus := sstatus\<rparr>)"

section \<open>Starting\<close>

definition forkret :: "code \<Rightarrow> nat \<Rightarrow> (machine, trap_end) km" where
  "forkret A p =
    mbind (onk (mget k_first)) (\<lambda>first.
    mbind (mwhen first (
      mbind (onk (fsop p (\<lambda>me. fsinit me ROOTDEV))) (\<lambda>_.
      onk (mmod (\<lambda>s. s\<lparr>k_first := False\<rparr>))))) (\<lambda>_.
    usertrapret A p))"

text \<open>\<open>main\<close> on hart 0 up to \<open>scheduler\<close>; \<open>kvminit\<close> stores the page table, \<open>kvminithart\<close> installs it.\<close>

definition main :: "code \<Rightarrow> (machine, unit) km" where
  "main A =
    mbind (onk consoleinit) (\<lambda>_.
    mbind (onk (kuart (printf newline []))) (\<lambda>_.
    mbind (onk (kuart (printf (''xv6 kernel is booting'' @ newline) []))) (\<lambda>_.
    mbind (onk (kuart (printf newline []))) (\<lambda>_.
    mbind (onk (kmemory kinit)) (\<lambda>_.
    mbind (onk (kmemory (kvmmake (at_etext A) (at_trampoline A) NPROC))) (\<lambda>kpt'.
    mbind (csrw (\<lambda>h. h\<lparr>h_satp := MAKE_SATP kpt'\<rparr>)) (\<lambda>_.
    mbind (onk (kpt procinit)) (\<lambda>_.
    mbind (csrw (\<lambda>h. h\<lparr>h_stvec := at_kernelvec A\<rparr>)) (\<lambda>_.
    mbind plicinit (\<lambda>_.
    mbind plicinithart (\<lambda>_.
    mbind (onk (kfs (fbio (mmod (\<lambda>s. s\<lparr>bufs := binit (bufs s)\<rparr>))))) (\<lambda>_.
    mbind (onk (kfs iinit)) (\<lambda>_.
    mbind (mzoom (\<lambda>s. \<lparr>vi_disk = mc_vdisk s, vi_mem = fs_mem (k_fs (mc_kernel s))\<rparr>)
        (\<lambda>g s. let t = g \<lparr>vi_disk = mc_vdisk s, vi_mem = fs_mem (k_fs (mc_kernel s))\<rparr> in
           s\<lparr>mc_vdisk := vi_disk t,
             mc_kernel := (mc_kernel s)\<lparr>k_fs := (k_fs (mc_kernel s))\<lparr>fs_mem := vi_mem t\<rparr>\<rparr>\<rparr>) virtio_disk_init) (\<lambda>_.
    onk (userinit (at_trampoline A) (at_forkret A))))))))))))))))"

text \<open>\<open>start\<close> and \<open>timerinit\<close>: the machine-mode registers with which a hart enters \<open>main\<close>.\<close>

record mregs =
  r_mstatus :: u64
  r_mepc :: u64
  r_satp :: u64
  r_medeleg :: u64
  r_mideleg :: u64
  r_sie :: u64
  r_pmpaddr0 :: u64
  r_pmpcfg0 :: u64
  r_mie :: u64
  r_menvcfg :: u64
  r_mcounteren :: u64
  r_stimecmp :: u64
  r_time :: u64
  r_mhartid :: u64
  r_tp :: u64

definition MSTATUS_MPP_MASK :: u64 where "MSTATUS_MPP_MASK = push_bit 11 3"
definition MSTATUS_MPP_S :: u64 where "MSTATUS_MPP_S = push_bit 11 1"

definition timerinit :: "mregs \<Rightarrow> mregs" where
  "timerinit s = s\<lparr>r_mie := r_mie s OR push_bit 5 1, r_menvcfg := r_menvcfg s OR push_bit 63 1,
     r_mcounteren := r_mcounteren s OR 2, r_stimecmp := r_time s + 1000000\<rparr>"

definition start :: "code \<Rightarrow> mregs \<Rightarrow> mregs" where
  "start A s =
    (let s1 = s\<lparr>r_mstatus := (r_mstatus s AND NOT MSTATUS_MPP_MASK) OR MSTATUS_MPP_S, r_mepc := at_main A, r_satp := 0,
          r_medeleg := 0xffff, r_mideleg := 0xffff, r_sie := r_sie s OR push_bit 9 1 OR push_bit 5 1 OR push_bit 1 1,
          r_pmpaddr0 := 0x3fffffffffffff, r_pmpcfg0 := 0xf\<rparr>;
         s2 = timerinit s1
     in s2\<lparr>r_tp := scast (ucast (r_mhartid s2) :: u32)\<rparr>)"

end
