(* ===== verification/Asm.thy ===== *)
theory Asm
  imports Riscv
begin

text \<open>
  The assembly code of the kernel: \<open>trampoline.S\<close> (into the kernel and back to user space),
  \<open>kernelvec.S\<close> (traps in the kernel), \<open>swtch.S\<close> (context switch) and \<open>entry.S\<close>.

  The routines are straight-line lists of instructions; \<open>run\<close> executes them on the registers, the control
  registers and the memory that the current page table makes visible. A call of C code between two
  parts of a routine is left out: the theorems say what it may change.

  Shown: \<open>userret\<close> restores exactly the registers that \<open>uservec\<close> saved; \<open>kernelvec\<close> restores every register
  but \<open>tp\<close>; \<open>swtch\<close> saves and restores the callee-saved registers.
\<close>

section \<open>Instructions\<close>

datatype reg = ra | sp | gp | tp | t0 | t1 | t2 | s0 | s1 | a0 | a1 | a2 | a3 | a4 | a5 | a6 | a7
  | s2 | s3 | s4 | s5 | s6 | s7 | s8 | s9 | s10 | s11 | t3 | t4 | t5 | t6

datatype csr = satp | sscratch | mhartid

datatype instr =
    Sd reg nat reg | Ld reg nat reg | Li reg u64 | Addi reg reg u64 | Add reg reg reg | Mul reg reg reg
  | Csrw csr reg | Csrr reg csr | Sfence

record asm =
  ar :: "reg \<Rightarrow> u64"
  acsr :: "csr \<Rightarrow> u64"
  amem :: block

text \<open>\<open>sd r, off(b)\<close> is \<open>Sd r off b\<close>, \<open>ld r, off(b)\<close> is \<open>Ld r off b\<close>.\<close>

fun step :: "instr \<Rightarrow> asm \<Rightarrow> asm" where
  "step (Sd r off b) s = s\<lparr>amem := put64 (unat (ar s b + of_nat off)) (ar s r) (amem s)\<rparr>"
| "step (Ld r off b) s = s\<lparr>ar := (ar s)(r := get64 (unat (ar s b + of_nat off)) (amem s))\<rparr>"
| "step (Li r w) s = s\<lparr>ar := (ar s)(r := w)\<rparr>"
| "step (Addi r r' w) s = s\<lparr>ar := (ar s)(r := ar s r' + w)\<rparr>"
| "step (Add r r' r'') s = s\<lparr>ar := (ar s)(r := ar s r' + ar s r'')\<rparr>"
| "step (Mul r r' r'') s = s\<lparr>ar := (ar s)(r := ar s r' * ar s r'')\<rparr>"
| "step (Csrw c r) s = s\<lparr>acsr := (acsr s)(c := ar s r)\<rparr>"
| "step (Csrr r c) s = s\<lparr>ar := (ar s)(r := acsr s c)\<rparr>"
| "step Sfence s = s"

definition run :: "instr list \<Rightarrow> asm \<Rightarrow> asm" where
  "run is s = fold step is s"

definition saves :: "reg \<Rightarrow> (reg \<times> nat) list \<Rightarrow> instr list" where
  "saves b rs = map (\<lambda>(r, off). Sd r off b) rs"

definition loads :: "reg \<Rightarrow> (reg \<times> nat) list \<Rightarrow> instr list" where
  "loads b rs = map (\<lambda>(r, off). Ld r off b) rs"

section \<open>Routines\<close>

text \<open>The registers that \<open>uservec\<close> stores directly and \<open>userret\<close> loads, with their offsets in the trap frame.\<close>

definition user_regs :: "(reg \<times> nat) list" where
  "user_regs =
    [(ra, 40), (sp, 48), (gp, 56), (tp, 64), (t0, 72), (t1, 80), (t2, 88), (s0, 96), (s1, 104),
     (a1, 120), (a2, 128), (a3, 136), (a4, 144), (a5, 152), (a6, 160), (a7, 168),
     (s2, 176), (s3, 184), (s4, 192), (s5, 200), (s6, 208), (s7, 216), (s8, 224), (s9, 232), (s10, 240), (s11, 248),
     (t3, 256), (t4, 264), (t5, 272), (t6, 280)]"

text \<open>\<open>uservec\<close>; its final \<open>jr t0\<close> continues at the address in \<open>t0\<close>.\<close>

definition uservec :: "instr list" where
  "uservec =
    [Csrw sscratch a0, Li a0 TRAPFRAME] @ saves a0 user_regs @
    [Csrr t0 sscratch, Sd t0 112 a0, Ld sp 8 a0, Ld tp 32 a0, Ld t0 16 a0, Ld t1 0 a0,
     Sfence, Csrw satp t1, Sfence]"

definition userret :: "instr list" where
  "userret =
    [Sfence, Csrw satp a0, Sfence, Li a0 TRAPFRAME] @ loads a0 user_regs @ [Ld a0 112 a0]"

definition kernel_regs :: "(reg \<times> nat) list" where
  "kernel_regs =
    [(ra, 0), (sp, 8), (gp, 16), (tp, 24), (t0, 32), (t1, 40), (t2, 48), (a0, 72), (a1, 80), (a2, 88), (a3, 96),
     (a4, 104), (a5, 112), (a6, 120), (a7, 128), (t3, 216), (t4, 224), (t5, 232), (t6, 240)]"

text \<open>\<open>kernelvec\<close> before and after its call of \<open>kerneltrap\<close>; \<open>tp\<close> is not restored.\<close>

definition kernelvec :: "instr list" where
  "kernelvec = Addi sp sp (- 256) # saves sp kernel_regs"

definition kernelvec_ret :: "instr list" where
  "kernelvec_ret = loads sp (filter (\<lambda>(r, off). r \<noteq> tp) kernel_regs) @ [Addi sp sp 256]"

definition switch_regs :: "(reg \<times> nat) list" where
  "switch_regs = [(ra, 0), (sp, 8), (s0, 16), (s1, 24), (s2, 32), (s3, 40), (s4, 48), (s5, 56), (s6, 64), (s7, 72),
     (s8, 80), (s9, 88), (s10, 96), (s11, 104)]"

text \<open>\<open>swtch(old, new)\<close>: \<open>a0\<close> and \<open>a1\<close> point to the two contexts.\<close>

definition swtch :: "instr list" where
  "swtch = saves a0 switch_regs @ loads a1 switch_regs"

text \<open>\<open>_entry\<close>, with the address \<open>stack0\<close> of the boot stacks.\<close>

definition entry :: "u64 \<Rightarrow> instr list" where
  "entry stack0 =
    [Li sp stack0, Li a0 (1024 * 4), Csrr a1 mhartid, Addi a1 a1 1, Mul a0 a0 a1, Add sp sp a0]"

section \<open>Saving and restoring\<close>

lemma run_append: "run (xs @ ys) s = run ys (run xs s)"
  by (simp add: run_def)

lemma run_Cons: "run (x # xs) s = run xs (step x s)"
  by (simp add: run_def)

lemma run_Nil [simp]: "run [] s = s"
  by (simp add: run_def)

text \<open>Slots of eight bytes that do not overlap, within 288 bytes.\<close>

definition slots :: "(reg \<times> nat) list \<Rightarrow> bool" where
  "slots rs \<longleftrightarrow> sorted_wrt (\<lambda>x y. snd x + 8 \<le> snd y) rs \<and> (\<forall>x\<in>set rs. snd x + 8 \<le> 288)"

lemma slot_addr:
  assumes "unat (b :: u64) + 288 \<le> 2 ^ 64" "off + 8 \<le> 288"
  shows "unat (b + of_nat off) = unat b + off"
proof -
  have "unat (of_nat off :: u64) = off" using assms(2) by (simp add: unat_of_nat)
  moreover have "unat b + off < 2 ^ LENGTH(64)" using assms by simp
  ultimately show ?thesis by (subst unat_add_lem [THEN iffD1]) auto
qed

lemma run_saves:
  "run (saves b rs) s = s\<lparr>amem := fold (\<lambda>(r, off). put64 (unat (ar s b + of_nat off)) (ar s r)) rs (amem s)\<rparr>"
  by (induction rs arbitrary: s) (auto simp: saves_def run_def)

lemma saved_other:
  assumes "\<forall>x\<in>set rs. k + 8 \<le> unat b + snd x \<or> unat b + snd x + 8 \<le> k"
    "unat (b :: u64) + 288 \<le> 2 ^ 64" "\<forall>x\<in>set rs. snd x + 8 \<le> 288"
  shows "get64 k (fold (\<lambda>(r, off). put64 (unat (b + of_nat off)) (f r)) rs m) = get64 k m"
  using assms
proof (induction rs arbitrary: m)
  case (Cons x rs)
  then show ?case by (cases x) (auto simp: slot_addr)
qed simp

lemma saved_slot:
  assumes "slots rs" "(r, off) \<in> set rs" "unat (b :: u64) + 288 \<le> 2 ^ 64"
  shows "get64 (unat b + off) (fold (\<lambda>(r, off). put64 (unat (b + of_nat off)) (f r)) rs m) = f r"
  using assms(1,2)
proof (induction rs arbitrary: m)
  case (Cons x rs)
  have rest: "slots rs" "\<forall>y\<in>set rs. snd y + 8 \<le> 288" "snd x + 8 \<le> 288" using Cons.prems(1) by (auto simp: slots_def)
  show ?case
  proof (cases "x = (r, off)")
    case True
    then have "\<forall>y\<in>set rs. unat b + off + 8 \<le> unat b + snd y" using Cons.prems(1) by (auto simp: slots_def)
    then show ?thesis
      using True rest saved_other [of rs "unat b + off" b f] assms(3) by (simp add: slot_addr)
  next
    case False
    then show ?thesis using Cons.IH [OF rest(1)] Cons.prems(2) by (cases x) auto
  qed
qed simp

text \<open>A sequence of loads through a register that it does not change, or that it reloads with its own value.\<close>

lemma run_loads:
  assumes "\<forall>(r, off)\<in>set rs. get64 (unat (ar s b + of_nat off)) (amem s) = f r" "b \<in> fst ` set rs \<longrightarrow> f b = ar s b"
  shows "run (loads b rs) s = s\<lparr>ar := (\<lambda>r. if r \<in> fst ` set rs then f r else ar s r)\<rparr>"
  using assms
proof (induction rs arbitrary: s)
  case (Cons x rs)
  obtain r off where x: "x = (r, off)" by (cases x)
  let ?t = "step (Ld r off b) s"
  have t: "?t = s\<lparr>ar := (ar s)(r := f r)\<rparr>" using Cons.prems(1) x by auto
  have b: "ar ?t b = ar s b" using Cons.prems(2) x t by auto
  have "run (loads b rs) ?t = ?t\<lparr>ar := (\<lambda>q. if q \<in> fst ` set rs then f q else ar ?t q)\<rparr>"
  proof (rule Cons.IH)
    show "\<forall>(r, off)\<in>set rs. get64 (unat (ar ?t b + of_nat off)) (amem ?t) = f r"
      unfolding b using Cons.prems(1) by simp
    show "b \<in> fst ` set rs \<longrightarrow> f b = ar ?t b" using Cons.prems(2) b by auto
  qed
  then show ?case using t x by (auto simp: loads_def run_def fun_eq_iff)
qed (simp add: loads_def)

text \<open>What a trap from user space finds, and what it leaves.\<close>

lemma TRAPFRAME_unat: "unat TRAPFRAME = 0x3fffffe000"
  by (simp add: TRAPFRAME_def TRAMPOLINE_def MAXVA_def PGSIZE_def)

lemma user_slots: "slots user_regs"
  by (simp add: slots_def user_regs_def)

lemma all_regs: "r = a0 \<or> r \<in> fst ` set user_regs" "a0 \<notin> fst ` set user_regs"
  by (cases r; simp add: user_regs_def) (simp add: user_regs_def)

lemma tf_addr: "off + 8 \<le> 288 \<Longrightarrow> unat (TRAPFRAME + of_nat off) = unat TRAPFRAME + off"
  by (rule slot_addr) (simp add: TRAPFRAME_unat)

text \<open>The state before the last part of \<open>uservec\<close>.\<close>

lemma uservec_mem:
  "amem (run uservec s) = put64 (unat TRAPFRAME + 112) (ar s a0)
     (fold (\<lambda>(r, off). put64 (unat (TRAPFRAME + of_nat off)) (ar s r)) user_regs (amem s))"
proof -
  have "\<forall>x\<in>set user_regs. fst x \<noteq> a0" by (simp add: user_regs_def)
  then have "fold (\<lambda>(r, off). put64 (unat (TRAPFRAME + of_nat off)) (((ar s)(a0 := TRAPFRAME)) r)) user_regs (amem s)
      = fold (\<lambda>(r, off). put64 (unat (TRAPFRAME + of_nat off)) (ar s r)) user_regs (amem s)"
    by (intro fold_cong) auto
  then show ?thesis
    using tf_addr [of 112] by (simp add: uservec_def run_append run_Cons run_saves)
qed

lemma uservec_regs:
  assumes "(r, off) \<in> {(sp, 8), (tp, 32), (t0, 16), (t1, 0)}"
  shows "ar (run uservec s) r = get64 (unat TRAPFRAME + off) (amem s)"
proof -
  let ?m = "fold (\<lambda>(r, off). put64 (unat (TRAPFRAME + of_nat off)) (((ar s)(a0 := TRAPFRAME)) r)) user_regs (amem s)"
  have "get64 (unat TRAPFRAME + k) ?m = get64 (unat TRAPFRAME + k) (amem s)" if "k \<le> 32" for k
    using that by (intro saved_other) (auto simp: TRAPFRAME_unat user_regs_def)
  note fr = this this [of 0, simplified]
  then show ?thesis
    using assms tf_addr [of 8] tf_addr [of 32] tf_addr [of 16] tf_addr [of 0] tf_addr [of 112]
    by (auto simp: uservec_def run_append run_Cons run_saves)
qed

lemma trap_registers:
  assumes "\<forall>(r, off)\<in>set ((a0, 112) # user_regs).
    get64 (unat TRAPFRAME + off) (amem t) = get64 (unat TRAPFRAME + off) (amem (run uservec s))"
  shows "ar (run userret t) = ar s" "acsr (run userret t) satp = ar t a0"
    "ar (run uservec s) sp = get64 (unat TRAPFRAME + 8) (amem s)" "ar (run uservec s) tp = get64 (unat TRAPFRAME + 32) (amem s)"
    "ar (run uservec s) t0 = get64 (unat TRAPFRAME + 16) (amem s)" "acsr (run uservec s) satp = get64 (unat TRAPFRAME) (amem s)"
proof -
  have room: "unat TRAPFRAME + 288 \<le> 2 ^ 64" by (simp add: TRAPFRAME_unat)
  let ?m = "fold (\<lambda>(r, off). put64 (unat (TRAPFRAME + of_nat off)) (ar s r)) user_regs (amem s)"
  have off: "off + 8 \<le> 112 \<or> 120 \<le> off" "off + 8 \<le> 288" if "(r, off) \<in> set user_regs" for r off
    using that by (auto simp: user_regs_def)
  have slot: "get64 (unat TRAPFRAME + off) (amem t) = ar s r" if "(r, off) \<in> set user_regs" for r off
    using assms that off [OF that] saved_slot [OF user_slots that room, of "ar s" "amem s"]
    by (auto simp: uservec_mem)
  have slot_a0: "get64 (unat TRAPFRAME + 112) (amem t) = ar s a0"
    using assms by (simp add: uservec_mem)
  let ?t = "t\<lparr>acsr := (acsr t)(satp := ar t a0), ar := (ar t)(a0 := TRAPFRAME)\<rparr>"
  have ld: "run (loads a0 user_regs) ?t = ?t\<lparr>ar := (\<lambda>r. if r \<in> fst ` set user_regs then ar s r else ar ?t r)\<rparr>"
    by (rule run_loads) (use slot off tf_addr all_regs(2) in auto)
  have "run userret t = step (Ld a0 112 a0) (run (loads a0 user_regs) ?t)"
    by (simp add: userret_def run_append run_Cons)
  note u = this [unfolded ld]
  show "ar (run userret t) = ar s"
    using all_regs slot_a0 tf_addr [of 112] by (auto simp: u fun_eq_iff)
  show "acsr (run userret t) satp = ar t a0" by (simp add: u)
  show "ar (run uservec s) sp = get64 (unat TRAPFRAME + 8) (amem s)" "ar (run uservec s) tp = get64 (unat TRAPFRAME + 32) (amem s)"
    "ar (run uservec s) t0 = get64 (unat TRAPFRAME + 16) (amem s)" by (rule uservec_regs, simp)+
  have "acsr (run uservec s) satp = ar (run uservec s) t1" by (simp add: uservec_def run_append run_Cons)
  also have "\<dots> = get64 (unat TRAPFRAME) (amem s)" using uservec_regs [of t1 0 s] by simp
  finally show "acsr (run uservec s) satp = get64 (unat TRAPFRAME) (amem s)" .
qed

text \<open>
  C27. A trap from user space loses no register. \<open>uservec\<close> enters the kernel with the stack pointer,
  the hart number, the handler address and the page table that the trap frame holds; and if the
  kernel leaves the saved registers in the trap frame as they are, \<open>userret\<close> gives all 31 registers their
  old values and switches to the page table passed to it.
\<close>

theorem trap_preserves_registers:
  assumes "\<forall>(r, off)\<in>set ((a0, 112) # user_regs).
    get64 (unat TRAPFRAME + off) (amem t) = get64 (unat TRAPFRAME + off) (amem (run uservec s))"
  shows "ar (run userret t) = ar s
    \<and> acsr (run userret t) satp = ar t a0
    \<and> ar (run uservec s) sp = get64 (unat TRAPFRAME + 8) (amem s)
    \<and> ar (run uservec s) tp = get64 (unat TRAPFRAME + 32) (amem s)
    \<and> ar (run uservec s) t0 = get64 (unat TRAPFRAME + 16) (amem s)
    \<and> acsr (run uservec s) satp = get64 (unat TRAPFRAME) (amem s)"
  using trap_registers [OF assms] by simp

text \<open>A trap with the registers numbered, and a kernel that changes nothing.\<close>

definition example_asm :: asm where
  "example_asm = \<lparr>ar = (\<lambda>r. if r = a0 then 10 else if r = sp then 2 else 7), acsr = (\<lambda>_. 0), amem = put64 0x3fffffe008 0x99 (\<lambda>_. 0)\<rparr>"

theorem trap_preserves_registers_witness:
  "ar (run userret (run uservec example_asm)) = ar example_asm \<and> ar (run uservec example_asm) sp = 0x99"
  using trap_preserves_registers [of "run uservec example_asm" example_asm]
  by (simp add: example_asm_def TRAPFRAME_unat)

section \<open>Traps in the kernel and context switches\<close>

lemma kernel_slots: "slots kernel_regs" and switch_slots: "slots switch_regs"
  by (simp_all add: slots_def kernel_regs_def switch_regs_def)

text \<open>
  A trap in the kernel: if \<open>kerneltrap\<close> keeps the callee-saved registers and the stack pointer, and does
  not touch the 256 bytes below the old stack pointer, every register but \<open>tp\<close> is as before.
\<close>

lemma kernelvec_preserves:
  assumes room: "256 \<le> unat (ar s sp)" "unat (ar s sp) + 32 \<le> 2 ^ 64"
    and frame: "\<forall>(r, off)\<in>set kernel_regs. get64 (unat (ar s sp - 256) + off) (amem t) = get64 (unat (ar s sp - 256) + off) (amem (run kernelvec s))"
    and callee: "ar t sp = ar s sp - 256" "\<And>r. r \<notin> fst ` set kernel_regs \<Longrightarrow> ar t r = ar s r"
  shows "ar (run kernelvec_ret t) = (ar s)(tp := ar t tp)"
proof -
  let ?b = "ar s sp - 256"
  let ?f = "\<lambda>r. ((ar s)(sp := ?b)) r"
  have "unat ?b = unat (ar s sp) - 256" using room(1) by (simp add: unat_sub word_le_nat_alt)
  then have b: "unat ?b + 288 \<le> 2 ^ 64" using room by simp
  have k: "run kernelvec s = s\<lparr>ar := (ar s)(sp := ?b), amem := fold (\<lambda>(r, off). put64 (unat (?b + of_nat off)) (?f r)) kernel_regs (amem s)\<rparr>"
    by (simp add: kernelvec_def run_Cons run_saves)
  have off: "off + 8 \<le> 288" if "(r, off) \<in> set kernel_regs" for r off
    using that kernel_slots by (auto simp: slots_def)
  have slot: "get64 (unat (?b + of_nat off)) (amem t) = ?f r" if "(r, off) \<in> set kernel_regs" for r off
    using frame that saved_slot [OF kernel_slots that b, of ?f "amem s"] slot_addr [OF b off [OF that]] by (auto simp: k)
  let ?rs = "filter (\<lambda>(r, off). r \<noteq> tp) kernel_regs"
  have ld: "run (loads sp ?rs) t = t\<lparr>ar := (\<lambda>r. if r \<in> fst ` set ?rs then ?f r else ar t r)\<rparr>"
    by (rule run_loads) (use slot callee(1) in auto)
  have sets: "fst ` set ?rs = fst ` set kernel_regs - {tp}" "sp \<in> fst ` set kernel_regs" "tp \<in> fst ` set kernel_regs"
    by (auto simp: kernel_regs_def)
  have "run kernelvec_ret t = step (Addi sp sp 256) (run (loads sp ?rs) t)"
    by (simp add: kernelvec_ret_def run_append run_Cons)
  then show ?thesis using callee(2) sets by (auto simp: ld fun_eq_iff)
qed

lemma swtch_registers:
  assumes "unat (ar s a0) + 288 \<le> 2 ^ 64" "unat (ar s a1) + 288 \<le> 2 ^ 64"
    and "unat (ar s a0) + 112 \<le> unat (ar s a1) \<or> unat (ar s a1) + 112 \<le> unat (ar s a0)"
  shows "\<forall>(r, off)\<in>set switch_regs. get64 (unat (ar s a0) + off) (amem (run swtch s)) = ar s r
      \<and> ar (run swtch s) r = get64 (unat (ar s a1) + off) (amem s)
      \<and> get64 (unat (ar s a1) + off) (amem (run swtch s)) = get64 (unat (ar s a1) + off) (amem s)"
    "r \<notin> fst ` set switch_regs \<Longrightarrow> ar (run swtch s) r = ar s r"
proof -
  let ?m = "fold (\<lambda>(r, off). put64 (unat (ar s a0 + of_nat off)) (ar s r)) switch_regs (amem s)"
  have off: "off + 8 \<le> 112" if "(r, off) \<in> set switch_regs" for r off using that by (auto simp: switch_regs_def)
  have sav: "get64 (unat (ar s a0) + off) ?m = ar s r" if "(r, off) \<in> set switch_regs" for r off
    by (rule saved_slot [OF switch_slots that assms(1)])
  have old: "get64 (unat (ar s a1) + off) ?m = get64 (unat (ar s a1) + off) (amem s)" if "(r, off) \<in> set switch_regs" for r off
  proof (rule saved_other [OF _ assms(1)])
    show "\<forall>x\<in>set switch_regs. unat (ar s a1) + off + 8 \<le> unat (ar s a0) + snd x \<or> unat (ar s a0) + snd x + 8 \<le> unat (ar s a1) + off"
    proof
      fix x assume "x \<in> set switch_regs"
      then have "snd x + 8 \<le> 112" using off [of "fst x" "snd x"] by simp
      then show "unat (ar s a1) + off + 8 \<le> unat (ar s a0) + snd x \<or> unat (ar s a0) + snd x + 8 \<le> unat (ar s a1) + off"
        using assms(3) off [OF that] by linarith
    qed
    show "\<forall>x\<in>set switch_regs. snd x + 8 \<le> 288" using switch_slots by (simp add: slots_def)
  qed
  let ?f = "\<lambda>r. get64 (unat (ar s a1) + the (map_of switch_regs r)) (amem s)"
  have mo: "map_of switch_regs r = Some off" if "(r, off) \<in> set switch_regs" for r off
    using that by (intro map_of_is_SomeI) (simp_all add: switch_regs_def)
  have "run (loads a1 switch_regs) (s\<lparr>amem := ?m\<rparr>)
      = s\<lparr>amem := ?m, ar := (\<lambda>r. if r \<in> fst ` set switch_regs then ?f r else ar s r)\<rparr>"
  proof (subst run_loads [where f = ?f])
    have "get64 (unat (ar s a1 + of_nat off)) ?m = ?f r" if "(r, off) \<in> set switch_regs" for r off
      using old [OF that] mo [OF that] slot_addr [OF assms(2), of off] off [OF that] by simp
    then show "\<forall>(r, off)\<in>set switch_regs. get64 (unat (ar (s\<lparr>amem := ?m\<rparr>) a1 + of_nat off)) (amem (s\<lparr>amem := ?m\<rparr>)) = ?f r"
      by auto
    have "a1 \<notin> fst ` set switch_regs" by (simp add: switch_regs_def)
    then show "a1 \<in> fst ` set switch_regs \<longrightarrow> ?f a1 = ar (s\<lparr>amem := ?m\<rparr>) a1" by blast
  qed (simp cong: if_cong)
  then have t: "run swtch s = s\<lparr>amem := ?m, ar := (\<lambda>r. if r \<in> fst ` set switch_regs then ?f r else ar s r)\<rparr>"
    by (simp add: swtch_def run_append run_saves)
  show "\<forall>(r, off)\<in>set switch_regs. get64 (unat (ar s a0) + off) (amem (run swtch s)) = ar s r
      \<and> ar (run swtch s) r = get64 (unat (ar s a1) + off) (amem s)
      \<and> get64 (unat (ar s a1) + off) (amem (run swtch s)) = get64 (unat (ar s a1) + off) (amem s)"
    using sav old mo by (force simp: t)
  show "r \<notin> fst ` set switch_regs \<Longrightarrow> ar (run swtch s) r = ar s r" by (simp add: t)
qed


definition example_switch :: asm where
  "example_switch = \<lparr>ar = (\<lambda>r. 7)(a0 := 0x80001000, a1 := 0x80002000, sp := 0x9000), acsr = (\<lambda>_. 0), amem = put64 0x80002008 0x5000 (\<lambda>_. 0)\<rparr>"


end
