(* ===== verification/Grep.thy ===== *)
theory Grep
  imports Main
begin

text \<open>
  The user program \<open>user/grep.c\<close>: the regular-expression matcher and the loop that reads a file.

  A C string is the list of its characters before the terminator. Shown: \<open>match\<close> decides the language of
  the pattern; and on input without NUL characters and without overlong lines, \<open>grep\<close> prints exactly
  the matching lines, however \<open>read\<close> splits the input.
\<close>

section \<open>Matching\<close>

function matchhere :: "string \<Rightarrow> string \<Rightarrow> bool" and matchstar :: "char \<Rightarrow> string \<Rightarrow> string \<Rightarrow> bool" where
  "matchhere re str =
    (if re = [] then True
     else if tl re \<noteq> [] \<and> hd (tl re) = CHR ''*'' then matchstar (hd re) (tl (tl re)) str
     else if hd re = CHR ''$'' \<and> tl re = [] then str = []
     else if str \<noteq> [] \<and> (hd re = CHR ''.'' \<or> hd re = hd str) then matchhere (tl re) (tl str)
     else False)"
| "matchstar c re str =
    (if matchhere re str then True
     else if str \<noteq> [] \<and> (hd str = c \<or> c = CHR ''.'') then matchstar c re (tl str)
     else False)"
  by pat_completeness auto
termination
  by (relation "measure (\<lambda>x. case x of Inl (re, str) \<Rightarrow> 2 * (length re + length str)
        | Inr (c, re, str) \<Rightarrow> Suc (2 * (length re + length str)))")
     (auto simp: neq_Nil_conv)

declare matchhere.simps [simp del] matchstar.simps [simp del]

text \<open>The loop of \<open>match\<close>, which also looks at the empty string at the end of the text.\<close>

fun match_loop :: "string \<Rightarrow> string \<Rightarrow> bool" where
  "match_loop re str =
    (if matchhere re str then True else case str of [] \<Rightarrow> False | _ # str' \<Rightarrow> match_loop re str')"

declare match_loop.simps [simp del]

definition match :: "string \<Rightarrow> string \<Rightarrow> bool" where
  "match re str =
    (if re \<noteq> [] \<and> hd re = CHR ''^'' then matchhere (tl re) str else match_loop re str)"

section \<open>Reading\<close>

text \<open>\<open>strchr(p, c)\<close> on the string \<open>p\<close>: the parts before and after the first \<open>c\<close>.\<close>

fun split_at :: "char \<Rightarrow> string \<Rightarrow> (string \<times> string) option" where
  "split_at c [] = None"
| "split_at c (x # xs) = (if x = c then Some ([], xs) else map_option (\<lambda>(a, b). (x # a, b)) (split_at c xs))"

lemma split_at_Some: "split_at c xs = Some (a, b) \<Longrightarrow> xs = a @ c # b \<and> c \<notin> set a"
  by (induction xs arbitrary: a) (auto split: if_splits)

lemma split_at_None: "split_at c xs = None \<longleftrightarrow> c \<notin> set xs"
  by (induction xs) auto

definition nul :: char where "nul = CHR 0x00"
definition nl :: char where "nl = CHR 0x0A"

text \<open>
  The inner loop of \<open>grep\<close> on the bytes \<open>p\<close> of the buffer: what it writes, and the bytes from the last value
  of \<open>p\<close> on. \<open>strchr\<close> does not look past a NUL character.
\<close>

function print_lines :: "string \<Rightarrow> string \<Rightarrow> string \<times> string" where
  "print_lines pattern p =
    (case split_at nl (takeWhile (\<lambda>c. c \<noteq> nul) p) of
       None \<Rightarrow> ([], p)
     | Some (line, _) \<Rightarrow>
         let (out, rest) = print_lines pattern (drop (Suc (length line)) p) in
         ((if match pattern line then line @ [nl] else []) @ out, rest))"
  by pat_completeness auto
termination
proof (relation "measure (\<lambda>(pattern, p). length p)", simp, goal_cases)
  case (1 pattern p x line y)
  then have "takeWhile (\<lambda>c. c \<noteq> nul) p \<noteq> []" by (auto dest: split_at_Some)
  then show ?case by (cases p) auto
qed

declare print_lines.simps [simp del]

definition BUFSIZE :: nat where "BUFSIZE = 1024"

text \<open>
  The loop of \<open>grep\<close>: \<open>buf\<close> are the \<open>m\<close> bytes in the buffer, \<open>input\<close> what the descriptor has still to
  give. \<open>read\<close> returns at most the number of bytes asked for, and at least one if it can: the \<open>i\<close>-th
  call returns up to \<open>Suc (sizes i)\<close>.
\<close>

function grep_loop :: "(nat \<Rightarrow> nat) \<Rightarrow> string \<Rightarrow> string \<Rightarrow> string \<Rightarrow> nat \<Rightarrow> string" where
  "grep_loop sizes pattern buf input i =
    (let n = min (min (length input) (Suc (sizes i))) (BUFSIZE - length buf - 1) in
     if n = 0 then []
     else
       let (out, rest) = print_lines pattern (buf @ take n input) in
       out @ grep_loop sizes pattern rest (drop n input) (Suc i))"
  by pat_completeness auto
termination
  by (relation "measure (\<lambda>(sizes, pattern, buf, input, i). length input)") (auto simp: Let_def)

declare grep_loop.simps [simp del]

definition grep :: "(nat \<Rightarrow> nat) \<Rightarrow> string \<Rightarrow> string \<Rightarrow> string" where
  "grep sizes pattern input = grep_loop sizes pattern [] input 0"

section \<open>The language of a pattern\<close>

datatype elem = One char | Star char

definition fits :: "char \<Rightarrow> char \<Rightarrow> bool" where
  "fits c x \<longleftrightarrow> c = CHR ''.'' \<or> c = x"

text \<open>The elements of a pattern, and whether it ends with the anchor \<open>$\<close>.\<close>

function parse :: "string \<Rightarrow> elem list \<times> bool" where
  "parse re =
    (if re = [] then ([], False)
     else if tl re \<noteq> [] \<and> hd (tl re) = CHR ''*'' then let (es, a) = parse (tl (tl re)) in (Star (hd re) # es, a)
     else if re = ''$'' then ([], True)
     else let (es, a) = parse (tl re) in (One (hd re) # es, a))"
  by pat_completeness auto
termination by (relation "measure length") (auto simp: neq_Nil_conv)

declare parse.simps [simp del]

primrec lang :: "elem list \<Rightarrow> string set" where
  "lang [] = {[]}"
| "lang (e # es) = {u @ v | u v. v \<in> lang es \<and>
     (case e of One c \<Rightarrow> \<exists>x. u = [x] \<and> fits c x | Star c \<Rightarrow> \<forall>x\<in>set u. fits c x)}"

text \<open>A prefix of the text is in the language, and it is the whole text if the pattern is anchored.\<close>

definition begins :: "elem list \<times> bool \<Rightarrow> string \<Rightarrow> bool" where
  "begins r str \<longleftrightarrow> (\<exists>u v. str = u @ v \<and> u \<in> lang (fst r) \<and> (snd r \<longrightarrow> v = []))"

definition in_pattern :: "string \<Rightarrow> string \<Rightarrow> bool" where
  "in_pattern re str \<longleftrightarrow>
    (if re \<noteq> [] \<and> hd re = CHR ''^'' then begins (parse (tl re)) str
     else \<exists>w str'. str = w @ str' \<and> begins (parse re) str')"

lemma beginsE:
  assumes "begins (es, a) str"
  obtains u v where "str = u @ v" "u \<in> lang es" "a \<longrightarrow> v = []"
  using assms unfolding begins_def fst_conv snd_conv by blast

lemma beginsI: "str = u @ v \<Longrightarrow> u \<in> lang es \<Longrightarrow> a \<longrightarrow> v = [] \<Longrightarrow> begins (es, a) str"
  unfolding begins_def fst_conv snd_conv by blast

lemma lang_One: "u \<in> lang (One c # es) \<longleftrightarrow> (\<exists>x v. u = x # v \<and> fits c x \<and> v \<in> lang es)"
  by simp (metis append_Cons append_Nil)

lemma lang_Star: "u \<in> lang (Star c # es) \<longleftrightarrow> (\<exists>w v. u = w @ v \<and> (\<forall>x\<in>set w. fits c x) \<and> v \<in> lang es)"
  by auto

lemma begins_One: "begins (One c # es, a) str \<longleftrightarrow> str \<noteq> [] \<and> fits c (hd str) \<and> begins (es, a) (tl str)"
proof
  assume "begins (One c # es, a) str"
  then obtain u w where "str = u @ w" "u \<in> lang (One c # es)" "a \<longrightarrow> w = []" by (rule beginsE)
  then show "str \<noteq> [] \<and> fits c (hd str) \<and> begins (es, a) (tl str)" by (auto simp: lang_One intro: beginsI)
next
  assume h: "str \<noteq> [] \<and> fits c (hd str) \<and> begins (es, a) (tl str)"
  then obtain v w where t: "tl str = v @ w" "v \<in> lang es" "a \<longrightarrow> w = []" by (blast elim: beginsE)
  have "str = (hd str # v) @ w" using h t(1) by (cases str) auto
  then show "begins (One c # es, a) str" using h t by (blast intro: beginsI lang_One [THEN iffD2])
qed

lemma begins_Star:
  "begins (Star c # es, a) str \<longleftrightarrow>
     begins (es, a) str \<or> str \<noteq> [] \<and> fits c (hd str) \<and> begins (Star c # es, a) (tl str)"
proof
  assume "begins (Star c # es, a) str"
  then obtain t w where "str = t @ w" "t \<in> lang (Star c # es)" and w: "a \<longrightarrow> w = []" by (rule beginsE)
  then obtain u v where h: "str = (u @ v) @ w" "\<forall>x\<in>set u. fits c x" "v \<in> lang es" unfolding lang_Star by blast
  show "begins (es, a) str \<or> str \<noteq> [] \<and> fits c (hd str) \<and> begins (Star c # es, a) (tl str)"
  proof (cases u)
    case Nil
    then show ?thesis using h w by (simp add: beginsI)
  next
    case (Cons x u')
    then have "tl str = (u' @ v) @ w" "\<forall>x\<in>set u'. fits c x" using h by auto
    then have "begins (Star c # es, a) (tl str)" using h(3) w by (blast intro: beginsI lang_Star [THEN iffD2])
    then show ?thesis using Cons h by simp
  qed
next
  assume "begins (es, a) str \<or> str \<noteq> [] \<and> fits c (hd str) \<and> begins (Star c # es, a) (tl str)"
  then show "begins (Star c # es, a) str"
  proof
    assume "begins (es, a) str"
    then obtain v w where t: "str = v @ w" "v \<in> lang es" "a \<longrightarrow> w = []" by (rule beginsE)
    then have "v \<in> lang (Star c # es)" unfolding lang_Star by (metis append_Nil empty_iff list.set(1))
    then show ?thesis using t by (blast intro: beginsI)
  next
    assume h: "str \<noteq> [] \<and> fits c (hd str) \<and> begins (Star c # es, a) (tl str)"
    then obtain t w where "tl str = t @ w" "t \<in> lang (Star c # es)" and w: "a \<longrightarrow> w = []" by (blast elim: beginsE)
    then obtain u v where t: "tl str = (u @ v) @ w" "\<forall>x\<in>set u. fits c x" "v \<in> lang es" unfolding lang_Star by blast
    have "str = ((hd str # u) @ v) @ w" "\<forall>x\<in>set (hd str # u). fits c x" using h t(1,2) by (cases str; simp)+
    then show ?thesis using t(3) w by (blast intro: beginsI lang_Star [THEN iffD2])
  qed
qed

lemma matchhere_begins:
  "matchhere re str \<longleftrightarrow> begins (parse re) str"
  "matchstar c re str \<longleftrightarrow> begins (Star c # fst (parse re), snd (parse re)) str"
proof (induction re str and c re str rule: matchhere_matchstar.induct)
  case (1 re str)
  consider "re = []" | "re \<noteq> []" "tl re \<noteq> []" "hd (tl re) = CHR ''*''" | "re = ''$''"
    | "re \<noteq> []" "\<not> (tl re \<noteq> [] \<and> hd (tl re) = CHR ''*'')" "re \<noteq> ''$''" by blast
  then show ?case
  proof cases
    case 1
    then show ?thesis by (simp add: matchhere.simps parse.simps begins_def)
  next
    case 2
    then show ?thesis using "1.IH"(1)
      by (simp add: matchhere.simps [of re] parse.simps [of re] split_def Let_def)
  next
    case 3
    then show ?thesis by (simp add: matchhere.simps parse.simps begins_def)
  next
    case 4
    then have d: "\<not> (hd re = CHR ''$'' \<and> tl re = [])" by (cases re) auto
    have "parse re = (One (hd re) # fst (parse (tl re)), snd (parse (tl re)))"
      using 4 by (simp add: parse.simps [of re] split_def Let_def)
    moreover have "matchhere re str \<longleftrightarrow> str \<noteq> [] \<and> (hd re = CHR ''.'' \<or> hd re = hd str) \<and> matchhere (tl re) (tl str)"
      using 4(1,2) d by (auto simp: matchhere.simps [of re str])
    ultimately show ?thesis using "1.IH"(2) [OF 4(1,2) d] by (auto simp: begins_One fits_def)
  qed
next
  case (2 c re str)
  then show ?case
    unfolding matchstar.simps [of c re str] begins_Star [of c _ _ str] by (simp add: fits_def eq_commute [of c]) blast
qed

lemma match_loop_begins: "match_loop re str \<longleftrightarrow> (\<exists>w str'. str = w @ str' \<and> begins (parse re) str')"
proof (induction str)
  case Nil
  then show ?case by (simp add: match_loop.simps matchhere_begins)
next
  case (Cons x str)
  have "(\<exists>w str'. x # str = w @ str' \<and> begins (parse re) str') \<longleftrightarrow>
      begins (parse re) (x # str) \<or> (\<exists>w str'. str = w @ str' \<and> begins (parse re) str')"
    by (metis append_Cons append_Nil append_eq_Cons_conv)
  then show ?case using Cons by (simp add: match_loop.simps [of re "x # str"] matchhere_begins)
qed

lemma match_iff: "match re str \<longleftrightarrow> in_pattern re str"
  by (simp add: match_def in_pattern_def matchhere_begins match_loop_begins)

section \<open>The lines of the input\<close>

text \<open>The complete lines of a text, and what follows the last of them.\<close>

function lines :: "string \<Rightarrow> string list" where
  "lines s = (case split_at nl s of None \<Rightarrow> [] | Some (a, b) \<Rightarrow> a # lines b)"
  by pat_completeness auto
termination by (relation "measure length") (auto dest!: split_at_Some)

function remainder :: "string \<Rightarrow> string" where
  "remainder s = (case split_at nl s of None \<Rightarrow> s | Some (a, b) \<Rightarrow> remainder b)"
  by pat_completeness auto
termination by (relation "measure length") (auto dest!: split_at_Some)

declare lines.simps [simp del] remainder.simps [simp del]

definition selected :: "string \<Rightarrow> string list \<Rightarrow> string" where
  "selected pattern ls = concat (map (\<lambda>l. l @ [nl]) (filter (match pattern) ls))"

lemma selected_simps [simp]:
  "selected pattern [] = []"
  "selected pattern (l # ls) = (if match pattern l then l @ [nl] else []) @ selected pattern ls"
  "selected pattern (ls @ ls') = selected pattern ls @ selected pattern ls'"
  by (auto simp: selected_def)

lemma split_at_append: "split_at c xs = Some (a, b) \<Longrightarrow> split_at c (xs @ ys) = Some (a, b @ ys)"
  by (induction xs arbitrary: a) (auto split: if_splits)

lemma lines_append: "lines (s @ t) = lines s @ lines (remainder s @ t)"
proof (induction s rule: lines.induct)
  case (1 s)
  show ?case
  proof (cases "split_at nl s")
    case None
    then show ?thesis by (simp add: lines.simps [of s] remainder.simps [of s])
  next
    case (Some ab)
    obtain a b where ab: "(a, b) = ab" by (cases ab) auto
    then have "lines (s @ t) = a # lines (b @ t)"
      using split_at_append [of nl s a b t] Some ab by (simp add: lines.simps [of "s @ t"])
    then show ?thesis using 1 [OF Some ab] Some ab [symmetric] by (simp add: lines.simps [of s] remainder.simps [of s])
  qed
qed

lemma remainder_no_nl: "nl \<notin> set (remainder s)"
  by (induction s rule: remainder.induct) (simp add: remainder.simps split: option.split prod.split, metis split_at_None)

lemma lines_no_nl: "nl \<notin> set s \<Longrightarrow> lines s = []"
  using split_at_None [of nl s] by (simp add: lines.simps [of s])

lemma remainder_subset: "set (remainder s) \<subseteq> set s"
proof (induction s rule: remainder.induct)
  case (1 s)
  show ?case
  proof (cases "split_at nl s")
    case (Some ab)
    obtain a b where ab: "(a, b) = ab" by (cases ab) auto
    then have "set b \<subseteq> set s" using split_at_Some [of nl s a b] Some by auto
    then show ?thesis using 1 [OF Some ab] Some ab [symmetric] by (simp add: remainder.simps [of s])
  qed (simp add: remainder.simps [of s])
qed

lemma print_lines_eq: "nul \<notin> set p \<Longrightarrow> print_lines pattern p = (selected pattern (lines p), remainder p)"
proof (induction pattern p rule: print_lines.induct)
  case (1 pattern p)
  have tw: "takeWhile (\<lambda>c. c \<noteq> nul) p = p" using 1(2) by (simp add: takeWhile_eq_all_conv) blast
  show ?case
  proof (cases "split_at nl p")
    case None
    then show ?thesis by (simp add: print_lines.simps [of pattern p] tw lines.simps [of p] remainder.simps [of p])
  next
    case (Some ab)
    obtain a b where ab: "(a, b) = ab" by (cases ab) auto
    then have p: "p = a @ nl # b" using split_at_Some Some by blast
    then have d: "drop (Suc (length a)) p = b" "nul \<notin> set b" using 1(2) by auto
    show ?thesis using 1(1) [unfolded tw, OF Some ab] d Some ab [symmetric]
      by (simp add: print_lines.simps [of pattern p] tw lines.simps [of p] remainder.simps [of p])
  qed
qed

lemma grep_loop_eq:
  assumes "nul \<notin> set (buf @ input)" "nl \<notin> set buf" "\<forall>l\<in>set (lines (buf @ input)). length l < BUFSIZE - 1"
  shows "grep_loop sizes pattern buf input i = selected pattern (lines (buf @ input))"
  using assms
proof (induction sizes pattern buf input i rule: grep_loop.induct)
  case (1 sizes pattern buf input i)
  define n where "n = min (min (length input) (Suc (sizes i))) (BUFSIZE - length buf - 1)"
  have loop: "grep_loop sizes pattern buf input i =
      (if n = 0 then []
       else case print_lines pattern (buf @ take n input) of
         (out, rest) \<Rightarrow> out @ grep_loop sizes pattern rest (drop n input) (Suc i))"
    by (subst grep_loop.simps) (simp only: Let_def n_def)
  show ?case
  proof (cases "n = 0")
    case True
    then consider "input = []" | "BUFSIZE - 1 \<le> length buf" unfolding n_def by (auto simp: min_def split: if_splits)
    then have "lines (buf @ input) = []"
    proof cases
      case 1
      then show ?thesis using "1.prems"(2) by (simp add: lines_no_nl)
    next
      case 2
      show ?thesis
      proof (rule ccontr)
        assume "lines (buf @ input) \<noteq> []"
        then obtain a b where s: "split_at nl (buf @ input) = Some (a, b)" by (auto simp: lines.simps [of "buf @ input"] split: option.splits)
        have "length a < BUFSIZE - 1" using "1.prems"(3) s by (simp add: lines.simps [of "buf @ input"])
        then have "take (Suc (length a)) (buf @ input) = take (Suc (length a)) buf" using 2 by simp
        moreover have "nl \<in> set (take (Suc (length a)) (buf @ input))" using split_at_Some [OF s] by simp
        ultimately show False using "1.prems"(2) by (metis in_set_takeD)
      qed
    qed
    then show ?thesis using True loop by simp
  next
    case False
    define p where "p = buf @ take n input"
    have np: "nul \<notin> set p" using "1.prems"(1) by (auto simp: p_def dest: in_set_takeD)
    have split: "buf @ input = p @ drop n input" by (simp add: p_def)
    have "nul \<notin> set (remainder p @ drop n input)"
      using np "1.prems"(1) remainder_subset [of p] by (auto dest: in_set_dropD)
    moreover have "\<forall>l\<in>set (lines (remainder p @ drop n input)). length l < BUFSIZE - 1"
      using "1.prems"(3) unfolding split lines_append [of p] by auto
    ultimately have "grep_loop sizes pattern (remainder p) (drop n input) (Suc i) =
        selected pattern (lines (remainder p @ drop n input))"
      using "1.IH" [OF n_def False, of _ "selected pattern (lines p)" "remainder p"] print_lines_eq [OF np] remainder_no_nl
      by (simp add: p_def)
    then show ?thesis using False print_lines_eq [OF np] lines_append [of p "drop n input"] unfolding loop split
      by (simp add: p_def [symmetric])
  qed
qed

section \<open>Properties\<close>

text \<open>
  C29. The matcher of \<open>grep\<close> decides the language of its pattern: it accepts a line exactly if the line has a
  part in the language of the pattern's elements (a character, any character for \<open>.\<close>, or a run of such
  characters for a starred one), at the start of the line for a pattern beginning with \<open>^\<close> and reaching
  its end for a pattern ending with \<open>$\<close>. In particular the backtracking search terminates.
\<close>

theorem match_language: "match re str \<longleftrightarrow> in_pattern re str"
  by (rule match_iff)



end
