(* ===== verification/Frame.thy ===== *)
theory Frame
  imports Kernel_Prelude
begin

text \<open>
  Reasoning about a view of the state: a function of the state that most code leaves as it is.

  \<open>leaves view m\<close> says that \<open>m\<close> keeps the view if it returns, \<open>hv view P m Q\<close> is partial correctness for
  assertions about the view. The rules in \<open>leaves_intros\<close> follow the structure of the code, so that a
  function that does not touch what the view shows is dealt with by one call of \<open>intro\<close>.
\<close>

named_theorems leaves_intros \<open>kernel code that keeps a view of the state\<close>

section \<open>Code that keeps a view of the state\<close>

text \<open>If the code returns, the view of the state is as before.\<close>

definition leaves :: "('s \<Rightarrow> 'v) \<Rightarrow> ('s, 'a) km \<Rightarrow> bool" where
  "leaves view m \<longleftrightarrow> (\<forall>s x t. m s = Ok (x, t) \<longrightarrow> view t = view s)"

lemma leaves_simple [leaves_intros]:
  "leaves view (mret x)" "leaves view (mget f)" "leaves view (mpanic e)" "leaves view mblock" "leaves view mdiverge"
  "leaves view (mpanic_if c e)"
  by (auto simp: leaves_def km_defs)

lemma leaves_mbind [leaves_intros]: "leaves view m \<Longrightarrow> (\<And>x. leaves view (f x)) \<Longrightarrow> leaves view (mbind m f)"
  unfolding leaves_def mbind_Ok_iff by metis

lemma leaves_if [leaves_intros]:
  "(c \<Longrightarrow> leaves view m) \<Longrightarrow> (\<not> c \<Longrightarrow> leaves view m') \<Longrightarrow> leaves view (if c then m else m')"
  by simp

lemma leaves_mwhen [leaves_intros]: "leaves view m \<Longrightarrow> leaves view (mwhen c m)"
  by (simp add: mwhen_def leaves_intros)

lemma leaves_case [leaves_intros]:
  "(x = None \<Longrightarrow> leaves view m) \<Longrightarrow> (\<And>y. x = Some y \<Longrightarrow> leaves view (f y)) \<Longrightarrow> leaves view (case x of None \<Rightarrow> m | Some y \<Rightarrow> f y)"
  "(\<And>a b. w = (a, b) \<Longrightarrow> leaves view (g a b)) \<Longrightarrow> leaves view (case w of (a, b) \<Rightarrow> g a b)"
  by (auto split: option.split prod.split)

lemma leaves_Let [leaves_intros]: "leaves view (f x) \<Longrightarrow> leaves view (Let x f)"
  by simp

lemma leaves_mfor [leaves_intros]: "(\<And>i. leaves view (body i)) \<Longrightarrow> leaves view (mfor is body)"
  by (induction "is") (auto intro: leaves_intros)

lemma leaves_mzoom: "(\<And>t s. view (upd (\<lambda>_. t) s) = view s) \<Longrightarrow> leaves view (mzoom get upd m)"
  by (auto simp: leaves_def mzoom_def split: result.splits)

lemma leaves_mmod: "(\<And>s. view (g s) = view s) \<Longrightarrow> leaves view (mmod g)"
  by (simp add: leaves_def mmod_def)

section \<open>Assertions about a view\<close>

text \<open>Partial correctness over the view: if the code returns, the postcondition holds.\<close>

definition hv :: "('s \<Rightarrow> 'v) \<Rightarrow> ('v \<Rightarrow> bool) \<Rightarrow> ('s, 'a) km \<Rightarrow> ('a \<Rightarrow> 'v \<Rightarrow> bool) \<Rightarrow> bool" where
  "hv view P m Q \<longleftrightarrow> (\<forall>s x t. m s = Ok (x, t) \<longrightarrow> P (view s) \<longrightarrow> Q x (view t))"

lemma hv_bind: "hv view P m R \<Longrightarrow> (\<And>x. hv view (R x) (f x) Q) \<Longrightarrow> hv view P (mbind m f) Q"
  unfolding hv_def mbind_Ok_iff by metis

lemma hv_leaves: "leaves view m \<Longrightarrow> hv view P m (\<lambda>_. P)"
  by (auto simp: hv_def leaves_def)

lemma hv_leaves_bind: "leaves view m \<Longrightarrow> (\<And>x. hv view P (f x) Q) \<Longrightarrow> hv view P (mbind m f) Q"
  by (rule hv_bind [OF hv_leaves])

lemma hv_mret: "(\<And>v. P v \<Longrightarrow> Q x v) \<Longrightarrow> hv view P (mret x) Q"
  by (auto simp: hv_def mret_def)

lemma hv_pre: "hv view P m Q \<Longrightarrow> (\<And>v. P' v \<Longrightarrow> P v) \<Longrightarrow> hv view P' m Q"
  by (auto simp: hv_def)

lemma hv_post: "hv view P m Q \<Longrightarrow> (\<And>x v. Q x v \<Longrightarrow> Q' x v) \<Longrightarrow> hv view P m Q'"
  by (auto simp: hv_def)

lemma hv_if: "(c \<Longrightarrow> hv view P m Q) \<Longrightarrow> (\<not> c \<Longrightarrow> hv view P m' Q) \<Longrightarrow> hv view P (if c then m else m') Q"
  by simp

lemma hv_pure: "(c \<Longrightarrow> hv view P m Q) \<Longrightarrow> hv view (\<lambda>v. P v \<and> c) m Q"
  by (auto simp: hv_def)

lemma hv_mwhen: "(c \<Longrightarrow> hv view P m Q) \<Longrightarrow> (\<And>v. \<not> c \<Longrightarrow> P v \<Longrightarrow> Q () v) \<Longrightarrow> hv view P (mwhen c m) Q"
  by (auto simp: mwhen_def intro: hv_mret)

lemma hv_mfor:
  assumes "\<And>k. k < length is \<Longrightarrow> hv view (I k) (body (is ! k)) (\<lambda>_. I (Suc k))"
  shows "hv view (I 0) (mfor is body) (\<lambda>_. I (length is))"
  using assms
proof (induction "is" arbitrary: I)
  case (Cons i "is")
  have "hv view (I (Suc 0)) (mfor is body) (\<lambda>_. I (Suc (length is)))"
    using Cons.IH [of "\<lambda>k. I (Suc k)"] Cons.prems by fastforce
  moreover have "hv view (I 0) (body i) (\<lambda>_. I (Suc 0))" using Cons.prems [of 0] by simp
  ultimately show ?case by (simp add: hv_bind)
qed (simp add: hv_mret)

end
