(* ===== verification/Descriptors.thy ===== *)
theory Descriptors
  imports Trap Frame
begin

text \<open>
  The reference counts of open files, over all system calls.

  \<open>ref\<close> of a \<open>struct file\<close> counts the descriptors of all processes that refer to it. The count is kept
  by \<open>filealloc\<close>, \<open>filedup\<close>, \<open>fileclose\<close> and \<open>fdalloc\<close>, in system calls that use them in different orders and
  undo them on their error paths. Shown: every system call that returns, and \<open>exit\<close>, leaves every
  count equal to the number of descriptors; so the panics of \<open>filedup\<close> and \<open>fileclose\<close> are not reachable from
  a descriptor, and a file is not reused while a descriptor refers to it.
\<close>

section \<open>The view of files and descriptors\<close>

lemma leaves_outcomes [leaves_intros]:
  "(\<And>i. leaves view (h i)) \<Longrightarrow> (\<And>i. leaves view (h' i)) \<Longrightarrow> leaves view (case out of Return i \<Rightarrow> h i | Asleep i \<Rightarrow> h' i)"
  "(leaves view a) \<Longrightarrow> leaves view b \<Longrightarrow> leaves view c \<Longrightarrow> leaves view d \<Longrightarrow>
     leaves view (case ft of FD_NONE \<Rightarrow> a | FD_PIPE \<Rightarrow> b | FD_INODE \<Rightarrow> c | FD_DEVICE \<Rightarrow> d)"
  by (auto split: outcome.split ftype.split)

text \<open>The descriptors of every process, and which processes have ended or do not exist.\<close>

definition pt_view :: "ptable \<Rightarrow> (nat \<Rightarrow> nat \<Rightarrow> nat) \<times> (nat \<Rightarrow> bool)" where
  "pt_view s = (\<lambda>p. p_ofile (pt_proc s p), \<lambda>p. p_state (pt_proc s p) \<in> {UNUSED, ZOMBIE})"

definition fd_view :: "kernel \<Rightarrow> (nat \<Rightarrow> int) \<times> (nat \<Rightarrow> nat \<Rightarrow> nat) \<times> (nat \<Rightarrow> bool)" where
  "fd_view s = (\<lambda>f. f_ref (k_ftable s f), pt_view (k_pt s))"

lemma leaves_pset [leaves_intros]:
  "(\<And>x. p_ofile (g x) = p_ofile x) \<Longrightarrow> (\<And>x. p_state (g x) = p_state x) \<Longrightarrow> leaves pt_view (pset p g)"
  by (auto simp: leaves_def pset_def mmod_def pt_view_def fun_eq_iff)

lemma leaves_pt [leaves_intros]:
  "leaves pt_view (pget sel p)" "leaves pt_view (killed p)" "leaves pt_view find_unused"
  by (auto simp: leaves_def pget_def mget_def killed_def find_unused_def)

lemma leaves_wakeup [leaves_intros]: "leaves pt_view (wakeup me ch)"
proof -
  have "leaves pt_view (mbind (mget (\<lambda>s. pt_proc s p)) (\<lambda>x.
       mwhen (p_state x = SLEEPING \<and> p_chan x = Some ch) (pset p (p_state_update (\<lambda>_. RUNNABLE)))))" for p
    by (auto simp: leaves_def km_defs pt_view_def fun_eq_iff)
  then show ?thesis unfolding wakeup_def by (intro leaves_mfor leaves_mwhen)
qed

lemma leaves_kill_loop: "leaves pt_view (kill_loop pid ps)"
proof (induction ps)
  case (Cons p ps)
  have "leaves pt_view (mbind (mget (\<lambda>s. pt_proc s p)) (\<lambda>x.
      if p_pid x = pid then
        mbind (pset p (p_killed_update (\<lambda>_. True))) (\<lambda>_.
        mbind (mwhen (p_state x = SLEEPING) (pset p (p_state_update (\<lambda>_. RUNNABLE)))) (\<lambda>_.
        mret (0 :: int)))
      else kill_loop pid ps))"
    using Cons by (auto simp: leaves_def km_defs pt_view_def fun_eq_iff split: if_splits)
  then show ?case by simp
qed (simp add: leaves_intros)

lemma leaves_kill [leaves_intros]: "leaves pt_view (kill pid)"
  by (simp add: kill_def leaves_kill_loop)

lemma leaves_reparent [leaves_intros]: "leaves pt_view (reparent p)"
  unfolding reparent_def by (intro leaves_intros; simp)

lemma leaves_kpt [leaves_intros]: "leaves pt_view m \<Longrightarrow> leaves fd_view (kpt m)"
  by (auto simp: leaves_def kpt_def mzoom_def fd_view_def split: result.splits)

lemma leaves_state [leaves_intros]:
  "leaves fd_view (kfs m)" "leaves fd_view (kuart m1)" "leaves fd_view (kmutex m2)"
  "leaves fd_view (pipe_set pi pg)" "leaves fd_view (pipe_zoom pi pz)" "leaves fd_view (cons_set cg)"
  unfolding kfs_def kuart_def kmutex_def pipe_set_def pipe_zoom_def cons_set_def
  by (rule leaves_mzoom leaves_mmod; simp add: fd_view_def Let_def)+

lemma leaves_kernel [leaves_intros]:
  "leaves fd_view (kmemory m)" "leaves fd_view (my sel p)" "leaves fd_view (fget fsel f)"
  unfolding kmemory_def my_def fget_def by (intro leaves_intros)+

lemma leaves_calls [leaves_intros]:
  "leaves fd_view (fsop p h)" "leaves fd_view op_begin" "leaves fd_view (op_end p)"
  "leaves fd_view (kcopyout p va bs)" "leaves fd_view (kcopyin p va n)"
  "leaves fd_view (tf_load p off)" "leaves fd_view (tf_store p off w)"
  "leaves fd_view (knamei p path)" "leaves fd_view (knameiparent p path)" "leaves fd_view (ifield isel ip)" "leaves fd_view (iassign ip ig)"
  unfolding fsop_def op_begin_def op_end_def kcopyout_def kcopyin_def tf_load_def tf_store_def knamei_def knameiparent_def
    ifield_def iassign_def
  by (intro leaves_intros)+

lemma leaves_fset [leaves_intros]: "(\<And>x. f_ref (g x) = f_ref x) \<Longrightarrow> leaves fd_view (fset f g)"
  by (auto simp: leaves_def fset_def mmod_def fd_view_def fun_eq_iff)

section \<open>System calls that use files but keep the descriptors\<close>

lemma leaves_uart_wake [leaves_intros]: "leaves fd_view (uart_wake me m)"
  unfolding uart_wake_def by (intro leaves_intros)

lemma leaves_consolewrite_loop: "leaves fd_view (consolewrite_loop k p src i)"
  by (induction k arbitrary: src i) (simp_all, intro leaves_intros, auto intro!: leaves_intros)

lemma leaves_consoleread_loop: "leaves fd_view (consoleread_loop k p target dst)"
  by (induction k arbitrary: dst) (simp_all, intro leaves_intros, auto intro!: leaves_intros)

lemma leaves_console [leaves_intros]:
  "leaves fd_view (consolewrite p src n)" "leaves fd_view (consoleread p dst n)"
  by (auto simp: consolewrite_def consoleread_def leaves_consolewrite_loop leaves_consoleread_loop intro: leaves_intros)

lemma leaves_filewrite_loop [leaves_intros]: "leaves fd_view (filewrite_loop p f ip pt addr n i)"
proof (induction p f ip pt addr n i rule: filewrite_loop.induct)
  case (1 p f ip pt addr n i)
  show ?case
    by (subst filewrite_loop.simps, intro leaves_intros; (rule 1)?; simp)
qed

lemma leaves_fileread [leaves_intros]: "leaves fd_view (fileread p f addr n)"
  unfolding fileread_def file_piperead_def bad_device_def by (intro leaves_intros; simp)

lemma leaves_filewrite [leaves_intros]: "leaves fd_view (filewrite p f addr n)"
  unfolding filewrite_def file_pipewrite_def bad_device_def by (intro leaves_intros; simp)

lemma leaves_filestat [leaves_intros]: "leaves fd_view (filestat stack p f addr)"
  unfolding filestat_def by (intro leaves_intros)

lemma leaves_fetchaddr [leaves_intros]: "leaves fd_view (fetchaddr p addr)"
  unfolding fetchaddr_def by (intro leaves_intros)

lemma leaves_args [leaves_intros]:
  "leaves fd_view (argaddr p n)" "leaves fd_view (argint p n)" "leaves fd_view (argstr p n mx)"
  unfolding argaddr_def argint_def argstr_def argraw_def fetchstr_def by (intro leaves_intros)+

lemma leaves_argfd [leaves_intros]: "leaves fd_view (argfd p n)"
  unfolding argfd_def by (intro leaves_intros)

lemma leaves_create [leaves_intros]: "leaves fd_view (create p path typ major minor)"
  unfolding create_def create_fail_def by (intro leaves_intros)

lemma leaves_fetch_args [leaves_intros]: "leaves fd_view (fetch_args k p uargv pgs)"
  by (induction k arbitrary: pgs) (simp_all, intro leaves_intros, auto intro!: leaves_intros)

lemma leaves_loadseg_loop: "leaves fd_view (loadseg_loop fuel p pagetable va ip offset sz i)"
  by (induction fuel arbitrary: i) (simp_all, intro leaves_intros, auto intro!: leaves_intros)

lemma leaves_load_segments [leaves_intros]: "leaves fd_view (load_segments k p pagetable ip off sz)"
proof (induction k arbitrary: off sz)
  case (Suc k)
  then show ?case unfolding load_segments.simps loadseg_def by (intro leaves_intros leaves_loadseg_loop Suc)
qed (simp add: leaves_intros)

lemma leaves_push_args [leaves_intros]: "leaves fd_view (push_args pagetable stackbase argv sp ustack)"
proof (induction argv arbitrary: sp ustack)
  case (Cons a argv)
  then show ?case unfolding push_args.simps page_string_def by (intro leaves_intros Cons)
qed (simp add: leaves_intros)

lemma leaves_exec_bad [leaves_intros]: "leaves fd_view (exec_bad p pagetable sz ip)"
  unfolding exec_bad_def by (intro leaves_intros)

lemma leaves_exec_stack [leaves_intros]: "leaves fd_view (exec_stack p path argv elf pagetable sz0)"
  unfolding exec_stack_def by (intro leaves_intros; simp)

lemma leaves_exec [leaves_intros]: "leaves fd_view (exec trampoline p path argv)"
  unfolding exec_def by (intro leaves_intros)

lemma leaves_sysfile [leaves_intros]:
  "leaves fd_view (sys_read p)" "leaves fd_view (sys_write p)" "leaves fd_view (sys_fstat stack p)"
  "leaves fd_view (sys_link p)" "leaves fd_view (sys_unlink p)" "leaves fd_view (sys_mkdir p)" "leaves fd_view (sys_mknod p)"
  "leaves fd_view (sys_chdir p)" "leaves fd_view (sys_exec trampoline p)" "leaves fd_view (sys_lseek p)" "leaves fd_view (sys_chmod p)"
  unfolding sys_read_def sys_write_def forbidden_def sys_fstat_def sys_link_def sys_link_bad_def sys_unlink_def sys_unlink_bad_def
    sys_mkdir_def sys_mknod_def make_node_def sys_chdir_def sys_exec_def sys_lseek_def sys_chmod_def
  by (intro leaves_intros; simp)+

lemma leaves_sysproc [leaves_intros]:
  "leaves fd_view (sys_getpid p)" "leaves fd_view (sys_sbrk p)" "leaves fd_view (sys_sleep p)" "leaves fd_view (sys_kill p)"
  "leaves fd_view sys_uptime" "leaves fd_view sys_freemem" "leaves fd_view (sys_mutex_create p)" "leaves fd_view (sys_mutex_lock p)"
  "leaves fd_view (sys_mutex_unlock p)" "leaves fd_view (sys_mutex_free p)" "leaves fd_view (sys_getprocs stack p)"
  unfolding sys_getpid_def sys_sbrk_def growproc_def sys_sleep_def sleep_until_def sys_kill_def sys_uptime_def sys_freemem_def
    sys_mutex_create_def sys_mutex_lock_def sys_mutex_unlock_def sys_mutex_free_def mutex_wake_def sys_getprocs_def
  by (intro leaves_intros; simp)+

section \<open>Accounting for references\<close>

type_synonym fd_state = "(nat \<Rightarrow> int) \<times> (nat \<Rightarrow> nat \<Rightarrow> nat) \<times> (nat \<Rightarrow> bool)"

abbreviation fds :: "fd_state \<Rightarrow> nat \<Rightarrow> nat \<Rightarrow> nat" where "fds v \<equiv> fst (snd v)"
abbreviation dead :: "fd_state \<Rightarrow> nat \<Rightarrow> bool" where "dead v \<equiv> snd (snd v)"

text \<open>The number of descriptors that refer to a file.\<close>

definition uses :: "(nat \<Rightarrow> nat \<Rightarrow> nat) \<Rightarrow> nat \<Rightarrow> nat" where
  "uses d f = card {(p, fd). p < NPROC \<and> fd < NOFILE \<and> d p fd = f}"

text \<open>
  Every count is the number of descriptors plus the references \<open>E\<close> that the running system call holds
  (or owes, if negative); descriptors name entries of the table, and ended processes have none.
\<close>

definition balanced :: "(nat \<Rightarrow> int) \<Rightarrow> fd_state \<Rightarrow> bool" where
  "balanced E v \<longleftrightarrow>
     (\<forall>f. 1 \<le> f \<and> f \<le> NFILE \<longrightarrow> fst v f = int (uses (fds v) f) + E f) \<and>
     (\<forall>p fd. p < NPROC \<longrightarrow> fd < NOFILE \<longrightarrow> fds v p fd \<le> NFILE) \<and>
     (\<forall>p fd. p < NPROC \<longrightarrow> dead v p \<longrightarrow> fd < NOFILE \<longrightarrow> fds v p fd = 0)"

lemma uses_finite: "finite {(p, fd). p < NPROC \<and> fd < NOFILE \<and> d p fd = f}"
  by (rule finite_subset [of _ "{..<NPROC} \<times> {..<NOFILE}"]) auto

lemma uses_update:
  assumes "p < NPROC" "fd < NOFILE"
  shows "int (uses (d(p := (d p)(fd := g))) f) = int (uses d f) - of_bool (d p fd = f) + of_bool (g = f)"
proof -
  let ?U = "\<lambda>d. {(p, fd). p < NPROC \<and> fd < NOFILE \<and> d p fd = f}"
  define R where "R = ?U d - {(p, fd)}"
  have R: "finite R" "(p, fd) \<notin> R" using uses_finite by (auto simp: R_def)
  have "?U (d(p := (d p)(fd := g))) = (if g = f then insert (p, fd) R else R)" using assms by (auto simp: R_def split: if_splits)
  then have "int (card (?U (d(p := (d p)(fd := g))))) = int (card R) + of_bool (g = f)" using R by simp
  moreover have "?U d = (if d p fd = f then insert (p, fd) R else R)" using assms by (auto simp: R_def)
  then have "int (card (?U d)) = int (card R) + of_bool (d p fd = f)" using R by simp
  ultimately show ?thesis unfolding uses_def by simp
qed

lemma uses_pos: "p < NPROC \<Longrightarrow> fd < NOFILE \<Longrightarrow> 0 < uses d (d p fd)"
  unfolding uses_def using uses_finite [of d "d p fd"] by (auto simp: card_gt_0_iff)

subsection \<open>The operations that change counts and descriptors\<close>

text \<open>The accounts are balanced up to \<open>E\<close>, the descriptors are \<open>d\<close> and the ended processes \<open>e\<close>.\<close>

definition bal :: "(nat \<Rightarrow> int) \<Rightarrow> (nat \<Rightarrow> nat \<Rightarrow> nat) \<Rightarrow> (nat \<Rightarrow> bool) \<Rightarrow> fd_state \<Rightarrow> bool" where
  "bal E d e v \<longleftrightarrow> balanced E v \<and> snd v = (d, e)"

definition holding_ref :: "(nat \<Rightarrow> int) \<Rightarrow> nat \<Rightarrow> nat \<Rightarrow> int" where
  "holding_ref E f h = E h + of_bool (h = f)"

definition owing_ref :: "(nat \<Rightarrow> int) \<Rightarrow> nat \<Rightarrow> nat \<Rightarrow> int" where
  "owing_ref E f h = E h - of_bool (h = f)"

lemmas ref_defs = holding_ref_def owing_ref_def

lemma bal_cong: "(\<And>h. 1 \<le> h \<Longrightarrow> E h = E' h) \<Longrightarrow> bal E d e v \<Longrightarrow> bal E' d e v"
  by (auto simp: bal_def balanced_def)

lemma bal_range: "bal E d e v \<Longrightarrow> p < NPROC \<Longrightarrow> fd < NOFILE \<Longrightarrow> d p fd \<le> NFILE"
  by (auto simp: bal_def balanced_def)

lemma bal_dead: "bal E d e v \<Longrightarrow> p < NPROC \<Longrightarrow> e p \<Longrightarrow> fd < NOFILE \<Longrightarrow> d p fd = 0"
  by (auto simp: bal_def balanced_def)

lemma hv_bal_range:
  "(d p fd \<le> NFILE \<Longrightarrow> hv fd_view (bal E d e) m Q) \<Longrightarrow> p < NPROC \<Longrightarrow> fd < NOFILE \<Longrightarrow> hv fd_view (bal E d e) m Q"
  using bal_range by (auto simp: hv_def)

lemma hv_bal_dead:
  "((\<And>fd. fd < NOFILE \<Longrightarrow> d p fd = 0) \<Longrightarrow> hv fd_view (bal E d e) m Q) \<Longrightarrow> p < NPROC \<Longrightarrow> e p \<Longrightarrow> hv fd_view (bal E d e) m Q"
  unfolding hv_def using bal_dead by metis

lemma hv_bal_pre: "hv fd_view (bal E' d e) m Q \<Longrightarrow> (\<And>h. 1 \<le> h \<Longrightarrow> E h = E' h) \<Longrightarrow> hv fd_view (bal E d e) m Q"
  unfolding hv_def using bal_cong by blast

lemma hv_my: "hv fd_view (bal E d e) (my (\<lambda>x. p_ofile x i) p) (\<lambda>f v. bal E d e v \<and> f = d p i)"
  by (auto simp: hv_def my_def mget_def bal_def fd_view_def pt_view_def proc_at_def)

lemma hv_pset:
  assumes "\<And>v x. P v \<Longrightarrow> p_ofile x = fds v p \<Longrightarrow> (p_state x \<in> {UNUSED, ZOMBIE}) = dead v p \<Longrightarrow>
    Q () (fst v, (fds v)(p := p_ofile (g x)), (dead v)(p := (p_state (g x) \<in> {UNUSED, ZOMBIE})))"
  shows "hv fd_view P (kpt (pset p g)) Q"
proof -
  have "Q () (fd_view (s\<lparr>k_pt := (k_pt s)\<lparr>pt_proc := (pt_proc (k_pt s))(p := g (pt_proc (k_pt s) p))\<rparr>\<rparr>))" if "P (fd_view s)" for s
  proof -
    have "fd_view (s\<lparr>k_pt := (k_pt s)\<lparr>pt_proc := (pt_proc (k_pt s))(p := x)\<rparr>\<rparr>) =
        (fst (fd_view s), (fds (fd_view s))(p := p_ofile x), (dead (fd_view s))(p := (p_state x \<in> {UNUSED, ZOMBIE})))" for x
      by (auto simp: fd_view_def pt_view_def fun_eq_iff)
    then show ?thesis using assms [OF that, of "pt_proc (k_pt s) p"] by (simp add: fd_view_def pt_view_def)
  qed
  then show ?thesis by (auto simp: hv_def kpt_def mzoom_def pset_def mmod_def)
qed

lemma hv_fset:
  assumes "\<And>v x. P v \<Longrightarrow> f_ref x = fst v f \<Longrightarrow> Q () ((fst v)(f := f_ref (g x)), snd v)"
  shows "hv fd_view P (fset f g) Q"
proof -
  have "Q () (fd_view (s\<lparr>k_ftable := (k_ftable s)(f := g (k_ftable s f))\<rparr>))" if "P (fd_view s)" for s
  proof -
    have "fd_view (s\<lparr>k_ftable := (k_ftable s)(f := x)\<rparr>) = ((fst (fd_view s))(f := f_ref x), snd (fd_view s))" for x
      by (auto simp: fd_view_def fun_eq_iff)
    then show ?thesis using assms [OF that, of "k_ftable s f"] by (simp add: fd_view_def)
  qed
  then show ?thesis by (auto simp: hv_def fset_def mmod_def)
qed

lemma hv_ofile:
  assumes "p < NPROC" "fd < NOFILE" "g \<le> NFILE" "g = 0 \<or> \<not> e p"
  shows "hv fd_view (bal E d e) (kpt (pset p (\<lambda>x. x\<lparr>p_ofile := (p_ofile x)(fd := g)\<rparr>)))
    (\<lambda>_. bal (owing_ref (holding_ref E (d p fd)) g) (d(p := (d p)(fd := g))) e)"
proof (rule hv_pset)
  fix v and x :: proc
  assume v: "bal E d e v" and x: "p_ofile x = fds v p" "(p_state x \<in> {UNUSED, ZOMBIE}) = dead v p"
  obtain r where r: "v = (r, d, e)" using v by (cases v) (auto simp: bal_def)
  have "r h = int (uses (d(p := (d p)(fd := g))) h) + owing_ref (holding_ref E (d p fd)) g h"
    if "1 \<le> h" "h \<le> NFILE" for h
    using uses_update [OF assms(1,2), of d g h] v r that
    by (auto simp: bal_def balanced_def ref_defs eq_commute [of "d p fd"] eq_commute [of g])
  then have "balanced (owing_ref (holding_ref E (d p fd)) g) (r, d(p := (d p)(fd := g)), e)"
    using v r assms(3,4) by (auto simp: bal_def balanced_def)
  then show "bal (owing_ref (holding_ref E (d p fd)) g) (d(p := (d p)(fd := g))) e
      (fst v, (fds v)(p := p_ofile (x\<lparr>p_ofile := (p_ofile x)(fd := g)\<rparr>)),
       (dead v)(p := (p_state (x\<lparr>p_ofile := (p_ofile x)(fd := g)\<rparr>) \<in> {UNUSED, ZOMBIE})))"
    using r x by (simp add: bal_def fun_upd_idem)
qed

lemma hv_state:
  assumes "p < NPROC" "\<And>x. p_ofile (g x) = p_ofile x" "\<And>x. p_state (g x) = st"
    and "st \<in> {UNUSED, ZOMBIE} \<Longrightarrow> \<forall>fd<NOFILE. d p fd = 0"
  shows "hv fd_view (bal E d e) (kpt (pset p g)) (\<lambda>_. bal E d (e(p := (st \<in> {UNUSED, ZOMBIE}))))"
proof (rule hv_pset)
  fix v and x :: proc
  assume v: "bal E d e v" and x: "p_ofile x = fds v p" "(p_state x \<in> {UNUSED, ZOMBIE}) = dead v p"
  obtain r where r: "v = (r, d, e)" using v by (cases v) (auto simp: bal_def)
  then have "balanced E (r, d, e(p := (st \<in> {UNUSED, ZOMBIE})))"
    using v assms(4) by (auto simp: bal_def balanced_def)
  then show "bal E d (e(p := (st \<in> {UNUSED, ZOMBIE})))
     (fst v, (fds v)(p := p_ofile (g x)), (dead v)(p := (p_state (g x) \<in> {UNUSED, ZOMBIE})))"
    using r x assms(2,3) by (simp add: bal_def)
qed

lemma hv_ref:
  assumes "\<And>x. f_ref (g x) = f_ref x + c"
  shows "hv fd_view (bal E d e) (fset f g) (\<lambda>_. bal (\<lambda>h. E h + (if h = f then c else 0)) d e)"
  by (rule hv_fset) (auto simp: bal_def balanced_def assms)

lemma find_SomeD: "List.find P xs = Some x \<Longrightarrow> P x \<and> x \<in> set xs"
  by (auto simp: find_Some_iff)

lemma hv_filealloc:
  "hv fd_view (bal E d e) filealloc (\<lambda>f v. if f = 0 then bal E d e v else bal (holding_ref E f) d e v \<and> f \<le> NFILE)"
proof -
  have "(if f = 0 then bal E d e (fd_view t) else bal (holding_ref E f) d e (fd_view t) \<and> f \<le> NFILE)"
    if a: "filealloc s = Ok (f, t)" and s: "bal E d e (fd_view s)" for s f t
  proof (cases "List.find (\<lambda>f. f_ref (k_ftable s f) = 0) [1..<Suc NFILE]")
    case None
    then show ?thesis using that by (simp add: filealloc_def km_defs)
  next
    case (Some g)
    then have g: "f_ref (k_ftable s g) = 0" "1 \<le> g" "g \<le> NFILE" by (auto simp del: upt_Suc dest!: find_SomeD)
    have t: "f = g" "t = s\<lparr>k_ftable := (k_ftable s)(g := (k_ftable s g)\<lparr>f_ref := 1\<rparr>)\<rparr>"
      using Some a by (auto simp: filealloc_def km_defs)
    have "hv fd_view (\<lambda>v. v = fd_view s) (fset g (f_ref_update (\<lambda>_. 1))) (\<lambda>_. bal (holding_ref E g) d e)"
      by (rule hv_fset) (use s g in \<open>auto simp: bal_def balanced_def holding_ref_def fd_view_def\<close>)
    then have "bal (holding_ref E g) d e (fd_view t)" by (auto simp: hv_def fset_def mmod_def t)
    then show ?thesis using t g by simp
  qed
  then show ?thesis unfolding hv_def by blast
qed

lemma hv_filedup: "hv fd_view (bal E d e) (filedup f) (\<lambda>f' v. bal (holding_ref E f) d e v \<and> f' = f)"
  unfolding filedup_def
  by (rule hv_leaves_bind hv_bind hv_ref [where c = 1] leaves_intros hv_mret | simp)+
    (auto simp: holding_ref_def elim!: bal_cong [rotated])

lemma leaves_pipeclose [leaves_intros]: "leaves fd_view (pipeclose p pi w)"
  unfolding pipeclose_def by (intro leaves_intros)

lemma file_binds:
  "mbind (fget sel f) k s = k (sel (k_ftable s f)) s"
  "mbind (fset f g) k' s = k' () (s\<lparr>k_ftable := (k_ftable s)(f := g (k_ftable s f))\<rparr>)"
  by (simp_all add: km_defs)

lemma hv_fileclose: "hv fd_view (bal E d e) (fileclose p f) (\<lambda>_. bal (owing_ref E f) d e)"
proof -
  have "bal (owing_ref E f) d e (fd_view t)" if c: "fileclose p f s = Ok (x, t)" and s: "bal E d e (fd_view s)" for s x t
  proof -
    let ?s = "s\<lparr>k_ftable := (k_ftable s)(f := f_ref_update (\<lambda>r. r - 1) (k_ftable s f))\<rparr>"
    have "hv fd_view (bal E d e) (fset f (f_ref_update (\<lambda>r. r - 1))) (\<lambda>_. bal (\<lambda>h. E h + (if h = f then - 1 else 0)) d e)"
      by (rule hv_ref) simp
    then have "bal (\<lambda>h. E h + (if h = f then - 1 else 0)) d e (fd_view ?s)"
      using s by (auto simp: hv_def fset_def mmod_def)
    then have b: "bal (owing_ref E f) d e (fd_view ?s)" by (rule bal_cong [rotated]) (simp add: owing_ref_def)
    show ?thesis
    proof (cases "f_ref (k_ftable s f) > 1")
      case True
      then have "t = ?s" using c by (simp add: fileclose_def km_defs)
      then show ?thesis using b by simp
    next
      case False
      let ?t = "?s\<lparr>k_ftable := (k_ftable ?s)(f := (k_ftable ?s f)\<lparr>f_ref := 0, f_type := FD_NONE\<rparr>)\<rparr>"
      have one: "f_ref (k_ftable s f) = 1"
        using False c by (auto simp: fileclose_def km_defs split: if_splits)
      then have v: "fd_view ?t = fd_view ?s" by (simp add: fd_view_def fun_eq_iff)
      have "fileclose p f s = (case f_type (k_ftable s f) of
          FD_PIPE \<Rightarrow> pipeclose p (f_pipe (k_ftable s f)) (f_writable (k_ftable s f))
        | FD_NONE \<Rightarrow> mret ()
        | _ \<Rightarrow> mbind op_begin (\<lambda>_. mbind (fsop p (\<lambda>me. iput me (f_ip (k_ftable s f)))) (\<lambda>_. op_end p))) ?t"
        using one by (simp add: fileclose_def file_binds mpanic_if_def split: ftype.split)
      moreover have "leaves fd_view (case f_type (k_ftable s f) of
          FD_PIPE \<Rightarrow> pipeclose p (f_pipe (k_ftable s f)) (f_writable (k_ftable s f))
        | FD_NONE \<Rightarrow> mret ()
        | _ \<Rightarrow> mbind op_begin (\<lambda>_. mbind (fsop p (\<lambda>me. iput me (f_ip (k_ftable s f)))) (\<lambda>_. op_end p)))"
        by (intro leaves_intros)
      ultimately have "fd_view t = fd_view ?t" using c by (auto simp: leaves_def)
      then show ?thesis using v b by simp
    qed
  qed
  then show ?thesis unfolding hv_def by blast
qed

lemma hv_fdalloc:
  assumes "p < NPROC" "\<not> e p" "f \<le> NFILE"
  shows "hv fd_view (bal E d e) (fdalloc p f) (\<lambda>r v. case r of None \<Rightarrow> bal E d e v
    | Some fd \<Rightarrow> bal (owing_ref E f) (d(p := (d p)(fd := f))) e v \<and> fd < NOFILE \<and> d p fd = 0)"
proof -
  have find: "hv fd_view (bal E d e) (mget (\<lambda>s. List.find (\<lambda>fd. p_ofile (proc_at p s) fd = 0) [0..<NOFILE]))
      (\<lambda>r v. bal E d e v \<and> (\<forall>fd. r = Some fd \<longrightarrow> fd < NOFILE \<and> d p fd = 0))"
    by (auto simp: hv_def mget_def bal_def fd_view_def pt_view_def proc_at_def dest: find_SomeD)
  show ?thesis unfolding fdalloc_def
  proof (rule hv_bind [OF find], rule hv_pure)
    fix r
    assume r: "\<forall>fd. r = Some fd \<longrightarrow> fd < NOFILE \<and> d p fd = 0"
    show "hv fd_view (bal E d e) (case r of None \<Rightarrow> mret None | Some fd \<Rightarrow> mbind (ofile_set p fd f) (\<lambda>_. mret (Some fd)))
      (\<lambda>r v. case r of None \<Rightarrow> bal E d e v
       | Some fd \<Rightarrow> bal (owing_ref E f) (d(p := (d p)(fd := f))) e v \<and> fd < NOFILE \<and> d p fd = 0)"
    proof (cases r)
      case (Some fd)
      then have fd: "fd < NOFILE" "d p fd = 0" using r by auto
      have "hv fd_view (bal E d e) (ofile_set p fd f) (\<lambda>_. bal (owing_ref (holding_ref E (d p fd)) f) (d(p := (d p)(fd := f))) e)"
        unfolding ofile_set_def using assms fd by (intro hv_ofile) auto
      then have "hv fd_view (bal E d e) (ofile_set p fd f) (\<lambda>_. bal (owing_ref E f) (d(p := (d p)(fd := f))) e)"
        by (rule hv_post) (auto simp: ref_defs fd elim!: bal_cong [rotated])
      then show ?thesis using Some fd by (auto intro!: hv_bind hv_mret)
    qed (simp add: hv_mret)
  qed
qed

lemma hv_argfd:
  assumes "p < NPROC"
  shows "hv fd_view (bal E d e) (argfd p n) (\<lambda>r v. bal E d e v \<and>
    (\<forall>fd f. r = Some (fd, f) \<longrightarrow> fd < NOFILE \<and> f = d p fd \<and> f \<noteq> 0 \<and> f \<le> NFILE))"
  unfolding argfd_def
proof (rule hv_leaves_bind [OF leaves_args(2)], rule hv_if)
  fix fd
  assume "\<not> (fd < 0 \<or> int NOFILE \<le> fd)"
  then have fd: "nat fd < NOFILE" by (auto simp: nat_less_iff)
  show "hv fd_view (bal E d e) (mbind (my (\<lambda>x. p_ofile x (nat fd)) p) (\<lambda>f. if f = 0 then mret None else mret (Some (nat fd, f))))
    (\<lambda>r v. bal E d e v \<and> (\<forall>fd f. r = Some (fd, f) \<longrightarrow> fd < NOFILE \<and> f = d p fd \<and> f \<noteq> 0 \<and> f \<le> NFILE))"
  proof (rule hv_bal_range [OF _ assms fd], rule hv_bind [OF hv_my])
    fix f
    assume "d p (nat fd) \<le> NFILE"
    then show "hv fd_view (\<lambda>v. bal E d e v \<and> f = d p (nat fd)) (if f = 0 then mret None else mret (Some (nat fd, f)))
      (\<lambda>r v. bal E d e v \<and> (\<forall>fd f. r = Some (fd, f) \<longrightarrow> fd < NOFILE \<and> f = d p fd \<and> f \<noteq> 0 \<and> f \<le> NFILE))"
      using fd by (auto intro!: hv_mret)
  qed
qed (rule hv_mret, simp)

subsection \<open>System calls on descriptors\<close>

abbreviation none :: "nat \<Rightarrow> int" where "none \<equiv> \<lambda>_. 0"

lemma bal_settled: "bal E d e v \<Longrightarrow> (\<And>h. 1 \<le> h \<Longrightarrow> E h = 0) \<Longrightarrow> balanced none v"
  using bal_cong [of E none] by (auto simp: bal_def)

lemma hv_sys_dup:
  assumes "p < NPROC" "\<not> e p"
  shows "hv fd_view (bal none d e) (sys_dup p) (\<lambda>_. balanced none)"
  unfolding sys_dup_def
proof (rule hv_bind [OF hv_argfd [OF assms(1)]], rule hv_pure)
  fix r
  assume r: "\<forall>fd f. r = Some (fd, f) \<longrightarrow> fd < NOFILE \<and> f = d p fd \<and> f \<noteq> 0 \<and> f \<le> NFILE"
  have "hv fd_view (bal none d e) (mbind (fdalloc p f) (\<lambda>r. case r of None \<Rightarrow> mret (- 1) | Some fd \<Rightarrow> mbind (filedup f) (\<lambda>_. mret (of_nat fd))))
      (\<lambda>_. balanced none)" if "f \<le> NFILE" for f
  proof (rule hv_bind [OF hv_fdalloc [where e = e and p = p, OF assms that]])
    fix r
    show "hv fd_view (\<lambda>v. case r of None \<Rightarrow> bal none d e v
         | Some fd \<Rightarrow> bal (owing_ref none f) (d(p := (d p)(fd := f))) e v \<and> fd < NOFILE \<and> d p fd = 0)
        (case r of None \<Rightarrow> mret (- 1) | Some fd \<Rightarrow> mbind (filedup f) (\<lambda>_. mret (of_nat fd))) (\<lambda>_. balanced none)"
      by (cases r) (auto intro!: hv_pure hv_mret hv_bind [OF hv_filedup] simp: ref_defs elim: bal_settled)
  qed
  then show "hv fd_view (bal none d e)
      (case r of None \<Rightarrow> mret (- 1) | Some (fd0, f) \<Rightarrow>
         mbind (fdalloc p f) (\<lambda>r. case r of None \<Rightarrow> mret (- 1) | Some fd \<Rightarrow> mbind (filedup f) (\<lambda>_. mret (of_nat fd))))
      (\<lambda>_. balanced none)"
    using r by (cases r) (auto intro: hv_mret elim: bal_settled)
qed

lemma hv_sys_close:
  assumes "p < NPROC"
  shows "hv fd_view (bal none d e) (sys_close p) (\<lambda>_. balanced none)"
  unfolding sys_close_def
proof (rule hv_bind [OF hv_argfd [OF assms]], rule hv_pure)
  fix r
  assume r: "\<forall>fd f. r = Some (fd, f) \<longrightarrow> fd < NOFILE \<and> f = d p fd \<and> f \<noteq> 0 \<and> f \<le> NFILE"
  have "hv fd_view (bal none d e) (mbind (ofile_set p fd 0) (\<lambda>_. mbind (fileclose p (d p fd)) (\<lambda>_. mret 0))) (\<lambda>_. balanced none)"
    if "fd < NOFILE" for fd
    unfolding ofile_set_def
    by (rule hv_bind [OF hv_ofile], use assms that in simp_all, rule hv_bind [OF hv_fileclose], rule hv_mret)
      (auto simp: ref_defs elim: bal_settled)
  then show "hv fd_view (bal none d e)
      (case r of None \<Rightarrow> mret (- 1) | Some (fd, f) \<Rightarrow> mbind (ofile_set p fd 0) (\<lambda>_. mbind (fileclose p f) (\<lambda>_. mret 0)))
      (\<lambda>_. balanced none)"
    using r by (cases r) (auto intro: hv_mret elim: bal_settled)
qed

lemma hv_open_file:
  assumes "p < NPROC" "\<not> e p"
  shows "hv fd_view (bal none d e) (open_file p omode ip) (\<lambda>_. balanced none)"
  unfolding open_file_def
proof (rule hv_bind [OF hv_filealloc])
  fix f
  let ?rest = "\<lambda>r. case r of
      None \<Rightarrow>
        mbind (mwhen (f \<noteq> 0) (fileclose p f)) (\<lambda>_.
        mbind (fsop p (\<lambda>me. iunlockput me ip)) (\<lambda>_.
        mbind (op_end p) (\<lambda>_.
        mret (- 1))))
    | Some fd \<Rightarrow>
        mbind (ifield id ip) (\<lambda>i.
        mbind (if i_type i = T_DEVICE
          then fset f (\<lambda>x. x\<lparr>f_type := FD_DEVICE, f_major := i_major i\<rparr>)
          else fset f (\<lambda>x. x\<lparr>f_type := FD_INODE, f_off := 0\<rparr>)) (\<lambda>_.
        mbind (fset f (\<lambda>x. x\<lparr>f_ip := ip, f_readable := (omode AND O_WRONLY = 0),
            f_writable := (omode AND O_WRONLY \<noteq> 0 \<or> omode AND O_RDWR \<noteq> 0)\<rparr>)) (\<lambda>_.
        mbind (mwhen (omode AND O_TRUNC \<noteq> 0 \<and> i_type i = T_FILE) (fsop p (\<lambda>me. itrunc me ip))) (\<lambda>_.
        mbind (fsop p (\<lambda>me. iunlock me ip)) (\<lambda>_.
        mbind (op_end p) (\<lambda>_.
        mret (of_nat fd)))))))"
  have opened: "hv fd_view P (?rest (Some fd)) (\<lambda>_. P)" for P fd
    unfolding option.case by (rule hv_leaves) (intro leaves_intros; simp)
  have failed: "hv fd_view (bal (holding_ref none f) d e) (?rest None) (\<lambda>_. balanced none)"
    unfolding option.case
  proof (rule hv_bind)
    show "hv fd_view (bal (holding_ref none f) d e) (mwhen (f \<noteq> 0) (fileclose p f)) (\<lambda>_. balanced none)"
      by (rule hv_mwhen, rule hv_post [OF hv_fileclose]) (auto simp: ref_defs elim: bal_settled)
    show "hv fd_view (balanced none) (mbind (fsop p (\<lambda>me. iunlockput me ip)) (\<lambda>_. mbind (op_end p) (\<lambda>_. mret (- 1)))) (\<lambda>_. balanced none)"
      by (rule hv_leaves) (intro leaves_intros)
  qed
  show "hv fd_view (\<lambda>v. if f = 0 then bal none d e v else bal (holding_ref none f) d e v \<and> f \<le> NFILE)
      (mbind (if f = 0 then mret None else fdalloc p f) ?rest) (\<lambda>_. balanced none)"
  proof (cases "f = 0")
    case True
    have "hv fd_view (bal none d e) (?rest None) (\<lambda>_. balanced none)"
      by (rule hv_bal_pre [OF failed]) (simp add: ref_defs True)
    then show ?thesis using True by simp
  next
    case False
    have "hv fd_view (bal (holding_ref none f) d e) (mbind (fdalloc p f) ?rest) (\<lambda>_. balanced none)" if "f \<le> NFILE"
    proof (rule hv_bind [OF hv_fdalloc [where e = e and p = p, OF assms that]])
      fix r
      have "hv fd_view (\<lambda>v. bal (owing_ref (holding_ref none f) f) (d(p := (d p)(fd := f))) e v \<and> fd < NOFILE \<and> d p fd = 0) (?rest (Some fd))
          (\<lambda>_. balanced none)" for fd
        by (rule hv_post [OF opened]) (auto simp: ref_defs elim: bal_settled)
      then show "hv fd_view (\<lambda>v. case r of None \<Rightarrow> bal (holding_ref none f) d e v
           | Some fd \<Rightarrow> bal (owing_ref (holding_ref none f) f) (d(p := (d p)(fd := f))) e v \<and> fd < NOFILE \<and> d p fd = 0)
          (?rest r) (\<lambda>_. balanced none)"
        using failed by (cases r) (simp_all only: option.case)
    qed
    then have "hv fd_view (\<lambda>v. bal (holding_ref none f) d e v \<and> f \<le> NFILE) (mbind (fdalloc p f) ?rest) (\<lambda>_. balanced none)"
      by (rule hv_pure)
    then show ?thesis using False by simp
  qed
qed

lemma hv_settle: "leaves fd_view m \<Longrightarrow> hv fd_view (bal none d e) m (\<lambda>_. balanced none)"
  by (rule hv_post [OF hv_leaves]) (auto simp: bal_def)

lemma hv_sys_open:
  assumes "p < NPROC" "\<not> e p"
  shows "hv fd_view (bal none d e) (sys_open p) (\<lambda>_. balanced none)"
proof -
  have inode: "hv fd_view (bal none d e) (open_inode p omode ip) (\<lambda>_. balanced none)" for omode ip
    unfolding open_inode_def
    by (rule hv_leaves_bind, intro leaves_intros, intro hv_if)
      (rule hv_settle, intro leaves_intros, rule hv_settle, intro leaves_intros, rule hv_open_file [where e = e and p = p, OF assms])
  have last: "hv fd_view (bal none d e) (if c then mret (- 1) else m) (\<lambda>_. balanced none)"
    if "hv fd_view (bal none d e) m (\<lambda>_. balanced none)" for c and m :: "(kernel, u64) km"
    using that by (auto intro: hv_settle leaves_intros)
  show ?thesis unfolding sys_open_def Let_def split_def
    by (rule hv_leaves_bind hv_if last inode leaves_intros hv_settle)+
qed

lemma hv_pipealloc:
  "hv fd_view (bal none d e) (pipealloc p) (\<lambda>(r, f0, f1) v.
     if r < 0 then bal none d e v else bal (holding_ref (holding_ref none f0) f1) d e v \<and> f0 \<noteq> 0 \<and> f0 \<le> NFILE \<and> f1 \<le> NFILE)"
  (is "hv _ _ _ ?Q")
proof -
  let ?fill = "\<lambda>pi f0 f1.
    mbind (pipe_set pi (\<lambda>x. x\<lparr>pi_readopen := True, pi_writeopen := True, pi_nwrite := 0, pi_nread := 0\<rparr>)) (\<lambda>_.
    mbind (fset f0 (\<lambda>x. x\<lparr>f_type := FD_PIPE, f_readable := True, f_writable := False, f_pipe := pi\<rparr>)) (\<lambda>_.
    mbind (fset f1 (\<lambda>x. x\<lparr>f_type := FD_PIPE, f_readable := False, f_writable := True, f_pipe := pi\<rparr>)) (\<lambda>_.
    mret (0, f0, f1))))"
  have close: "hv fd_view (bal (holding_ref E f) d e) (mwhen (f \<noteq> 0) (fileclose p f)) (\<lambda>_. bal E d e)" for E f
    by (rule hv_mwhen, rule hv_post [OF hv_fileclose]) (auto simp: ref_defs elim!: bal_cong [rotated])
  have bad: "hv fd_view (bal (holding_ref (holding_ref none f0) f1) d e) (pipealloc_bad p f0 f1) ?Q" for f0 f1
    unfolding pipealloc_bad_def
  proof (rule hv_bal_pre [where E' = "holding_ref (holding_ref none f1) f0"], rule hv_bind [OF close], rule hv_bind [OF close])
    show "hv fd_view (bal none d e) (mret (- 1, f0, f1)) ?Q" by (rule hv_mret) simp
  qed (simp add: ref_defs)
  have second: "hv fd_view (\<lambda>v. if f1 = 0 then bal (holding_ref none f0) d e v
        else bal (holding_ref (holding_ref none f0) f1) d e v \<and> f1 \<le> NFILE)
      (if f1 = 0 then pipealloc_bad p f0 f1
       else mbind (kmemory kalloc) (\<lambda>pi.
        if pi = 0 then pipealloc_bad p f0 f1 else ?fill pi f0 f1)) ?Q" if "f0 \<noteq> 0" "f0 \<le> NFILE" for f0 f1
  proof (cases "f1 = 0")
    case True
    then show ?thesis using hv_bal_pre [OF bad [of f0 0], of "holding_ref none f0"] by (simp add: ref_defs)
  next
    case False
    have ok: "hv fd_view (bal (holding_ref (holding_ref none f0) f1) d e)
      (?fill pi f0 f1) ?Q" if "f1 \<le> NFILE" for pi
      by (rule hv_leaves_bind, intro leaves_intros)+ (use that \<open>f0 \<noteq> 0\<close> \<open>f0 \<le> NFILE\<close> in \<open>auto intro!: hv_leaves_bind leaves_intros hv_mret\<close>)
    have "hv fd_view (\<lambda>v. bal (holding_ref (holding_ref none f0) f1) d e v \<and> f1 \<le> NFILE) (mbind (kmemory kalloc) (\<lambda>pi.
        if pi = 0 then pipealloc_bad p f0 f1 else ?fill pi f0 f1)) ?Q"
      by (rule hv_pure, rule hv_leaves_bind [OF leaves_kernel(1)], rule hv_if, rule bad, rule ok)
    then show ?thesis using False by simp
  qed
  show ?thesis unfolding pipealloc_def
  proof (rule hv_bind [OF hv_filealloc])
    fix f0
    show "hv fd_view (\<lambda>v. if f0 = 0 then bal none d e v else bal (holding_ref none f0) d e v \<and> f0 \<le> NFILE)
      (if f0 = 0 then pipealloc_bad p f0 0
       else mbind filealloc (\<lambda>f1.
        if f1 = 0 then pipealloc_bad p f0 f1
        else mbind (kmemory kalloc) (\<lambda>pi.
        if pi = 0 then pipealloc_bad p f0 f1 else ?fill pi f0 f1))) ?Q"
    proof (cases "f0 = 0")
      case True
      then show ?thesis using hv_bal_pre [OF bad [of 0 0], of none] by (simp add: ref_defs)
    next
      case False
      note hv_bind [OF hv_filealloc, OF second, OF False]
      then show ?thesis using False by (simp only: if_False simp_thms) (rule hv_pure)
    qed
  qed
qed

lemma hv_sys_pipe:
  assumes "p < NPROC" "\<not> e p"
  shows "hv fd_view (bal none d e) (sys_pipe p) (\<lambda>_. balanced none)"
proof -
  have clear: "hv fd_view (bal E d' e) (ofile_set p fd 0) (\<lambda>_. bal (holding_ref E (d' p fd)) (d'(p := (d' p)(fd := 0))) e)"
    if "fd < NOFILE" for E d' fd
    unfolding ofile_set_def
    by (rule hv_post [OF hv_ofile]) (use assms that in \<open>auto simp: ref_defs elim!: bal_cong [rotated]\<close>)
  have bad0: "hv fd_view (bal E d' e) (mbind (fileclose p r) (\<lambda>_. mbind (fileclose p w) (\<lambda>_. mret x))) (\<lambda>_. balanced none)"
    if "\<And>h. 1 \<le> h \<Longrightarrow> E h = of_bool (h = r) + of_bool (h = w)" for E d' r w and x :: u64
    by (rule hv_bind [OF hv_fileclose], rule hv_bind [OF hv_fileclose], rule hv_mret)
      (use that in \<open>auto simp: ref_defs elim!: bal_settled\<close>)
  have bad1: "hv fd_view (bal (owing_ref (holding_ref (holding_ref none r) w) r) (d(p := (d p)(fd0 := r))) e) (sys_pipe_bad p [fd0] r w) (\<lambda>_. balanced none)"
    if "fd0 < NOFILE" for r w fd0
    unfolding sys_pipe_bad_def mfor.simps mbind_assoc mret_bind
    by (rule hv_bind [OF clear [OF that]], rule bad0) (simp add: ref_defs)
  have bad2: "hv fd_view (bal (owing_ref (owing_ref (holding_ref (holding_ref none r) w) r) w) (d'(p := (d' p)(fd1 := w))) e)
      (sys_pipe_bad p [fd0, fd1] r w) (\<lambda>_. balanced none)"
    if "fd0 < NOFILE" "fd1 < NOFILE" "d' = d(p := (d p)(fd0 := r))" "d' p fd1 = 0" "r \<noteq> 0" for r w fd0 fd1 d'
  proof -
    have "fd0 \<noteq> fd1" using that(3-5) by auto
    then show ?thesis
      unfolding sys_pipe_bad_def mfor.simps mbind_assoc mret_bind
      by (rule_tac hv_bind [OF clear [OF that(1)]], rule_tac hv_bind [OF clear [OF that(2)]], rule_tac bad0) (auto simp: ref_defs that(3))
  qed
  let ?out = "\<lambda>fdarray rfl wfl fd0 fd1.
      mbind (kcopyout p fdarray (bytes32 (of_nat fd0))) (\<lambda>c0.
      mbind (if c0 < 0 then mret c0 else kcopyout p (fdarray + 4) (bytes32 (of_nat fd1))) (\<lambda>c1.
      if c1 < 0 then sys_pipe_bad p [fd0, fd1] rfl wfl else mret 0))"
  have both: "hv fd_view (bal (owing_ref (owing_ref (holding_ref (holding_ref none r) w) r) w) (d'(p := (d' p)(fd1 := w))) e)
      (?out fdarray r w fd0 fd1) (\<lambda>_. balanced none)"
    if "fd0 < NOFILE" "fd1 < NOFILE" "d' = d(p := (d p)(fd0 := r))" "d' p fd1 = 0" "r \<noteq> 0" for fdarray r w fd0 fd1 d'
    by (rule hv_leaves_bind, intro leaves_intros, rule hv_leaves_bind, intro leaves_intros, rule hv_if, rule bad2 [OF that], rule hv_mret)
      (auto simp: ref_defs elim!: bal_settled)
  have snd_fd: "hv fd_view (bal (owing_ref (holding_ref (holding_ref none r) w) r) (d(p := (d p)(fd0 := r))) e)
      (mbind (fdalloc p w) (\<lambda>r1. case r1 of None \<Rightarrow> sys_pipe_bad p [fd0] r w | Some fd1 \<Rightarrow> ?out fdarray r w fd0 fd1)) (\<lambda>_. balanced none)"
    if "fd0 < NOFILE" "r \<noteq> 0" "w \<le> NFILE" for fdarray r w fd0
  proof (rule hv_bind [OF hv_fdalloc [where e = e and p = p, OF assms that(3)]], goal_cases)
    case (1 r1)
    show ?case
    proof (cases r1)
      case (Some fd1)
      then show ?thesis using both [OF that(1) _ refl _ that(2), of fd1 w fdarray]
        by (auto simp: hv_def)
    qed (simp add: bad1 that)
  qed
  have fst_fd: "hv fd_view (bal (holding_ref (holding_ref none r) w) d e)
      (mbind (fdalloc p r) (\<lambda>r0. case r0 of None \<Rightarrow> sys_pipe_bad p [] r w | Some fd0 \<Rightarrow>
         mbind (fdalloc p w) (\<lambda>r1. case r1 of None \<Rightarrow> sys_pipe_bad p [fd0] r w | Some fd1 \<Rightarrow> ?out fdarray r w fd0 fd1))) (\<lambda>_. balanced none)"
    if "r \<noteq> 0" "r \<le> NFILE" "w \<le> NFILE" for fdarray r w
  proof (rule hv_bind [OF hv_fdalloc [where e = e and p = p, OF assms that(2)]], goal_cases)
    case (1 r0)
    show ?case
    proof (cases r0)
      case None
      have "hv fd_view (bal (holding_ref (holding_ref none r) w) d e) (sys_pipe_bad p [] r w) (\<lambda>_. balanced none)"
        unfolding sys_pipe_bad_def mfor.simps mret_bind by (rule bad0) (simp add: ref_defs)
      then show ?thesis using None by simp
    next
      case (Some fd0)
      then show ?thesis using snd_fd [of fd0 r w fdarray] that by (auto simp: hv_def)
    qed
  qed
  show ?thesis unfolding sys_pipe_def
  proof (rule hv_leaves_bind [OF leaves_args(1)], rule hv_bind [OF hv_pipealloc], goal_cases)
    case (1 fdarray x)
    obtain r rfl wfl where x: "x = (r, rfl, wfl)" by (cases x)
    have "hv fd_view (bal none d e) (mret (- 1 :: u64)) (\<lambda>_. balanced none)" by (intro hv_settle leaves_intros)
    then show ?case using fst_fd [of rfl wfl fdarray] unfolding x by (auto simp: hv_def)
  qed
qed

subsection \<open>fork, exit and wait\<close>

lemma hv_kpt_bind: "hv fd_view P (kpt m) R \<Longrightarrow> (\<And>x. hv fd_view (R x) (kpt (f x)) Q) \<Longrightarrow> hv fd_view P (kpt (mbind m f)) Q"
proof -
  have "kpt (mbind m f) = mbind (kpt m) (\<lambda>x. kpt (f x))"
    by (rule ext) (simp add: kpt_def mzoom_def mbind_def split: result.split)
  then show "hv fd_view P (kpt m) R \<Longrightarrow> (\<And>x. hv fd_view (R x) (kpt (f x)) Q) \<Longrightarrow> hv fd_view P (kpt (mbind m f)) Q" by (simp add: hv_bind)
qed

lemma hv_claim_proc: "p < NPROC \<Longrightarrow> hv fd_view (bal E d e) (kpt (claim_proc p)) (\<lambda>_. bal E d (e(p := False)))"
proof -
  assume p: "p < NPROC"
  have "leaves pt_view allocpid" by (auto simp: leaves_def allocpid_def km_defs pt_view_def)
  then show ?thesis unfolding claim_proc_def
    by (rule_tac hv_kpt_bind [OF hv_leaves [OF leaves_kpt]])
      (use p hv_state [of p _ USED d E e] in \<open>auto simp: insert_commute\<close>)
qed

lemma hv_freeproc:
  assumes "p < NPROC" "\<forall>fd<NOFILE. d p fd = 0"
  shows "hv fd_view (bal E d e) (freeproc p) (\<lambda>_. bal E d (e(p := True)))"
proof -
  have "hv fd_view (bal E d e) (kpt (clear_proc p)) (\<lambda>_. bal E d (e(p := True)))"
    unfolding clear_proc_def using assms by (rule_tac hv_post [OF hv_state [where st = UNUSED]]) auto
  then show ?thesis unfolding freeproc_def by (intro hv_leaves_bind leaves_intros; simp)
qed

lemma hv_find_unused:
  "hv fd_view (bal E d e) (kpt find_unused) (\<lambda>r v. bal E d e v \<and> (\<forall>p. r = Some p \<longrightarrow> p < NPROC \<and> e p))"
  by (auto simp: hv_def bal_def kpt_def mzoom_def find_unused_def mget_def fd_view_def pt_view_def dest: find_SomeD)

lemma hv_allocproc:
  "hv fd_view (bal E d e) (allocproc trampoline ra0) (\<lambda>r v. case r of None \<Rightarrow> bal E d e v
     | Some p \<Rightarrow> bal E d (e(p := False)) v \<and> p < NPROC \<and> e p \<and> (\<forall>fd<NOFILE. d p fd = 0))" (is "hv _ _ _ ?Q")
  unfolding allocproc_def
proof (rule hv_bind [OF hv_find_unused], rule hv_pure)
  fix r
  assume r: "\<forall>p. r = Some p \<longrightarrow> p < NPROC \<and> e p"
  have free: "hv fd_view (bal E d (e(p := False))) (mbind (freeproc p) (\<lambda>_. mret None)) ?Q"
    if "p < NPROC" "e p" "\<forall>fd<NOFILE. d p fd = 0" for p
  proof (rule hv_bind [OF hv_freeproc], rule that(1), rule that(3), rule hv_mret)
    fix v
    assume "bal E d ((e(p := False))(p := True)) v"
    moreover have "(e(p := False))(p := True) = e" using that(2) by (auto simp: fun_eq_iff)
    ultimately show "?Q None v" by (simp only: option.case)
  qed
  have finished: "hv fd_view (bal E d (e(p := False))) (mret (Some p)) ?Q" if "p < NPROC" "e p" "\<forall>fd<NOFILE. d p fd = 0" for p
    using that by (intro hv_mret) simp
  show "hv fd_view (bal E d e) (case r of
      None \<Rightarrow> mret None
    | Some p \<Rightarrow>
        mbind (kpt (claim_proc p)) (\<lambda>_.
        mbind (kmemory kalloc) (\<lambda>tf.
        mbind (kpt (pset p (p_trapframe_update (\<lambda>_. tf)))) (\<lambda>_.
        if tf = 0 then
          mbind (freeproc p) (\<lambda>_.
          mret None)
        else
          mbind (kmemory (proc_pagetable trampoline tf)) (\<lambda>pt.
          mbind (kpt (pset p (p_pagetable_update (\<lambda>_. pt)))) (\<lambda>_.
          if pt = 0 then
            mbind (freeproc p) (\<lambda>_.
            mret None)
          else
            mbind (my p_kstack p) (\<lambda>kstack.
            mbind (kpt (pset p (p_context_update (\<lambda>_. \<lparr>ctx_ra = ra0, ctx_sp = kstack + PGSIZE, ctx_s = \<lambda>_. 0\<rparr>)))) (\<lambda>_.
            mret (Some p))))))))) ?Q"
  proof (cases r)
    case (Some p)
    then have p: "p < NPROC" "e p" using r by auto
    show ?thesis unfolding Some option.case
      by (rule hv_bal_dead [where e = e and p = p, OF _ p], rule hv_bind [OF hv_claim_proc [OF p(1)]])
        (rule hv_leaves_bind hv_if free [OF p] finished [OF p] leaves_intros | simp)+
  qed (simp add: hv_mret)
qed

lemma hv_wait_scan: "hv fd_view (bal none d e) (wait_scan p addr ps k) (\<lambda>_. balanced none)"
  if "set ps \<subseteq> {..<NPROC}"
  using that
proof (induction ps arbitrary: k)
  case Nil
  then show ?case unfolding wait_scan.simps by (intro hv_settle leaves_intros)
next
  case (Cons pp ps)
  have get: "hv fd_view (bal none d e) (mget (proc_at pp)) (\<lambda>x v. bal none d e v \<and> (p_state x = ZOMBIE \<longrightarrow> e pp))"
    by (auto simp: hv_def mget_def bal_def fd_view_def pt_view_def proc_at_def)
  have reap: "hv fd_view (bal none d e) (mbind (freeproc pp) (\<lambda>_. mret r)) (\<lambda>_. balanced none)" if "e pp" for r :: int
  proof (rule hv_bal_dead)
    assume "\<And>fd. fd < NOFILE \<Longrightarrow> d pp fd = 0"
    then show "hv fd_view (bal none d e) (mbind (freeproc pp) (\<lambda>_. mret r)) (\<lambda>_. balanced none)"
      using Cons.prems by (rule_tac hv_bind [OF hv_freeproc]) (auto intro!: hv_mret simp: bal_def)
  qed (use that Cons.prems in auto)
  have rest: "hv fd_view (bal none d e) (wait_scan p addr ps k) (\<lambda>_. balanced none)" for k
    using Cons by simp
  show ?case unfolding wait_scan.simps
    by (rule hv_bind [OF get], rule hv_pure)
      (rule hv_if hv_leaves_bind rest reap hv_settle leaves_intros | simp)+
qed

lemma hv_fork:
  assumes "p < NPROC" "\<not> e p"
  shows "hv fd_view (bal none d e) (fork trampoline ra0 p) (\<lambda>_. balanced none)"
  unfolding fork_def
proof (rule hv_bind [OF hv_allocproc], goal_cases)
  case (1 r)
  show ?case
  proof (cases r)
    case None
    then show ?thesis by (auto intro!: hv_settle leaves_intros)
  next
    case (Some np)
    let ?e = "e(np := False)"
    let ?dup = "\<lambda>i. mbind (my (\<lambda>x. p_ofile x i) p) (\<lambda>f.
            mwhen (f \<noteq> 0) (
              mbind (filedup f) (\<lambda>f'.
              kpt (pset np (\<lambda>y. y\<lparr>p_ofile := (p_ofile y)(i := f')\<rparr>)))))"
    have main: "hv fd_view (bal none d ?e) (mfor [0..<NOFILE] ?dup) (\<lambda>_. balanced none)"
      if np: "np < NPROC" "e np" "\<forall>fd<NOFILE. d np fd = 0"
    proof -
      have ne: "p \<noteq> np" using assms(2) np(2) by auto
      define I where "I k = bal none (d(np := (\<lambda>i. if i < k then d p i else d np i))) ?e" for k
      have "hv fd_view (I k) (?dup k) (\<lambda>_. I (Suc k))" if k: "k < NOFILE" for k
      proof -
        define dk where "dk = d(np := (\<lambda>i. if i < k then d p i else d np i))"
        have dk: "dk p k = d p k" "dk np k = 0" using ne np(3) k by (auto simp: dk_def)
        have Sk: "I (Suc k) = bal none (dk(np := (dk np)(k := d p k))) ?e"
          unfolding I_def dk_def by (rule arg_cong [where f = "\<lambda>d. bal none d ?e"]) (auto simp: fun_eq_iff)
        have step: "hv fd_view (bal none dk ?e) (mbind (filedup f) (\<lambda>f'. kpt (pset np (\<lambda>y. y\<lparr>p_ofile := (p_ofile y)(k := f')\<rparr>))))
            (\<lambda>_. I (Suc k))" if "f = d p k" "f \<le> NFILE" for f
          by (rule hv_bind [OF hv_filedup], rule hv_pure, simp only: that(1), rule hv_post [OF hv_ofile])
            (use np k that dk in \<open>auto simp: ref_defs Sk elim!: bal_cong [rotated]\<close>)
        have same: "d p k = 0 \<Longrightarrow> I (Suc k) = bal none dk ?e" using dk by (simp add: Sk fun_upd_idem)
        have "hv fd_view (bal none dk ?e) (?dup k) (\<lambda>_. I (Suc k))"
        proof (rule hv_bal_range [of dk p k], rule hv_bind [OF hv_my], rule hv_pure)
          fix f
          assume "dk p k \<le> NFILE" "f = dk p k"
          then show "hv fd_view (bal none dk ?e) (mwhen (f \<noteq> 0) (mbind (filedup f) (\<lambda>f'. kpt (pset np (\<lambda>y. y\<lparr>p_ofile := (p_ofile y)(k := f')\<rparr>)))))
              (\<lambda>_. I (Suc k))"
            using step [of f] same dk by (intro hv_mwhen) auto
        qed (use assms k in auto)
        then show ?thesis by (simp add: I_def dk_def)
      qed
      then have "hv fd_view (I 0) (mfor [0..<NOFILE] ?dup) (\<lambda>_. I NOFILE)" using hv_mfor [of "[0..<NOFILE]" fd_view I ?dup] by simp
      then have "hv fd_view (I 0) (mfor [0..<NOFILE] ?dup) (\<lambda>_. balanced none)" by (rule hv_post) (simp add: I_def bal_def)
      then show ?thesis by (simp add: I_def)
    qed
    have free: "hv fd_view (bal none d ?e) (mbind (freeproc np) (\<lambda>_. mret (- 1 :: int))) (\<lambda>_. balanced none)"
      if np: "np < NPROC" "\<forall>fd<NOFILE. d np fd = 0"
      by (rule hv_bind [OF hv_freeproc [where d = d and p = np, OF np]], rule hv_mret) (simp add: bal_def)
    have run: "hv fd_view (balanced none) (kpt (make_runnable np)) (\<lambda>_. balanced none)"
      unfolding make_runnable_def by (rule hv_pset) (auto simp: balanced_def)
    show ?thesis unfolding Some option.case
      by (rule hv_pure, (erule conjE)+)
        (rule free hv_bind [OF main] hv_bind [OF run] hv_leaves_bind hv_if hv_mret leaves_intros | assumption | (simp; fail))+
  qed
qed

lemma hv_exit:
  assumes "p < NPROC"
  shows "hv fd_view (bal none d e) (exit c p status) (\<lambda>_. balanced none)"
proof -
  let ?close = "\<lambda>fd. mbind (my (\<lambda>x. p_ofile x fd) p) (\<lambda>f.
      mwhen (f \<noteq> 0) (
        mbind (fileclose p f) (\<lambda>_.
        kpt (pset p (\<lambda>x. x\<lparr>p_ofile := (p_ofile x)(fd := 0)\<rparr>)))))"
  define I where "I k = bal none (d(p := (\<lambda>i. if i < k then 0 else d p i))) e" for k
  have "hv fd_view (I k) (?close k) (\<lambda>_. I (Suc k))" if k: "k < NOFILE" for k
  proof -
    define dk where "dk = d(p := (\<lambda>i. if i < k then 0 else d p i))"
    have dk: "dk p k = d p k" by (simp add: dk_def)
    have Sk: "I (Suc k) = bal none (dk(p := (dk p)(k := 0))) e"
      unfolding I_def dk_def by (rule arg_cong [where f = "\<lambda>d. bal none d e"]) (auto simp: fun_eq_iff)
    have step: "hv fd_view (bal none dk e) (mbind (fileclose p (dk p k)) (\<lambda>_. kpt (pset p (\<lambda>y. y\<lparr>p_ofile := (p_ofile y)(k := 0)\<rparr>)))) (\<lambda>_. I (Suc k))"
      by (rule hv_bind [OF hv_fileclose], rule hv_post [OF hv_ofile])
        (use assms k in \<open>auto simp: ref_defs Sk elim!: bal_cong [rotated]\<close>)
    have "dk p k = 0 \<Longrightarrow> I (Suc k) = bal none dk e" by (simp add: Sk fun_upd_idem)
    then have "hv fd_view (bal none dk e) (?close k) (\<lambda>_. I (Suc k))"
      by (intro hv_bind [OF hv_my] hv_pure) (auto intro!: hv_mwhen step)
    then show ?thesis by (simp add: I_def dk_def)
  qed
  then have "hv fd_view (I 0) (mfor [0..<NOFILE] ?close) (\<lambda>_. I NOFILE)" using hv_mfor [of "[0..<NOFILE]" fd_view I ?close] by simp
  then have closed: "hv fd_view (bal none d e) (mfor [0..<NOFILE] ?close) (\<lambda>_. I NOFILE)" by (simp add: I_def)
  have zombie: "hv fd_view (I NOFILE) (kpt (exit_sched c p status)) (\<lambda>_. balanced none)"
    unfolding exit_sched_def
  proof (rule hv_kpt_bind)
    show "hv fd_view (I NOFILE) (kpt (pset p (\<lambda>x. x\<lparr>p_xstate := status, p_state := ZOMBIE\<rparr>)))
        (\<lambda>_. bal none (d(p := (\<lambda>i. if i < NOFILE then 0 else d p i))) (e(p := True)))"
      unfolding I_def by (rule hv_post [OF hv_state [where st = ZOMBIE]]) (use assms in auto)
    have "leaves pt_view (sched c p)" by (auto simp: leaves_def sched_def km_defs pt_view_def split: if_splits)
    then show "hv fd_view (bal none (d(p := (\<lambda>i. if i < NOFILE then 0 else d p i))) (e(p := True))) (kpt (sched c p)) (\<lambda>_. balanced none)"
      by (intro hv_settle leaves_kpt)
  qed
  show ?thesis unfolding exit_def
    by (rule zombie hv_bind [OF closed] hv_leaves_bind leaves_intros | (simp; fail))+
qed

section \<open>Properties\<close>

text \<open>
  States of the kernel reached by system calls of running processes, from one without open files.
  Other steps (interrupts, the scheduler) touch neither the file table nor descriptors, and do not
  end or create processes.
\<close>

inductive fd_reach :: "code \<Rightarrow> kernel \<Rightarrow> bool" for A where
  boot: "(\<And>f. f_ref (k_ftable s f) = 0) \<Longrightarrow> (\<And>p fd. p_ofile (proc_at p s) fd = 0) \<Longrightarrow> fd_reach A s"
| call: "fd_reach A s \<Longrightarrow> p < NPROC \<Longrightarrow> p_state (proc_at p s) = RUNNING \<Longrightarrow> syscall A stack c p s = Ok (r, t) \<Longrightarrow> fd_reach A t"
| other: "fd_reach A s \<Longrightarrow> fd_view t = fd_view s \<Longrightarrow> fd_reach A t"

lemma syscalls_SomeD:
  "syscalls A stack p nr = Some m \<Longrightarrow> (nr, m) \<in> set
     [(1, sys_fork (at_trampoline A) (at_forkret A) p), (3, sys_wait p), (4, sys_pipe p), (5, sys_read p),
      (6, sys_kill p), (7, sys_exec (at_trampoline A) p), (8, sys_fstat stack p), (9, sys_chdir p), (10, sys_dup p),
      (11, sys_getpid p), (12, sys_sbrk p), (13, sys_sleep p), (14, sys_uptime), (15, sys_open p), (16, sys_write p),
      (17, sys_mknod p), (18, sys_unlink p), (19, sys_link p), (20, sys_mkdir p), (21, sys_close p), (22, sys_freemem),
      (23, sys_lseek p), (24, sys_chmod p), (25, sys_mutex_create p), (26, sys_mutex_lock p), (27, sys_mutex_unlock p),
      (28, sys_mutex_free p), (29, sys_getprocs stack p)]"
  unfolding syscalls_def by (rule map_of_SomeD)

lemma hv_syscalls:
  assumes "p < NPROC" "\<not> e p" "syscalls A stack p nr = Some m"
  shows "hv fd_view (bal none d e) m (\<lambda>_. balanced none)"
proof -
  have frk: "hv fd_view (bal none d e) (sys_fork tr ra0 p) (\<lambda>_. balanced none)" for tr ra0
    unfolding sys_fork_def by (rule hv_bind [OF hv_fork [where e = e and p = p, OF assms(1,2)]], rule hv_mret)
  have wai: "hv fd_view (bal none d e) (sys_wait p) (\<lambda>_. balanced none)"
    unfolding sys_wait_def wait_def
    by (rule hv_leaves_bind [OF leaves_args(1)], rule hv_bind [OF hv_wait_scan], simp add: atLeast0LessThan, rule hv_mret)
  note calls = frk wai hv_sys_pipe [where e = e and p = p, OF assms(1,2)] hv_sys_dup [where e = e and p = p, OF assms(1,2)]
    hv_sys_open [where e = e and p = p, OF assms(1,2)] hv_sys_close [OF assms(1)]
  show ?thesis using syscalls_SomeD [OF assms(3)]
    by (simp only: list.set insert_iff empty_iff simp_thms prod.inject)
      (elim disjE conjE; simp only:; (rule calls | rule hv_settle, rule leaves_intros))
qed

lemma reach_balanced: "fd_reach A s \<Longrightarrow> balanced none (fd_view s)"
proof (induction rule: fd_reach.induct)
  case (boot s)
  then have v: "fd_view s = (\<lambda>f. 0, \<lambda>p fd. 0, \<lambda>p. p_state (proc_at p s) \<in> {UNUSED, ZOMBIE})"
    by (auto simp: fd_view_def pt_view_def proc_at_def fun_eq_iff)
  have "uses (\<lambda>p fd. 0) f = 0" if "1 \<le> f" for f using that by (simp add: uses_def)
  then show ?case by (simp add: v balanced_def)
next
  case (call s p stack c r t)
  obtain d e where "snd (fd_view s) = (d, e)" by (cases "snd (fd_view s)")
  then have b: "bal none d e (fd_view s)" using call.IH by (simp add: bal_def)
  then have e: "\<not> e p" using call.hyps(3) by (auto simp: bal_def fd_view_def pt_view_def proc_at_def)
  have "hv fd_view (bal none d e) (syscall A stack c p) (\<lambda>_. balanced none)"
    unfolding syscall_def Let_def
  proof (rule hv_leaves_bind [OF leaves_calls(6)], rule hv_if)
    fix a7
    show "hv fd_view (bal none d e) (mbind (sys_exit c p) (\<lambda>_. mret False)) (\<lambda>_. balanced none)"
      unfolding sys_exit_def mbind_assoc
      by (rule hv_leaves_bind [OF leaves_args(2)], rule hv_bind [OF hv_exit [OF call.hyps(2)]], simp add: hv_mret)
    show "hv fd_view (bal none d e)
        (case syscalls A stack p (sint (ucast a7 :: u32)) of
          Some f \<Rightarrow> mbind f (\<lambda>r. mbind (tf_store p TF_a0 r) (\<lambda>_. mret True))
        | None \<Rightarrow>
            mbind (my id p) (\<lambda>x.
            mbind (kuart (printf (''%d %s: unknown sys call %d'' @ newline)
              [Aint (of_int (p_pid x)), Astr (Some (str_text 16 (p_name x))), Aint (ucast a7)])) (\<lambda>_.
            mbind (tf_store p TF_a0 (- 1)) (\<lambda>_.
            mret True)))) (\<lambda>_. balanced none)"
    proof (cases "syscalls A stack p (sint (ucast a7 :: u32))")
      case None
      then show ?thesis by (simp only: option.case) (intro hv_settle leaves_intros)
    next
      case (Some m)
      have "hv fd_view (bal none d e) (mbind m (\<lambda>r. mbind (tf_store p TF_a0 r) (\<lambda>_. mret True))) (\<lambda>_. balanced none)"
        by (rule hv_bind [OF hv_syscalls [where p = p and e = e, OF call.hyps(2) e Some]]) (rule hv_leaves, intro leaves_intros)
      then show ?thesis using Some by simp
    qed
  qed
  then show ?case using call.hyps(4) b by (auto simp: hv_def)
qed simp

text \<open>
  C31. In every state reached by system calls, the reference count of every entry of the file table is the
  number of descriptors that refer to it; hence every open descriptor names an entry of the table
  whose count is at least 1, so that neither \<open>filedup\<close> nor \<open>fileclose\<close> panics on it and \<open>filealloc\<close> does not
  give it away.
\<close>

theorem file_reference_counts:
  assumes "fd_reach A s"
  shows "(\<forall>f. 1 \<le> f \<and> f \<le> NFILE \<longrightarrow>
      f_ref (k_ftable s f) = int (card {(p, fd). p < NPROC \<and> fd < NOFILE \<and> p_ofile (proc_at p s) fd = f})) \<and>
    (\<forall>p fd. p < NPROC \<and> fd < NOFILE \<and> p_ofile (proc_at p s) fd \<noteq> 0 \<longrightarrow>
      p_ofile (proc_at p s) fd \<le> NFILE \<and> 1 \<le> f_ref (k_ftable s (p_ofile (proc_at p s) fd)))"
proof -
  note b = reach_balanced [OF assms]
  have "f_ref (k_ftable s f) = int (uses (\<lambda>p. p_ofile (proc_at p s)) f)" if "1 \<le> f" "f \<le> NFILE" for f
    using b that by (auto simp: balanced_def fd_view_def pt_view_def proc_at_def)
  moreover have "p_ofile (proc_at p s) fd \<le> NFILE" if "p < NPROC" "fd < NOFILE" for p fd
    using b that by (auto simp: balanced_def fd_view_def pt_view_def proc_at_def)
  moreover have "0 < uses (\<lambda>p. p_ofile (proc_at p s)) (p_ofile (proc_at p s) fd)" if "p < NPROC" "fd < NOFILE" for p fd
    using uses_pos [OF that, of "\<lambda>p. p_ofile (proc_at p s)"] .
  ultimately show ?thesis unfolding uses_def by (auto simp: Suc_le_eq)
qed

text \<open>Process 0 calls \<open>dup\<close> (system call 10) without an open file.\<close>

definition example_files :: "kernel \<Rightarrow> kernel" where
  "example_files s = s\<lparr>
     k_ftable := (\<lambda>_. \<lparr>f_type = FD_NONE, f_ref = 0, f_readable = False, f_writable = False, f_executable = False,
       f_pipe = 0, f_ip = 0, f_off = 0, f_major = 0\<rparr>),
     k_pt := (k_pt s)\<lparr>pt_proc := (\<lambda>p. (pt_proc (k_pt s) p)\<lparr>p_state := RUNNING, p_trapframe := 0x80022000, p_ofile := (\<lambda>_. 0)\<rparr>)\<rparr>,
     k_fs := (k_fs s)\<lparr>fs_mem := (fs_mem (k_fs s))\<lparr>pm := put64 0x800220a8 10 (\<lambda>_. 0)\<rparr>\<rparr>\<rparr>"

theorem file_reference_counts_witness:
  "\<exists>A t. syscall A (\<lambda>_. 0) 0 0 (example_files undefined) = Ok (True, t) \<and> f_ref (k_ftable t 1) = 0 \<and>
     card {(p, fd). p < NPROC \<and> fd < NOFILE \<and> p_ofile (proc_at p t) fd = 1} = 0"
proof -
  let ?s = "example_files undefined" and ?A = "undefined :: code"
  have boot: "fd_reach ?A ?s" by (rule fd_reach.boot) (simp_all add: example_files_def proc_at_def)
  have a7: "tf_load 0 TF_a7 ?s = Ok (10, ?s)"
    by (simp add: tf_load_def km_defs fmem_def example_files_def proc_at_def TF_a7_def)
  have a0: "argfd 0 0 ?s = Ok (None, ?s)"
    by (simp add: argfd_def argint_def argraw_def tf_load_def km_defs fmem_def example_files_def proc_at_def TF_a0_def NOFILE_def)
  have "\<exists>t. syscall ?A (\<lambda>_. 0) 0 0 ?s = Ok (True, t) \<and> k_ftable t = k_ftable ?s"
    by (simp add: syscall_def mbind_Ok [of "tf_load 0 TF_a7" ?s, OF a7] SYS_exit_def syscalls_def sys_dup_def mbind_assoc mbind_Ok [of "argfd 0 0" ?s, OF a0])
      (simp add: tf_store_def km_defs fmem_def)
  then obtain t where t: "syscall ?A (\<lambda>_. 0) 0 0 ?s = Ok (True, t)" "k_ftable t = k_ftable ?s" by blast
  have "fd_reach ?A t"
    by (rule fd_reach.call [OF boot _ _ t(1)]) (simp_all add: NPROC_def example_files_def proc_at_def)
  from file_reference_counts [OF this] have "f_ref (k_ftable t 1) = int (card {(p, fd). p < NPROC \<and> fd < NOFILE \<and> p_ofile (proc_at p t) fd = 1})"
    by (simp add: NFILE_def)
  moreover have "f_ref (k_ftable t 1) = 0" using t(2) by (simp add: example_files_def)
  ultimately show ?thesis using t(1) by auto
qed

end
