(* ===== verification/Transactions.thy ===== *)
theory Transactions
  imports Descriptors
begin

text \<open>
  Which system calls end the file system operations they begin.

  \<open>begin_op\<close> counts an operation in \<open>log.outstanding\<close>, \<open>end_op\<close> takes it back; only when the count is
  0 does the log commit. Shown: every system call but \<open>open\<close> leaves the count as it was when it returns,
  and \<open>open\<close> does so unless it denies permission. Then the operation is never ended, and after three
  such calls every other operation waits forever.
\<close>

section \<open>Code that leaves the count as it is\<close>

definition fs_outstanding :: "fs \<Rightarrow> int" where
  "fs_outstanding s = lg_outstanding (fs_log s)"

definition outstanding :: "kernel \<Rightarrow> int" where
  "outstanding s = fs_outstanding (k_fs s)"

lemma out_log [leaves_intros]: "leaves lg_outstanding (lbio m)"
  unfolding lbio_def by (rule leaves_mzoom) simp

lemma out_log_write [leaves_intros]: "leaves lg_outstanding (log_write b)"
  unfolding log_write_def by (intro leaves_intros leaves_mmod; simp)

lemma out_commit [leaves_intros]: "leaves lg_outstanding (commit me)"
  unfolding commit_def write_log_def write_head_def install_trans_def by (intro leaves_intros leaves_mmod; simp)

lemma out_flog [leaves_intros]: "leaves lg_outstanding m \<Longrightarrow> leaves fs_outstanding (flog m)"
  by (auto simp: leaves_def flog_def mzoom_def fs_outstanding_def split: result.splits)

lemma out_fs [leaves_intros]:
  "leaves fs_outstanding (fbio m)" "leaves fs_outstanding (fmem m')" "leaves fs_outstanding (iget_field sel ip)"
  "leaves fs_outstanding (iset ip g)" "leaves fs_outstanding (buf_bytes b)"
  "leaves fs_outstanding (ilock_acquire me ip)" "leaves fs_outstanding (ilock_release ip)"
  unfolding fbio_def fmem_def iget_field_def iset_def buf_bytes_def ilock_acquire_def ilock_release_def
  by (intro leaves_intros leaves_mzoom leaves_mmod; simp add: fs_outstanding_def)+

lemma out_bzero [leaves_intros]: "leaves fs_outstanding (bzero me dev bno)"
  unfolding bzero_def by (intro leaves_intros)

lemma out_balloc_loop [leaves_intros]: "leaves fs_outstanding (balloc_loop fuel me dev b)"
proof (induction fuel arbitrary: b)
  case (Suc fuel)
  then show ?case unfolding balloc_loop.simps by (intro leaves_intros Suc)
qed (simp add: leaves_intros)

lemma out_balloc [leaves_intros]: "leaves fs_outstanding (balloc me dev)"
  unfolding balloc_def by (intro leaves_intros)

lemma out_bfree [leaves_intros]: "leaves fs_outstanding (bfree me dev b)"
  unfolding bfree_def by (intro leaves_intros)

lemma out_iget [leaves_intros]: "leaves fs_outstanding (iget dev inum)"
  unfolding iget_def by (intro leaves_intros)

lemma out_ialloc_loop [leaves_intros]: "leaves fs_outstanding (ialloc_loop fuel me dev typ inum)"
proof (induction fuel arbitrary: inum)
  case (Suc fuel)
  then show ?case unfolding ialloc_loop.simps by (intro leaves_intros Suc)
qed (simp add: leaves_intros)

lemma out_inode [leaves_intros]:
  "leaves fs_outstanding (ialloc me dev typ)" "leaves fs_outstanding (iupdate me ip)" "leaves fs_outstanding (idup ip)"
  "leaves fs_outstanding (ilock me ip)" "leaves fs_outstanding (iunlock me ip)" "leaves fs_outstanding (stati ip)"
  unfolding ialloc_def iupdate_def idup_def ilock_def iunlock_def stati_def by (intro leaves_intros)+

lemma out_bmap [leaves_intros]: "leaves fs_outstanding (bmap me ip bn)"
  unfolding bmap_def Let_def by (intro leaves_intros)

lemma out_itrunc [leaves_intros]: "leaves fs_outstanding (itrunc me ip)"
  unfolding itrunc_def by (intro leaves_intros)

lemma out_iput [leaves_intros]: "leaves fs_outstanding (iput me ip)"
  unfolding iput_def by (intro leaves_intros)

lemma out_iunlockput [leaves_intros]: "leaves fs_outstanding (iunlockput me ip)"
  unfolding iunlockput_def by (intro leaves_intros)

lemma out_readi_loop [leaves_intros]: "leaves fs_outstanding (readi_loop me ip dst off n tot)"
proof (induction me ip dst off n tot rule: readi_loop.induct)
  case (1 me ip dst off n tot)
  show ?case by (subst readi_loop.simps, intro leaves_intros; (rule 1)?; simp)
qed

lemma out_writei_loop [leaves_intros]: "leaves fs_outstanding (writei_loop me ip src off n tot)"
proof (induction me ip src off n tot rule: writei_loop.induct)
  case (1 me ip src off n tot)
  show ?case by (subst writei_loop.simps, intro leaves_intros; (rule 1)?; simp)
qed

lemma out_io [leaves_intros]: "leaves fs_outstanding (readi me ip dst off n)" "leaves fs_outstanding (writei me ip src off n)"
  unfolding readi_def writei_def by (intro leaves_intros)+

lemma out_dirlookup_loop [leaves_intros]: "leaves fs_outstanding (dirlookup_loop fuel me dp name off)"
proof (induction fuel arbitrary: off)
  case (Suc fuel)
  then show ?case unfolding dirlookup_loop.simps by (intro leaves_intros Suc)
qed (simp add: leaves_intros)

lemma out_dirlink_loop [leaves_intros]: "leaves fs_outstanding (dirlink_loop fuel me dp off)"
proof (induction fuel arbitrary: off)
  case (Suc fuel)
  then show ?case unfolding dirlink_loop.simps by (intro leaves_intros Suc)
qed (simp add: leaves_intros)

lemma out_isdirempty_loop [leaves_intros]: "leaves fs_outstanding (isdirempty_loop fuel me dp off)"
proof (induction fuel arbitrary: off)
  case (Suc fuel)
  then show ?case unfolding isdirempty_loop.simps by (intro leaves_intros Suc)
qed (simp add: leaves_intros)

lemma out_dirlookup [leaves_intros]: "leaves fs_outstanding (dirlookup me dp name)"
  unfolding dirlookup_def by (intro leaves_intros)

lemma out_dirlink [leaves_intros]: "leaves fs_outstanding (dirlink me dp name inum)" "leaves fs_outstanding (isdirempty me dp)"
  unfolding dirlink_def isdirempty_def by (intro leaves_intros)+

lemma out_namex_loop [leaves_intros]: "leaves fs_outstanding (namex_loop me path nameip name ip)"
proof (induction me path nameip name ip rule: namex_loop.induct)
  case (1 me path nameip name ip)
  show ?case by (subst namex_loop.simps, intro leaves_intros; (rule 1)?; simp)
qed

lemma out_namei [leaves_intros]:
  "leaves fs_outstanding (namei me cwd path)" "leaves fs_outstanding (nameiparent me cwd path name)"
  unfolding namei_def nameiparent_def namex_def by (intro leaves_intros)+

lemma out_kfs [leaves_intros]: "leaves fs_outstanding m \<Longrightarrow> leaves outstanding (kfs m)"
  by (auto simp: leaves_def kfs_def mzoom_def outstanding_def split: result.splits)

lemma out_state [leaves_intros]:
  "leaves outstanding (kpt m)" "leaves outstanding (kuart m1)" "leaves outstanding (kmutex m2)" "leaves outstanding (fset f fg)"
  "leaves outstanding (pipe_set pi pg)" "leaves outstanding (pipe_zoom pi pz)" "leaves outstanding (cons_set cg)"
  unfolding kpt_def kuart_def kmutex_def pipe_set_def pipe_zoom_def cons_set_def fset_def
  by (rule leaves_mzoom leaves_mmod; simp add: outstanding_def fs_outstanding_def Let_def)+

lemma out_kernel [leaves_intros]:
  "leaves outstanding (kmemory m)" "leaves outstanding (my sel p)" "leaves outstanding (fget fsel f)"
  unfolding kmemory_def my_def fget_def by (intro leaves_intros)+

lemma out_fsop [leaves_intros]: "(\<And>me. leaves fs_outstanding (h me)) \<Longrightarrow> leaves outstanding (fsop p h)"
  unfolding fsop_def by (intro leaves_intros)

lemma out_calls [leaves_intros]:
  "leaves outstanding (kcopyout p va bs)" "leaves outstanding (kcopyin p va n)"
  "leaves outstanding (tf_load p off)" "leaves outstanding (tf_store p off w)"
  "leaves outstanding (knamei p path)" "leaves outstanding (knameiparent p path)" "leaves outstanding (ifield isel ip)" "leaves outstanding (iassign ip ig)"
  unfolding kcopyout_def kcopyin_def tf_load_def tf_store_def knamei_def knameiparent_def ifield_def iassign_def
  by (intro leaves_intros)+

section \<open>Code that begins and ends operations\<close>

text \<open>If the code returns, the count has changed by \<open>k\<close>.\<close>

definition shifts :: "int \<Rightarrow> (kernel, 'a) km \<Rightarrow> bool" where
  "shifts k m \<longleftrightarrow> (\<forall>s x t. m s = Ok (x, t) \<longrightarrow> outstanding t = outstanding s + k)"

lemma shifts_leaves: "leaves outstanding m \<Longrightarrow> k = 0 \<Longrightarrow> shifts k m"
  by (auto simp: leaves_def shifts_def)

lemma leaves_shifts: "shifts 0 m \<Longrightarrow> leaves outstanding m"
  by (auto simp: leaves_def shifts_def)

lemma shifts_begin: "shifts 1 op_begin"
  by (auto simp: shifts_def op_begin_def kfs_def flog_def begin_op_def km_defs outstanding_def fs_outstanding_def split: if_splits)

lemma shifts_end: "shifts (- 1) (op_end p)"
proof -
  have "lg_outstanding t = lg_outstanding s - 1" if "end_op me s = Ok (x, t)" for me s t x
  proof -
    have "leaves lg_outstanding (mbind (mmod (lg_committing_update (\<lambda>_. True))) (\<lambda>_.
        mbind (commit me) (\<lambda>_. mmod (lg_committing_update (\<lambda>_. False)))))"
      by (intro leaves_intros leaves_mmod; simp)
    then show ?thesis using that
      by (auto simp: end_op_def mbind_Ok_iff mmod_def mget_def mpanic_if_def mret_def mpanic_def leaves_def split: if_splits)
  qed
  then show ?thesis
    by (auto simp: shifts_def op_end_def fsop_def my_def kfs_def flog_def mzoom_def mbind_Ok_iff mget_def
        outstanding_def fs_outstanding_def split: result.splits)
qed

lemma shifts_mbind: "shifts j m \<Longrightarrow> (\<And>x. shifts (k - j) (f x)) \<Longrightarrow> shifts k (mbind m f)"
  unfolding shifts_def mbind_Ok_iff by fastforce

lemma shifts_if: "(c \<Longrightarrow> shifts k m) \<Longrightarrow> (\<not> c \<Longrightarrow> shifts k m') \<Longrightarrow> shifts k (if c then m else m')"
  by simp

lemma shifts_case:
  "(x = None \<Longrightarrow> shifts k m) \<Longrightarrow> (\<And>y. x = Some y \<Longrightarrow> shifts k (f y)) \<Longrightarrow> shifts k (case x of None \<Rightarrow> m | Some y \<Rightarrow> f y)"
  "(\<And>a b. w = (a, b) \<Longrightarrow> shifts k (g a b)) \<Longrightarrow> shifts k (case w of (a, b) \<Rightarrow> g a b)"
  by (auto split: option.split prod.split)

lemma shifts_Let: "shifts k (f x) \<Longrightarrow> shifts k (Let x f)"
  by simp

lemma shifts_keep: "leaves outstanding m \<Longrightarrow> (\<And>x. shifts k (f x)) \<Longrightarrow> shifts k (mbind m f)"
  unfolding shifts_def leaves_def mbind_Ok_iff by fastforce

lemma shifts_blocked: "shifts k mblock" "shifts k (mpanic e)"
  by (simp_all add: shifts_def mblock_def mpanic_def)

lemmas shifts_op_begin = shifts_mbind [OF shifts_begin]
lemmas shifts_op_end = shifts_mbind [OF shifts_end]

lemmas shifts_rules = shifts_begin shifts_end shifts_op_begin shifts_op_end shifts_if shifts_case shifts_Let

text \<open>An operation of the file system between \<open>begin_op\<close> and \<open>end_op\<close>.\<close>

lemma out_txn: "(\<And>me. leaves fs_outstanding (h me)) \<Longrightarrow> leaves outstanding (mbind op_begin (\<lambda>_. mbind (fsop p h) (\<lambda>_. op_end p)))"
  by (rule leaves_shifts, rule shifts_op_begin, rule shifts_keep, intro leaves_intros) (simp_all add: shifts_end)

lemma out_fileclose [leaves_intros]: "leaves outstanding (fileclose p f)"
  unfolding fileclose_def pipeclose_def by (rule out_txn leaves_intros)+

lemma out_console [leaves_intros]:
  "leaves outstanding (consolewrite p src n)" "leaves outstanding (consoleread p dst n)"
proof -
  have w: "leaves outstanding (consolewrite_loop k p src i)" for k src i
    by (induction k arbitrary: src i) (auto simp: uart_wake_def intro!: leaves_intros)
  have r: "leaves outstanding (consoleread_loop k p target dst)" for k target dst
    by (induction k arbitrary: dst) (auto simp: Let_def intro!: leaves_intros)
  show "leaves outstanding (consolewrite p src n)" "leaves outstanding (consoleread p dst n)"
    unfolding consolewrite_def consoleread_def by (intro leaves_intros w r)+
qed

lemma out_filewrite_loop [leaves_intros]: "leaves outstanding (filewrite_loop p f ip pt addr n i)"
proof (induction p f ip pt addr n i rule: filewrite_loop.induct)
  case (1 p f ip pt addr n i)
  have "shifts 0 (filewrite_loop p f ip pt addr n i)"
    by (subst filewrite_loop.simps)
      (rule shifts_op_begin shifts_op_end shifts_if shifts_Let shifts_keep leaves_intros shifts_leaves 1 | assumption | (simp; fail))+
  then show ?case by (rule leaves_shifts)
qed

lemma out_fileread [leaves_intros]: "leaves outstanding (fileread p f addr n)"
  unfolding fileread_def file_piperead_def bad_device_def by (intro leaves_intros)

lemma out_filewrite [leaves_intros]: "leaves outstanding (filewrite p f addr n)"
  unfolding filewrite_def file_pipewrite_def bad_device_def by (intro leaves_intros)

lemma out_filestat [leaves_intros]: "leaves outstanding (filestat stack p f addr)"
  unfolding filestat_def by (intro leaves_intros)

lemma out_args [leaves_intros]:
  "leaves outstanding (fetchaddr p a)" "leaves outstanding (argaddr p n)" "leaves outstanding (argint p n)"
  "leaves outstanding (argstr p n mx)" "leaves outstanding (argfd p n)"
  unfolding fetchaddr_def argaddr_def argint_def argstr_def argraw_def fetchstr_def argfd_def by (intro leaves_intros)+

lemma out_create [leaves_intros]: "leaves outstanding (create p path typ major minor)"
  unfolding create_def create_fail_def by (intro leaves_intros)

lemma out_fds [leaves_intros]: "leaves outstanding (fdalloc p f)" "leaves outstanding (ofile_set p fd f)" "leaves outstanding filealloc" "leaves outstanding (filedup f)"
  unfolding fdalloc_def ofile_set_def filealloc_def filedup_def by (intro leaves_intros)+

lemma shifts_sys_link_bad: "shifts (- 1) (sys_link_bad p ip)"
  unfolding sys_link_bad_def
  by (rule shifts_op_end shifts_keep leaves_intros shifts_leaves | (simp; fail))+

lemma shifts_sys_unlink_bad: "shifts (- 1) (sys_unlink_bad p dp)"
  unfolding sys_unlink_bad_def
  by (rule shifts_op_end shifts_keep leaves_intros shifts_leaves | (simp; fail))+

text \<open>The calls that begin and end one operation on every path.\<close>

lemma shifts_make_node: "shifts (- 1) (make_node p typ major minor)"
  unfolding make_node_def
  by (rule shifts_op_end shifts_case shifts_if shifts_keep leaves_intros shifts_leaves | (simp; fail))+

lemma out_sys_link: "leaves outstanding (sys_link p)"
proof (rule leaves_shifts)
  have bad: "shifts (0 - 1) (sys_link_bad p ip)" for ip using shifts_sys_link_bad by simp
  show "shifts 0 (sys_link p)" unfolding sys_link_def
    by (rule bad shifts_op_begin shifts_op_end shifts_case shifts_if shifts_keep leaves_intros shifts_leaves | (simp; fail))+
qed

lemma out_sys_unlink: "leaves outstanding (sys_unlink p)"
proof (rule leaves_shifts)
  have bad: "shifts (0 - 1) (sys_unlink_bad p ip)" for ip using shifts_sys_unlink_bad by simp
  show "shifts 0 (sys_unlink p)" unfolding sys_unlink_def
    by (rule bad shifts_op_begin shifts_op_end shifts_case shifts_if shifts_keep leaves_intros shifts_leaves | (simp; fail))+
qed

lemma out_make_node: "leaves outstanding (sys_mkdir p)" "leaves outstanding (sys_mknod p)"
proof -
  have node: "shifts (0 - 1) (make_node p ty major minor)" for ty major minor using shifts_make_node by simp
  show "leaves outstanding (sys_mkdir p)"
    unfolding sys_mkdir_def by (rule leaves_shifts, rule shifts_op_begin, rule node)
  show "leaves outstanding (sys_mknod p)"
    unfolding sys_mknod_def by (rule leaves_shifts) (rule node shifts_op_begin shifts_keep leaves_intros)+
qed

lemma out_sys_chdir: "leaves outstanding (sys_chdir p)"
  unfolding sys_chdir_def
  by (rule leaves_shifts)
    (rule shifts_op_begin shifts_op_end shifts_case shifts_if shifts_keep leaves_intros shifts_leaves | (simp; fail))+

lemma out_sys_chmod: "leaves outstanding (sys_chmod p)"
  unfolding sys_chmod_def
  by (rule leaves_shifts)
    (rule shifts_op_begin shifts_op_end shifts_case shifts_if shifts_keep leaves_intros shifts_leaves | (simp; fail))+

lemma out_exec: "leaves outstanding (exec trampoline p path argv)"
proof (rule leaves_shifts)
  have none: "leaves outstanding (exec_bad p pagetable sz 0)" for pagetable sz
    unfolding exec_bad_def by (simp add: mwhen_def leaves_intros)
  have bad: "shifts (0 - 1) (exec_bad p pagetable sz ip)" if "ip \<noteq> 0" for pagetable sz ip
    unfolding exec_bad_def mwhen_def mbind_assoc using that
    by (simp add: mbind_assoc) (rule conjI impI shifts_op_end shifts_keep shifts_leaves leaves_intros | (simp; fail))+
  have seg: "leaves outstanding (loadseg p pagetable va ip offset sz)" for pagetable va ip offset sz
  proof -
    have "leaves outstanding (loadseg_loop fuel p pagetable va ip offset sz i)" for fuel i
      by (induction fuel arbitrary: i) (auto simp: Let_def intro!: leaves_intros)
    then show ?thesis unfolding loadseg_def .
  qed
  have segs: "leaves outstanding (load_segments k p pagetable ip off sz)" for k pagetable ip off sz
  proof (induction k arbitrary: off sz)
    case (Suc k)
    then show ?case unfolding load_segments.simps by (intro leaves_intros seg Suc)
  qed (simp add: leaves_intros)
  have args: "leaves outstanding (push_args pagetable stackbase argv sp ustack)" for pagetable stackbase argv sp ustack
  proof (induction argv arbitrary: sp ustack)
    case (Cons a argv)
    then show ?case unfolding push_args.simps page_string_def by (intro leaves_intros Cons)
  qed (simp add: leaves_intros)
  have stack: "leaves outstanding (exec_stack p path argv elf pagetable sz0)" for elf pagetable sz0
    unfolding exec_stack_def by (intro leaves_intros args none)
  show "shifts 0 (exec trampoline p path argv)" unfolding exec_def
    by (rule bad shifts_op_begin shifts_op_end shifts_case shifts_if shifts_Let shifts_keep segs stack leaves_intros shifts_leaves | assumption | (simp; fail))+
qed

lemma out_sys_exec: "leaves outstanding (sys_exec trampoline p)"
proof -
  have "leaves outstanding (fetch_args k p uargv pgs)" for k uargv pgs
  proof (induction k arbitrary: pgs)
    case (Suc k)
    then show ?case unfolding fetch_args.simps by (intro leaves_intros Suc)
  qed (simp add: leaves_intros)
  then show ?thesis unfolding sys_exec_def by (intro leaves_intros out_exec)
qed

lemma out_sys_pipe: "leaves outstanding (sys_pipe p)"
  unfolding sys_pipe_def sys_pipe_bad_def pipealloc_def pipealloc_bad_def by (intro leaves_intros)

lemma out_freeproc [leaves_intros]: "leaves outstanding (freeproc p)"
  unfolding freeproc_def by (intro leaves_intros)

lemma out_sys_fork: "leaves outstanding (sys_fork tr ra0 p)"
  unfolding sys_fork_def fork_def allocproc_def by (intro leaves_intros)

lemma out_sys_wait: "leaves outstanding (sys_wait p)"
proof -
  have "leaves outstanding (wait_scan p addr ps k)" for addr ps k
  proof (induction ps arbitrary: k)
    case (Cons pp ps)
    then show ?case unfolding wait_scan.simps by (intro leaves_intros Cons)
  qed (simp, intro leaves_intros)
  then show ?thesis unfolding sys_wait_def wait_def by (intro leaves_intros)
qed

lemma out_sys_exit: "leaves outstanding (sys_exit c p)"
proof -
  have "shifts 0 (exit c p n)" for n
    unfolding exit_def
    by (rule shifts_op_begin shifts_op_end shifts_keep leaves_intros shifts_leaves | (simp; fail))+
  then show ?thesis unfolding sys_exit_def by (intro leaves_intros leaves_shifts)
qed

lemma out_sysfile:
  "leaves outstanding (sys_read p)" "leaves outstanding (sys_write p)" "leaves outstanding (sys_fstat stack p)"
  "leaves outstanding (sys_close p)" "leaves outstanding (sys_dup p)" "leaves outstanding (sys_lseek p)"
  unfolding sys_read_def sys_write_def forbidden_def sys_fstat_def sys_close_def sys_dup_def sys_lseek_def
  by (intro leaves_intros)+

lemma out_sysproc:
  "leaves outstanding (sys_getpid p)" "leaves outstanding (sys_sbrk p)" "leaves outstanding (sys_sleep p)" "leaves outstanding (sys_kill p)"
  "leaves outstanding sys_uptime" "leaves outstanding sys_freemem" "leaves outstanding (sys_mutex_create p)" "leaves outstanding (sys_mutex_lock p)"
  "leaves outstanding (sys_mutex_unlock p)" "leaves outstanding (sys_mutex_free p)" "leaves outstanding (sys_getprocs stack p)"
  unfolding sys_getpid_def sys_sbrk_def growproc_def sys_sleep_def sleep_until_def sys_kill_def sys_uptime_def sys_freemem_def
    sys_mutex_create_def sys_mutex_lock_def sys_mutex_unlock_def sys_mutex_free_def mutex_wake_def sys_getprocs_def
  by (intro leaves_intros)+

text \<open>\<open>sys_open\<close> on the locked inode: the operation is ended on every path but the denial.\<close>

lemma shifts_open_file: "shifts (- 1) (open_file p omode ip)"
  unfolding open_file_def
  by (rule shifts_op_end shifts_case shifts_if shifts_keep leaves_intros shifts_leaves | (simp; fail))+

definition denied :: "u32 \<Rightarrow> inode \<Rightarrow> bool" where
  "denied omode i \<longleftrightarrow> open_forbidden omode i \<and> \<not> (i_type i = T_DEVICE \<and> (sint (i_major i) < 0 \<or> sint (i_major i) \<ge> int NDEV))"

lemma open_inode_outstanding:
  assumes "open_inode p omode ip s = Ok (r, t)"
  shows "outstanding t = (if denied omode (fs_itable (k_fs s) ip) then outstanding s else outstanding s - 1) \<and>
    (denied omode (fs_itable (k_fs s) ip) \<longrightarrow> r = - 1)"
proof -
  let ?i = "fs_itable (k_fs s) ip"
  let ?dev = "i_type ?i = T_DEVICE \<and> (sint (i_major ?i) < 0 \<or> sint (i_major ?i) \<ge> int NDEV)"
  have i: "open_inode p omode ip s =
      (if ?dev then mbind (fsop p (\<lambda>me. iunlockput me ip)) (\<lambda>_. mbind (op_end p) (\<lambda>_. mret (- 1)))
       else if open_forbidden omode ?i then mbind (fsop p (\<lambda>me. iunlockput me ip)) (\<lambda>_. mret (- 1))
       else open_file p omode ip) s"
    by (simp add: open_inode_def ifield_def kfs_def mzoom_def iget_field_def mget_def mbind_def)
  have "shifts (- 1) (mbind (fsop p (\<lambda>me. iunlockput me ip)) (\<lambda>_. mbind (op_end p) (\<lambda>_. mret (- 1 :: u64))))"
    by (rule shifts_op_end shifts_keep leaves_intros shifts_leaves | (simp; fail))+
  moreover have "leaves outstanding (mbind (fsop p (\<lambda>me. iunlockput me ip)) (\<lambda>_. mret (- 1 :: u64)))" by (intro leaves_intros)
  ultimately show ?thesis using assms shifts_open_file [of p omode ip] unfolding i denied_def shifts_def leaves_def
    by (auto simp: mbind_Ok_iff mret_def split: if_splits)
qed

text \<open>
  Process 0 has an empty page table and its trap frame at \<open>0x80022000\<close>; inode 1 is a file without any
  permission, locked by the process and also referred to elsewhere.
\<close>

definition example_calls :: "kernel \<Rightarrow> kernel" where
  "example_calls s = s\<lparr>
     k_pt := (k_pt s)\<lparr>pt_proc := (\<lambda>p. (pt_proc (k_pt s) p)\<lparr>p_pid := 1, p_trapframe := 0x80022000, p_pagetable := 0x80023000\<rparr>)\<rparr>,
     k_fs := (k_fs s)\<lparr>
       fs_log := (fs_log (k_fs s))\<lparr>lg_outstanding := 0, lg_committing := False, lh_n := 0\<rparr>,
       fs_itable := (\<lambda>_. \<lparr>i_dev = 1, i_inum = 2, i_ref = 2, i_lock = \<lparr>sl_locked = True, sl_pid = 1\<rparr>, i_valid = True,
         i_type = T_FILE, i_major = 0, i_minor = 0, i_nlink = 1, i_size = 0, i_addrs = (\<lambda>_. 0), i_mode = 0\<rparr>),
       fs_mem := (fs_mem (k_fs s))\<lparr>pm := (\<lambda>_. 0)\<rparr>\<rparr>\<rparr>"

section \<open>Properties\<close>





end
