(* ===== verification/Itable.thy ===== *)
theory Itable
  imports Inode
begin

text \<open>
  The table of inodes in memory, and the layout of inodes on disk.

  Shown: the table never has two entries in use for the same inode, and \<open>iget\<close> finds the entry if there is one;
  what \<open>iupdate\<close> stores of an inode, \<open>ilock\<close> loads again.
\<close>

section \<open>The scan of iget\<close>

definition in_use :: "inode \<Rightarrow> bool" where
  "in_use i \<longleftrightarrow> i_ref i > 0"

definition is_inode :: "u32 \<Rightarrow> u32 \<Rightarrow> inode \<Rightarrow> bool" where
  "is_inode dev inum i \<longleftrightarrow> in_use i \<and> i_dev i = dev \<and> i_inum i = inum"

lemma range_Suc: "(\<forall>j. ip \<le> j \<and> j < ip + Suc k \<longrightarrow> P j) \<longleftrightarrow> P ip \<and> (\<forall>j. Suc ip \<le> j \<and> j < Suc ip + k \<longrightarrow> P j)"
proof safe
  fix j
  assume "P ip" "\<forall>j. Suc ip \<le> j \<and> j < Suc ip + k \<longrightarrow> P j" "ip \<le> j" "j < ip + Suc k"
  then show "P j" by (cases "j = ip") auto
qed auto

lemma iget_scan_found:
  "iget_scan k tab dev inum ip vacant = (r, v) \<Longrightarrow> 0 < ip \<Longrightarrow>
     (r \<noteq> 0 \<and> ip \<le> r \<and> r < ip + k \<and> is_inode dev inum (tab r)) \<or>
     (r = 0 \<and> (\<forall>j. ip \<le> j \<and> j < ip + k \<longrightarrow> \<not> is_inode dev inum (tab j)))"
proof (induction k arbitrary: ip vacant)
  case (Suc k)
  show ?case
  proof (cases "is_inode dev inum (tab ip)")
    case True
    then show ?thesis using Suc.prems by (auto simp: is_inode_def in_use_def)
  next
    case False
    then have "iget_scan k tab dev inum (Suc ip) (if vacant = 0 \<and> i_ref (tab ip) = 0 then ip else vacant) = (r, v)"
      using Suc.prems(1) by (auto simp: is_inode_def in_use_def)
    from Suc.IH [OF this] show ?thesis using False unfolding range_Suc by auto
  qed
qed auto

lemma iget_scan_vacant:
  "iget_scan k tab dev inum ip vacant = (r, v) \<Longrightarrow> 0 < ip \<Longrightarrow> r = 0 \<Longrightarrow>
     (vacant \<noteq> 0 \<longrightarrow> v = vacant) \<and>
     (vacant = 0 \<longrightarrow> (v \<noteq> 0 \<and> ip \<le> v \<and> v < ip + k \<and> i_ref (tab v) = 0) \<or>
        (v = 0 \<and> (\<forall>j. ip \<le> j \<and> j < ip + k \<longrightarrow> i_ref (tab j) \<noteq> 0)))"
proof (induction k arbitrary: ip vacant)
  case (Suc k)
  let ?v = "if vacant = 0 \<and> i_ref (tab ip) = 0 then ip else vacant"
  have "iget_scan k tab dev inum (Suc ip) ?v = (r, v)"
    using Suc.prems by (auto split: if_splits)
  from Suc.IH [OF this] Suc.prems show ?case unfolding range_Suc by (auto split: if_splits)
qed auto

section \<open>The table\<close>

text \<open>Entries 1 to \<open>NINODE\<close>: no count is negative, and no two entries in use are for the same inode.\<close>

definition itable_ok :: "(nat \<Rightarrow> inode) \<Rightarrow> bool" where
  "itable_ok tab \<longleftrightarrow>
     (\<forall>i. 1 \<le> i \<and> i \<le> NINODE \<longrightarrow> 0 \<le> i_ref (tab i)) \<and>
     (\<forall>i j. 1 \<le> i \<and> i \<le> NINODE \<and> 1 \<le> j \<and> j \<le> NINODE \<and> in_use (tab i) \<and> in_use (tab j) \<and>
        i_dev (tab i) = i_dev (tab j) \<and> i_inum (tab i) = i_inum (tab j) \<longrightarrow> i = j)"

text \<open>The entry for an inode is the one in use for it, or the first that is not in use.\<close>

lemma iget_cases:
  assumes "itable_ok (fs_itable s)"
  shows "(\<exists>ip. 1 \<le> ip \<and> ip \<le> NINODE \<and> is_inode dev inum (fs_itable s ip) \<and>
        iget dev inum s = Ok (ip, s\<lparr>fs_itable := (fs_itable s)(ip := (fs_itable s ip)\<lparr>i_ref := i_ref (fs_itable s ip) + 1\<rparr>)\<rparr>)) \<or>
    ((\<forall>j. 1 \<le> j \<and> j \<le> NINODE \<longrightarrow> \<not> is_inode dev inum (fs_itable s j)) \<and>
      (if \<forall>j. 1 \<le> j \<and> j \<le> NINODE \<longrightarrow> in_use (fs_itable s j) then iget dev inum s = Panic ''iget: no inodes''
       else \<exists>ip. 1 \<le> ip \<and> ip \<le> NINODE \<and> \<not> in_use (fs_itable s ip) \<and>
         iget dev inum s = Ok (ip, s\<lparr>fs_itable := (fs_itable s)(ip := (fs_itable s ip)\<lparr>i_dev := dev, i_inum := inum, i_ref := 1, i_valid := False\<rparr>)\<rparr>)))"
proof -
  obtain r v where sc: "iget_scan NINODE (fs_itable s) dev inum 1 0 = (r, v)" by (cases "iget_scan NINODE (fs_itable s) dev inum 1 0")
  have use: "in_use (fs_itable s j) \<longleftrightarrow> i_ref (fs_itable s j) \<noteq> 0" if "1 \<le> j" "j \<le> NINODE" for j
    using assms that by (auto simp: itable_ok_def in_use_def order_less_le)
  show ?thesis
  proof (cases "r = 0")
    case False
    then have "1 \<le> r" "r \<le> NINODE" "is_inode dev inum (fs_itable s r)" using iget_scan_found [OF sc] by auto
    moreover have "iget dev inum s = Ok (r, s\<lparr>fs_itable := (fs_itable s)(r := (fs_itable s r)\<lparr>i_ref := i_ref (fs_itable s r) + 1\<rparr>)\<rparr>)"
      using False sc by (simp add: iget_def km_defs)
    ultimately show ?thesis by blast
  next
    case True
    then have no: "\<forall>j. 1 \<le> j \<and> j \<le> NINODE \<longrightarrow> \<not> is_inode dev inum (fs_itable s j)" using iget_scan_found [OF sc] by auto
    show ?thesis
    proof (cases "v = 0")
      case True
      then have "\<forall>j. 1 \<le> j \<and> j \<le> NINODE \<longrightarrow> in_use (fs_itable s j)" using iget_scan_vacant [OF sc] \<open>r = 0\<close> use by auto
      moreover have "iget dev inum s = Panic ''iget: no inodes''" using True \<open>r = 0\<close> sc by (simp add: iget_def km_defs)
      ultimately show ?thesis using no by simp
    next
      case False
      then have v: "1 \<le> v" "v \<le> NINODE" "\<not> in_use (fs_itable s v)" using iget_scan_vacant [OF sc] \<open>r = 0\<close> use by auto
      moreover have "iget dev inum s = Ok (v, s\<lparr>fs_itable := (fs_itable s)(v := (fs_itable s v)\<lparr>i_dev := dev, i_inum := inum, i_ref := 1, i_valid := False\<rparr>)\<rparr>)"
        using False \<open>r = 0\<close> sc by (simp add: iget_def km_defs)
      ultimately show ?thesis using no by auto
    qed
  qed
qed

lemma itable_ok_update:
  assumes "itable_ok tab" "1 \<le> ip" "ip \<le> NINODE" "0 \<le> i_ref i"
    and "\<And>j. in_use i \<Longrightarrow> j \<noteq> ip \<Longrightarrow> 1 \<le> j \<Longrightarrow> j \<le> NINODE \<Longrightarrow> \<not> is_inode (i_dev i) (i_inum i) (tab j)"
  shows "itable_ok (tab(ip := i))"
  unfolding itable_ok_def
proof (intro conjI allI impI)
  fix a
  assume "1 \<le> a \<and> a \<le> NINODE"
  then show "0 \<le> i_ref ((tab(ip := i)) a)" using assms(1,4) by (simp add: itable_ok_def)
next
  fix a b
  assume h: "1 \<le> a \<and> a \<le> NINODE \<and> 1 \<le> b \<and> b \<le> NINODE \<and> in_use ((tab(ip := i)) a) \<and> in_use ((tab(ip := i)) b) \<and>
    i_dev ((tab(ip := i)) a) = i_dev ((tab(ip := i)) b) \<and> i_inum ((tab(ip := i)) a) = i_inum ((tab(ip := i)) b)"
  consider "a = ip" "b = ip" | "a = ip" "b \<noteq> ip" | "a \<noteq> ip" "b = ip" | "a \<noteq> ip" "b \<noteq> ip" by blast
  then show "a = b"
  proof cases
    case 2
    then show ?thesis using h assms(5) [of b] by (simp add: is_inode_def)
  next
    case 3
    then show ?thesis using h assms(5) [of a] by (simp add: is_inode_def)
  next
    case 4
    then show ?thesis using h assms(1) by (simp add: itable_ok_def)
  qed simp
qed

lemma itable_unique:
  "itable_ok tab \<Longrightarrow> 1 \<le> i \<Longrightarrow> i \<le> NINODE \<Longrightarrow> 1 \<le> j \<Longrightarrow> j \<le> NINODE \<Longrightarrow>
    is_inode dev inum (tab i) \<Longrightarrow> is_inode dev inum (tab j) \<Longrightarrow> i = j"
  by (auto simp: itable_ok_def is_inode_def)

section \<open>Inodes on disk\<close>

lemma fold_addrs_other:
  "(\<And>k d. k \<in> set ks \<Longrightarrow> f (put32 (dip + 12 + 4 * k) (a k) d) = f d) \<Longrightarrow>
     f (fold (\<lambda>k. put32 (dip + 12 + 4 * k) (a k)) ks d) = f d"
  by (induction ks arbitrary: d) auto

lemma fold_addrs_same:
  assumes "k \<in> set ks"
  shows "get32 (dip + 12 + 4 * k) (fold (\<lambda>k. put32 (dip + 12 + 4 * k) (a k)) ks d) = a k"
  using assms
proof (induction ks arbitrary: d rule: rev_induct)
  case (snoc x ks)
  show ?case
  proof (cases "x = k")
    case False
    then have "dip + 12 + 4 * k + 4 \<le> dip + 12 + 4 * x \<or> dip + 12 + 4 * x + 4 \<le> dip + 12 + 4 * k" by linarith
    then show ?thesis using snoc False by simp
  qed simp
qed simp

lemma get_put_addrs:
  "k \<le> NDIRECT \<Longrightarrow> get32 (dip + 12 + 4 * k) (put_dinode dip i d) = i_addrs i k"
  unfolding put_dinode_def by (rule fold_addrs_same) auto

lemma get_put_fields:
  "get16 dip (put_dinode dip i d) = i_type i" "get16 (dip + 2) (put_dinode dip i d) = i_major i"
  "get16 (dip + 4) (put_dinode dip i d) = i_minor i" "get16 (dip + 6) (put_dinode dip i d) = i_nlink i"
  "get32 (dip + 8) (put_dinode dip i d) = i_size i" "get16 (dip + 64) (put_dinode dip i d) = i_mode i"
  unfolding put_dinode_def by (subst fold_addrs_other; auto simp: NDIRECT_def)+

section \<open>Properties\<close>

text \<open>
  C33. \<open>iget\<close> keeps the table free of duplicates: if an entry is in use for the inode, it returns that entry with one
  reference more; otherwise it claims an entry that is not in use, and panics exactly when there is
  none. It changes no other entry, and afterwards the entry it returns is the only one for the inode.
\<close>

theorem iget_correct:
  assumes "itable_ok (fs_itable s)"
  shows "(iget dev inum s = Panic ''iget: no inodes'' \<and>
      (\<forall>j. 1 \<le> j \<and> j \<le> NINODE \<longrightarrow> in_use (fs_itable s j) \<and> \<not> is_inode dev inum (fs_itable s j))) \<or>
    (\<exists>ip t. iget dev inum s = Ok (ip, t) \<and> 1 \<le> ip \<and> ip \<le> NINODE \<and> itable_ok (fs_itable t) \<and> is_inode dev inum (fs_itable t ip) \<and>
      (\<forall>j. j \<noteq> ip \<longrightarrow> fs_itable t j = fs_itable s j) \<and>
      (if \<exists>j. 1 \<le> j \<and> j \<le> NINODE \<and> is_inode dev inum (fs_itable s j)
       then is_inode dev inum (fs_itable s ip) \<and> i_ref (fs_itable t ip) = i_ref (fs_itable s ip) + 1
       else \<not> in_use (fs_itable s ip) \<and> i_ref (fs_itable t ip) = 1 \<and> \<not> i_valid (fs_itable t ip)))"
  using iget_cases [OF assms, of dev inum]
proof (elim disjE exE conjE)
  fix ip
  let ?i = "(fs_itable s ip)\<lparr>i_ref := i_ref (fs_itable s ip) + 1\<rparr>"
  assume h: "1 \<le> ip" "ip \<le> NINODE" "is_inode dev inum (fs_itable s ip)" "iget dev inum s = Ok (ip, s\<lparr>fs_itable := (fs_itable s)(ip := ?i)\<rparr>)"
  have "itable_ok ((fs_itable s)(ip := ?i))"
  proof (rule itable_ok_update [OF assms h(1,2)])
    show "0 \<le> i_ref ?i" using h(3) by (simp add: is_inode_def in_use_def)
    fix j
    assume "j \<noteq> ip" "1 \<le> j" "j \<le> NINODE"
    then have "\<not> is_inode dev inum (fs_itable s j)" using itable_unique [OF assms _ _ h(1,2) _ h(3)] by blast
    then show "\<not> is_inode (i_dev ?i) (i_inum ?i) (fs_itable s j)" using h(3) by (simp add: is_inode_def)
  qed
  then show ?thesis using h by (intro disjI2 exI [of _ ip] exI) (auto simp: is_inode_def in_use_def)
next
  assume no: "\<forall>j. 1 \<le> j \<and> j \<le> NINODE \<longrightarrow> \<not> is_inode dev inum (fs_itable s j)"
    and r: "if \<forall>j. 1 \<le> j \<and> j \<le> NINODE \<longrightarrow> in_use (fs_itable s j) then iget dev inum s = Panic ''iget: no inodes''
       else \<exists>ip. 1 \<le> ip \<and> ip \<le> NINODE \<and> \<not> in_use (fs_itable s ip) \<and>
         iget dev inum s = Ok (ip, s\<lparr>fs_itable := (fs_itable s)(ip := (fs_itable s ip)\<lparr>i_dev := dev, i_inum := inum, i_ref := 1, i_valid := False\<rparr>)\<rparr>)"
  show ?thesis
  proof (cases "\<forall>j. 1 \<le> j \<and> j \<le> NINODE \<longrightarrow> in_use (fs_itable s j)")
    case True
    then show ?thesis using r no by auto
  next
    case False
    let ?i = "\<lambda>ip. (fs_itable s ip)\<lparr>i_dev := dev, i_inum := inum, i_ref := 1, i_valid := False\<rparr>"
    from r [unfolded if_not_P [OF False]] obtain ip where h: "1 \<le> ip" "ip \<le> NINODE" "\<not> in_use (fs_itable s ip)"
      "iget dev inum s = Ok (ip, s\<lparr>fs_itable := (fs_itable s)(ip := ?i ip)\<rparr>)" by blast
    have "itable_ok ((fs_itable s)(ip := ?i ip))"
      by (rule itable_ok_update [OF assms h(1,2)]) (use no in auto)
    then show ?thesis using h no by (intro disjI2 exI [of _ ip] exI) (auto simp: is_inode_def in_use_def)
  qed
qed

text \<open>A table in which entry 2 is in use for inode 5.\<close>

definition example_itable :: "fs \<Rightarrow> fs" where
  "example_itable s = s\<lparr>fs_itable := (\<lambda>j. (fs_itable s j)\<lparr>i_dev := 1, i_inum := of_nat (j + 3), i_ref := of_bool (j = 2)\<rparr>)\<rparr>"

theorem iget_correct_witness:
  "\<exists>t. iget 1 5 (example_itable undefined) = Ok (2, t) \<and> i_ref (fs_itable t 2) = 2 \<and> itable_ok (fs_itable t)"
proof -
  let ?s = "example_itable undefined"
  have ok: "itable_ok (fs_itable ?s)" by (auto simp: itable_ok_def in_use_def example_itable_def of_bool_def split: if_splits)
  have N: "is_inode 1 5 (fs_itable ?s j) \<longleftrightarrow> j = 2" for j
    by (auto simp: is_inode_def in_use_def example_itable_def of_bool_def split: if_splits)
  have ex: "\<exists>j. 1 \<le> j \<and> j \<le> NINODE \<and> is_inode 1 5 (fs_itable ?s j)" by (rule exI [of _ 2]) (simp add: N NINODE_def)
  have "i_ref (fs_itable ?s 2) = 1" by (simp add: example_itable_def)
  moreover have "\<not> (\<forall>j. 1 \<le> j \<and> j \<le> NINODE \<longrightarrow> in_use (fs_itable ?s j) \<and> \<not> is_inode 1 5 (fs_itable ?s j))" using ex by blast
  ultimately show ?thesis using iget_correct [OF ok, of 1 5] ex unfolding N by auto
qed

text \<open>
  C35. The fields that \<open>iupdate\<close> stores into a block at the place of an inode are those that \<open>ilock\<close> loads from it:
  type, device numbers, link count, size, mode and all thirteen addresses. It changes no byte of
  another inode: the 66 bytes it writes lie within the 1,024 bytes of its own.
\<close>

theorem dinode_roundtrip:
  "get_dinode dip (put_dinode dip i d) j =
     j\<lparr>i_type := i_type i, i_major := i_major i, i_minor := i_minor i, i_nlink := i_nlink i, i_size := i_size i, i_mode := i_mode i,
       i_addrs := (\<lambda>k. if k \<le> NDIRECT then i_addrs i k else i_addrs j k)\<rparr> \<and>
   (\<forall>b. b < dip \<or> dip + dinode_size \<le> b \<longrightarrow> put_dinode dip i d b = d b)"
proof -
  have "put_dinode dip i d b = d b" if "b < dip \<or> dip + dinode_size \<le> b" for b
  proof -
    have "fold (\<lambda>k. put32 (dip + 12 + 4 * k) (i_addrs i k)) [0..<NDIRECT + 1] e b = e b" for e
      by (rule fold_addrs_other [where f = "\<lambda>d. d b"]) (use that in \<open>auto simp: NDIRECT_def dinode_size_def\<close>)
    then show ?thesis using that unfolding put_dinode_def by (auto simp: dinode_size_def)
  qed
  then show ?thesis by (simp only: get_dinode_def get_put_addrs get_put_fields cong: if_cong) simp
qed

theorem dinode_roundtrip_witness:
  "put_dinode 1024 \<lparr>i_dev = 1, i_inum = 2, i_ref = 1, i_lock = undefined, i_valid = True, i_type = T_FILE, i_major = 0, i_minor = 0,
     i_nlink = 1, i_size = 5, i_addrs = (\<lambda>_. 46), i_mode = 6\<rparr> (\<lambda>_. 7) 1023 = 7"
  using dinode_roundtrip [of 1024 "\<lparr>i_dev = 1, i_inum = 2, i_ref = 1, i_lock = undefined, i_valid = True, i_type = T_FILE, i_major = 0, i_minor = 0,
     i_nlink = 1, i_size = 5, i_addrs = (\<lambda>_. 46), i_mode = 6\<rparr>" "\<lambda>_. 7" undefined] by simp

end
