(* ===== verification/Requests.thy ===== *)
theory Requests
  imports Virtio Frame
begin

text \<open>
  The disk driver and the device running together: the requests of \<open>virtio_disk_rw\<close>, the device that takes
  them from the available ring and answers them in any order, and the interrupt handler.

  A state of the system has the memory of the driver, the descriptors that each waiting caller of
  \<open>virtio_disk_rw\<close> holds (its local \<open>idx\<close>), how far the device has read the available ring, and the requests it has
  taken and not answered. The callers hold the lock of their buffer, so a buffer has at most one
  request. The device does what the virtio specification says: it answers each request it has taken once,
  with status 0.
\<close>

section \<open>The system\<close>

record vsys =
  vs_disk :: vdisk
  vs_chain :: "nat \<Rightarrow> (nat \<times> nat \<times> nat) option"
  vs_seen :: u16
  vs_taken :: "nat list"

definition dev_take :: "vsys \<Rightarrow> vsys" where
  "dev_take s = s\<lparr>vs_seen := vs_seen s + 1, vs_taken := unat (vd_avail (vs_disk s) (unat (vs_seen s) mod NUM)) # vs_taken s\<rparr>"

definition dev_answer :: "nat \<Rightarrow> vdisk \<Rightarrow> vdisk" where
  "dev_answer h d = d\<lparr>vd_status := (vd_status d)(h := 0), vd_used := (vd_used d)(unat (vd_dev_idx d) mod NUM := of_nat h),
    vd_dev_idx := vd_dev_idx d + 1\<rparr>"

inductive vs_step :: "vsys \<Rightarrow> vsys \<Rightarrow> bool" where
  start: "vs_chain s b = None \<Longrightarrow> virtio_disk_rw b write n (vs_disk s) = Ok (Some idx, d)
    \<Longrightarrow> vs_step s (s\<lparr>vs_disk := d, vs_chain := (vs_chain s)(b \<mapsto> idx)\<rparr>)"
| no_room: "virtio_disk_rw b write n (vs_disk s) = Ok (None, d) \<Longrightarrow> vs_step s (s\<lparr>vs_disk := d\<rparr>)"
| take: "vs_seen s \<noteq> vd_avail_idx (vs_disk s) \<Longrightarrow> vs_step s (dev_take s)"
| answer: "h \<in> set (vs_taken s) \<Longrightarrow> vs_step s (s\<lparr>vs_disk := dev_answer h (vs_disk s), vs_taken := remove1 h (vs_taken s)\<rparr>)"
| registers: "vs_step s (s\<lparr>vs_disk := vs_disk s\<lparr>vd_read := rd\<rparr>\<rparr>)"
| interrupt: "virtio_disk_intr (vs_disk s) = Ok (bs, d) \<Longrightarrow> vs_step s (s\<lparr>vs_disk := d\<rparr>)"
| finish: "vs_chain s b = Some (i0, i1, i2) \<Longrightarrow> virtio_disk_rw_end b i0 (vs_disk s) = Ok ((), d)
    \<Longrightarrow> vs_step s (s\<lparr>vs_disk := d, vs_chain := (vs_chain s)(b := None)\<rparr>)"

text \<open>It starts after \<open>virtio_disk_init\<close>; \<open>used_idx\<close> and \<open>free\<close> are static and zero at boot.\<close>

inductive vs_reach :: "vsys \<Rightarrow> bool" where
  boot: "vd_used_idx (vi_disk t) = 0 \<Longrightarrow> virtio_disk_init t = Ok ((), t')
    \<Longrightarrow> vs_reach \<lparr>vs_disk = vi_disk t', vs_chain = Map.empty, vs_seen = 0, vs_taken = []\<rparr>"
| step: "vs_reach s \<Longrightarrow> vs_step s t \<Longrightarrow> vs_reach t"

section \<open>The invariant\<close>

definition members :: "nat \<times> nat \<times> nat \<Rightarrow> nat set" where
  "members idx = (case idx of (i0, i1, i2) \<Rightarrow> {i0, i1, i2})"

text \<open>The descriptors of a request: three different ones, linked, for the header, the data and the status byte.\<close>

definition described :: "vdisk \<Rightarrow> nat \<Rightarrow> nat \<times> nat \<times> nat \<Rightarrow> bool" where
  "described d b idx = (case idx of (i0, i1, i2) \<Rightarrow>
    i0 < NUM \<and> i1 < NUM \<and> i2 < NUM \<and> i0 \<noteq> i1 \<and> i0 \<noteq> i2 \<and> i1 \<noteq> i2 \<and>
    d_addr (vd_desc d i0) = Op i0 \<and> d_addr (vd_desc d i1) = Data b \<and> d_addr (vd_desc d i2) = Status i0 \<and>
    d_flags (vd_desc d i0) AND VRING_DESC_F_NEXT \<noteq> 0 \<and> d_next (vd_desc d i0) = of_nat i1 \<and>
    d_flags (vd_desc d i1) AND VRING_DESC_F_NEXT \<noteq> 0 \<and> d_next (vd_desc d i1) = of_nat i2 \<and>
    d_flags (vd_desc d i2) AND VRING_DESC_F_NEXT = 0 \<and> vd_info d i0 = Some b)"

definition pending :: "vsys \<Rightarrow> nat list" where
  "pending s = map unat (ring_contents (vd_avail (vs_disk s)) NUM (vs_seen s) (vd_avail_idx (vs_disk s)))"

definition answered :: "vdisk \<Rightarrow> nat list" where
  "answered d = map unat (ring_contents (vd_used d) NUM (vd_used_idx d) (vd_dev_idx d))"

abbreviation in_flight :: "vsys \<Rightarrow> nat list" where
  "in_flight s \<equiv> pending s @ vs_taken s @ answered (vs_disk s)"

definition vs_ok :: "vsys \<Rightarrow> bool" where
  "vs_ok s \<longleftrightarrow>
    (\<forall>b idx. vs_chain s b = Some idx \<longrightarrow> described (vs_disk s) b idx) \<and>
    (\<forall>b c idx jdx. vs_chain s b = Some idx \<longrightarrow> vs_chain s c = Some jdx \<longrightarrow> b \<noteq> c \<longrightarrow> members idx \<inter> members jdx = {}) \<and>
    (\<forall>i < NUM. vd_free (vs_disk s) i \<longleftrightarrow> (\<forall>b idx. vs_chain s b = Some idx \<longrightarrow> i \<notin> members idx)) \<and>
    distinct (in_flight s) \<and>
    (\<forall>h. h \<in> set (in_flight s) \<longleftrightarrow> (\<exists>b i1 i2. vs_chain s b = Some (h, i1, i2) \<and> vd_busy (vs_disk s) b)) \<and>
    (\<forall>h \<in> set (answered (vs_disk s)). vd_status (vs_disk s) h = 0)"

section \<open>What the operations do\<close>

lemma find_free:
  "case List.find P [0..<n] of None \<Rightarrow> \<forall>i<n. \<not> P i | Some i \<Rightarrow> i < n \<and> P i"
  by (auto simp: find_None_iff find_Some_iff split: option.split)

lemma alloc_desc_cases:
  obtains (full) "alloc_desc d = Ok (None, d)"
  | (one) i where "alloc_desc d = Ok (Some i, d\<lparr>vd_free := (vd_free d)(i := False)\<rparr>)" "i < NUM" "vd_free d i"
proof (cases "List.find (vd_free d) [0..<NUM]")
  case None
  then show ?thesis using full by (simp add: alloc_desc_def mbind_def mget_def mret_def)
next
  case (Some i)
  then have "i < NUM" "vd_free d i" using find_free [of NUM "vd_free d"] by simp_all
  with Some show ?thesis using one [of i] by (simp add: alloc_desc_def mbind_def mget_def mret_def mmod_def)
qed

lemma free_desc_Ok:
  "i < NUM \<Longrightarrow> \<not> vd_free d i \<Longrightarrow>
   free_desc i d = Ok ((), d\<lparr>vd_desc := (vd_desc d)(i := zero_desc), vd_free := (vd_free d)(i := True)\<rparr>)"
  by (simp add: free_desc_def mbind_def mget_def mpanic_if_def mret_def mmod_def desc_set_def)

lemma alloc3_desc_cases:
  obtains (full) D where "alloc3_desc d = Ok (None, d\<lparr>vd_desc := D\<rparr>)" "\<And>i. \<not> vd_free d i \<Longrightarrow> D i = vd_desc d i"
  | (three) i0 i1 i2 where
      "alloc3_desc d = Ok (Some (i0, i1, i2), d\<lparr>vd_free := (vd_free d)(i0 := False, i1 := False, i2 := False)\<rparr>)"
      "i0 < NUM" "i1 < NUM" "i2 < NUM" "i0 \<noteq> i1" "i0 \<noteq> i2" "i1 \<noteq> i2" "vd_free d i0" "vd_free d i1" "vd_free d i2"
proof (cases rule: alloc_desc_cases [of d])
  case full
  then have "alloc3_desc d = Ok (None, d\<lparr>vd_desc := vd_desc d\<rparr>)" by (simp add: alloc3_desc_def mbind_def mret_def)
  then show ?thesis using that(1) by blast
next
  case (one i0)
  note a0 = this
  let ?d0 = "d\<lparr>vd_free := (vd_free d)(i0 := False)\<rparr>"
  show ?thesis
  proof (cases rule: alloc_desc_cases [of ?d0])
    case full
    have "alloc3_desc d = Ok (None, d\<lparr>vd_desc := (vd_desc d)(i0 := zero_desc)\<rparr>)"
      using a0 full free_desc_Ok [of i0 ?d0] by (simp add: alloc3_desc_def mbind_def mret_def fun_upd_idem)
    then show ?thesis using that(1) a0(3) by (metis fun_upd_other)
  next
    case (one i1)
    note a1 = this
    have i1: "i1 \<noteq> i0" "vd_free d i1" using a1(3) by (auto split: if_splits)
    let ?d1 = "?d0\<lparr>vd_free := (vd_free ?d0)(i1 := False)\<rparr>"
    show ?thesis
    proof (cases rule: alloc_desc_cases [of ?d1])
      case full
      let ?d2 = "?d1\<lparr>vd_desc := (vd_desc d)(i0 := zero_desc), vd_free := (vd_free ?d1)(i0 := True)\<rparr>"
      have f0: "free_desc i0 ?d1 = Ok ((), ?d2)" using free_desc_Ok [of i0 ?d1] a0(2) by simp
      have f1: "free_desc i1 ?d2 = Ok ((), ?d2\<lparr>vd_desc := (vd_desc ?d2)(i1 := zero_desc), vd_free := (vd_free ?d2)(i1 := True)\<rparr>)"
        using free_desc_Ok [of i1 ?d2] a1(2) i1(1) by simp
      have same: "(vd_free d)(i0 := False, i1 := False, i0 := True, i1 := True) = vd_free d"
        using a0(3) i1 by (auto simp: fun_eq_iff)
      have "alloc3_desc d = Ok (None, d\<lparr>vd_desc := (vd_desc d)(i0 := zero_desc, i1 := zero_desc)\<rparr>)"
        using a0(1) a1(1) full f0 f1 same by (simp add: alloc3_desc_def mbind_def mret_def)
      then show ?thesis using that(1) a0(3) i1(2) by (metis fun_upd_other)
    next
      case (one i2)
      have i2: "i2 \<noteq> i0" "i2 \<noteq> i1" "vd_free d i2" using one(3) by (auto split: if_splits)
      have "alloc3_desc d = Ok (Some (i0, i1, i2), d\<lparr>vd_free := (vd_free d)(i0 := False, i1 := False, i2 := False)\<rparr>)"
        using a0(1) a1(1) one(1) by (simp add: alloc3_desc_def mbind_def mret_def)
      then show ?thesis using that(2) a0 a1(2) i1 one(2) i2 by metis
    qed
  qed
qed

text \<open>The request that \<open>virtio_disk_rw\<close> hands to the device.\<close>

definition requested :: "nat \<Rightarrow> bool \<Rightarrow> u32 \<Rightarrow> nat \<times> nat \<times> nat \<Rightarrow> vdisk \<Rightarrow> vdisk" where
  "requested b write n idx d = (case idx of (i0, i1, i2) \<Rightarrow>
    let e = format_request b write n idx (d\<lparr>vd_free := (vd_free d)(i0 := False, i1 := False, i2 := False)\<rparr>)
    in e\<lparr>vd_writes := vd_writes e @ [(0x50, 0)]\<rparr>)"

lemma virtio_disk_rw_cases:
  obtains (full) D where "virtio_disk_rw b write n d = Ok (None, d\<lparr>vd_desc := D\<rparr>)" "\<And>i. \<not> vd_free d i \<Longrightarrow> D i = vd_desc d i"
  | (three) i0 i1 i2 where
      "virtio_disk_rw b write n d = Ok (Some (i0, i1, i2), requested b write n (i0, i1, i2) d)"
      "i0 < NUM" "i1 < NUM" "i2 < NUM" "i0 \<noteq> i1" "i0 \<noteq> i2" "i1 \<noteq> i2" "vd_free d i0" "vd_free d i1" "vd_free d i2"
proof (cases rule: alloc3_desc_cases [of d])
  case (full D)
  then show ?thesis using that(1) [of D] by (simp add: virtio_disk_rw_def mbind_def mret_def)
next
  case (three i0 i1 i2)
  then show ?thesis using that(2) [of i0 i1 i2]
    by (simp add: virtio_disk_rw_def mbind_def mret_def mmod_def reg_write_def requested_def Let_def)
qed

lemma requested_fields:
  shows "vd_free (requested b write n (i0, i1, i2) d) = (vd_free d)(i0 := False, i1 := False, i2 := False)"
    and "vd_info (requested b write n (i0, i1, i2) d) = (vd_info d)(i0 := Some b)" and "vd_busy (requested b write n (i0, i1, i2) d) = (vd_busy d)(b := True)"
    and "vd_avail (requested b write n (i0, i1, i2) d) = (vd_avail d)(unat (vd_avail_idx d) mod NUM := of_nat i0)" and "vd_avail_idx (requested b write n (i0, i1, i2) d) = vd_avail_idx d + 1"
    and "vd_used (requested b write n (i0, i1, i2) d) = vd_used d" and "vd_used_idx (requested b write n (i0, i1, i2) d) = vd_used_idx d" and "vd_dev_idx (requested b write n (i0, i1, i2) d) = vd_dev_idx d"
    and "vd_status (requested b write n (i0, i1, i2) d) = (vd_status d)(i0 := 0xff)"
    and "i \<notin> {i0, i1, i2} \<Longrightarrow> vd_desc (requested b write n (i0, i1, i2) d) i = vd_desc d i"
  by (simp_all add: requested_def format_request_def Let_def desc_set_def)

lemma requested_described:
  assumes "i0 < NUM" "i1 < NUM" "i2 < NUM" "i0 \<noteq> i1" "i0 \<noteq> i2" "i1 \<noteq> i2"
  shows "described (requested b write n (i0, i1, i2) d) b (i0, i1, i2)"
  using assms by (simp add: described_def requested_def format_request_def Let_def desc_set_def VRING_DESC_F_NEXT_def VRING_DESC_F_WRITE_def)

text \<open>Freeing the chain of a request gives its three descriptors back.\<close>

lemma virtio_disk_rw_end_Ok:
  assumes "described d b (i0, i1, i2)" "\<not> vd_busy d b" "\<not> vd_free d i0" "\<not> vd_free d i1" "\<not> vd_free d i2"
  shows "virtio_disk_rw_end b i0 d =
    Ok ((), d\<lparr>vd_info := (vd_info d)(i0 := None), vd_desc := (vd_desc d)(i0 := zero_desc, i1 := zero_desc, i2 := zero_desc),
      vd_free := (vd_free d)(i0 := True, i1 := True, i2 := True)\<rparr>)"
proof -
  obtain k where fuel: "Suc NUM = Suc (Suc (Suc k))" by (simp add: NUM_def)
  have small: "unat (of_nat i :: u16) = i" if "i < NUM" for i
    using that by (simp add: NUM_def unat_of_nat)
  show ?thesis using assms unfolding virtio_disk_rw_end_def free_chain_def fuel
    by (simp add: mbind_def mget_def mmod_def mret_def described_def free_desc_Ok small)
qed

text \<open>The interrupt handler goes through the new entries of the used ring.\<close>

lemma virtio_intr_loop_Ok:
  assumes "\<And>h. h \<in> set (answered d) \<Longrightarrow> vd_status d h = 0 \<and> vd_info d h \<noteq> None"
    and "k = unat (vd_dev_idx d - vd_used_idx d)"
  shows "virtio_intr_loop k d =
    Ok (map (\<lambda>h. the (vd_info d h)) (answered d),
        d\<lparr>vd_busy := \<lambda>b. vd_busy d b \<and> b \<notin> (\<lambda>h. the (vd_info d h)) ` set (answered d), vd_used_idx := vd_dev_idx d\<rparr>)"
  using assms
proof (induction k arbitrary: d)
  case 0
  then have "vd_dev_idx d = vd_used_idx d" by (simp add: unat_eq_0)
  then show ?case by (simp add: mret_def answered_def ring_contents_def)
next
  case (Suc k)
  let ?h = "unat (vd_used d (unat (vd_used_idx d) mod NUM))"
  have pos: "0 < unat (vd_dev_idx d - vd_used_idx d)" using Suc.prems(2) by linarith
  obtain b where b: "vd_info d ?h = Some b" and st: "vd_status d ?h = 0"
    using Suc.prems(1) [of ?h] ring_pop(1) [OF pos, of "vd_used d" NUM] by (auto simp: answered_def)
  let ?e = "d\<lparr>vd_busy := (vd_busy d)(b := False), vd_used_idx := vd_used_idx d + 1\<rparr>"
  have ans: "answered d = ?h # answered ?e"
    using ring_pop(1) [OF pos, of "vd_used d" NUM] by (simp add: answered_def)
  have "virtio_intr_loop k ?e =
    Ok (map (\<lambda>h. the (vd_info ?e h)) (answered ?e),
        ?e\<lparr>vd_busy := \<lambda>c. vd_busy ?e c \<and> c \<notin> (\<lambda>h. the (vd_info ?e h)) ` set (answered ?e), vd_used_idx := vd_dev_idx ?e\<rparr>)"
  proof (rule Suc.IH)
    show "k = unat (vd_dev_idx ?e - vd_used_idx ?e)" using ring_pop(2) [OF pos] Suc.prems(2) by simp
    show "vd_status ?e h = 0 \<and> vd_info ?e h \<noteq> None" if "h \<in> set (answered ?e)" for h
      using Suc.prems(1) [of h] that ans by simp
  qed
  moreover have "(\<lambda>c. vd_busy ?e c \<and> c \<notin> (\<lambda>h. the (vd_info ?e h)) ` set (answered ?e)) =
      (\<lambda>c. vd_busy d c \<and> c \<notin> (\<lambda>h. the (vd_info d h)) ` set (answered d))"
    unfolding ans using b by (auto simp: fun_eq_iff)
  ultimately show ?case using b st by (simp add: mbind_def mget_def mpanic_if_def mret_def mmod_def ans)
qed

lemma virtio_disk_intr_Ok:
  assumes "\<And>h. h \<in> set (answered d) \<Longrightarrow> vd_status d h = 0 \<and> vd_info d h \<noteq> None"
  shows "\<exists>w. virtio_disk_intr d =
    Ok (map (\<lambda>h. the (vd_info d h)) (answered d),
        d\<lparr>vd_writes := w, vd_busy := \<lambda>b. vd_busy d b \<and> b \<notin> (\<lambda>h. the (vd_info d h)) ` set (answered d), vd_used_idx := vd_dev_idx d\<rparr>)"
proof -
  let ?e = "d\<lparr>vd_writes := vd_writes d @ [(0x64, vd_read d 0x60 AND 3)]\<rparr>"
  have "answered ?e = answered d" by (simp add: answered_def)
  then show ?thesis using virtio_intr_loop_Ok [of ?e] assms
    by (simp add: virtio_disk_intr_def reg_write_def mbind_def mget_def mmod_def) blast
qed

text \<open>After \<open>virtio_disk_init\<close> all descriptors are free and the rings are empty.\<close>

definition rings :: "vdisk_init \<Rightarrow> (nat \<Rightarrow> bool) \<times> u16 \<times> u16 \<times> u16" where
  "rings t = (vd_free (vi_disk t), vd_avail_idx (vi_disk t), vd_dev_idx (vi_disk t), vd_used_idx (vi_disk t))"

lemma leaves_rings:
  "leaves rings (vdisk_op (reg_write r w))" "leaves rings (vdisk_op (mget f))" "leaves rings (vmem_op m)" "leaves rings (write_addr r a)"
proof -
  show r: "leaves rings (vdisk_op (reg_write r w))" for r w
    by (auto simp: leaves_def vdisk_op_def reg_write_def mzoom_def mmod_def rings_def)
  show "leaves rings (vdisk_op (mget f))" by (auto simp: leaves_def vdisk_op_def mzoom_def mget_def rings_def)
  show "leaves rings (vmem_op m)" unfolding vmem_op_def by (rule leaves_mzoom) (simp add: rings_def)
  show "leaves rings (write_addr r a)" unfolding write_addr_def by (intro r leaves_intros)
qed

lemma hv_vdisk_mmod:
  "(\<And>t. P (rings t) \<Longrightarrow> Q () (rings (t\<lparr>vi_disk := f (vi_disk t)\<rparr>))) \<Longrightarrow> hv rings P (vdisk_op (mmod f)) Q"
  by (auto simp: hv_def vdisk_op_def mzoom_def mmod_def)

lemma virtio_disk_init_rings:
  "hv rings (\<lambda>(_, _, _, u). u = n) virtio_disk_init (\<lambda>_ (f, a, d, u). (\<forall>i<NUM. f i) \<and> a = 0 \<and> d = 0 \<and> u = n)"
proof -
  note quiet = leaves_rings [THEN hv_leaves_bind] leaves_simple(6) [THEN hv_leaves_bind]
    leaves_mfor [OF leaves_rings(3), THEN hv_leaves_bind]
  show ?thesis unfolding virtio_disk_init_def
    apply (rule quiet)+
    apply (rule hv_bind)
     apply (rule hv_vdisk_mmod [where Q = "\<lambda>_ (_, a, d, u). a = 0 \<and> d = 0 \<and> u = n"])
     apply (simp add: rings_def)
    apply (rule quiet)+
    apply (rule hv_bind)
     apply (rule hv_vdisk_mmod [where Q = "\<lambda>_ (f, a, d, u). (\<forall>i<NUM. f i) \<and> a = 0 \<and> d = 0 \<and> u = n"])
     apply (simp add: rings_def)
    apply (rule hv_leaves [OF leaves_rings(1)])
    done
qed

lemma virtio_disk_init_post:
  assumes "virtio_disk_init t = Ok ((), t')"
  shows "(\<forall>i<NUM. vd_free (vi_disk t') i) \<and> vd_avail_idx (vi_disk t') = 0 \<and> vd_dev_idx (vi_disk t') = 0 \<and>
    vd_used_idx (vi_disk t') = vd_used_idx (vi_disk t)"
  using virtio_disk_init_rings [of "vd_used_idx (vi_disk t)", unfolded hv_def, rule_format, OF assms] by (simp add: rings_def)

section \<open>Every step keeps the invariant\<close>

lemma NUM_divides: "NUM dvd 2 ^ LENGTH(16)" "NUM < 2 ^ LENGTH(16)"
  by (simp_all add: NUM_def)

lemma below_NUM:
  assumes "distinct xs" "x \<notin> set xs" "x < NUM" "\<And>y. y \<in> set xs \<Longrightarrow> y < NUM"
  shows "length xs < NUM"
proof -
  have "card (set (x # xs)) \<le> card {..<NUM}" using assms by (intro card_mono) auto
  then show ?thesis using assms(1,2) by (simp add: distinct_card)
qed

lemmas vs_okD =
  vs_ok_def [THEN iffD1, THEN conjunct1, rule_format]
  vs_ok_def [THEN iffD1, THEN conjunct2, THEN conjunct1, rule_format]
  vs_ok_def [THEN iffD1, THEN conjunct2, THEN conjunct2, THEN conjunct1, rule_format]
  vs_ok_def [THEN iffD1, THEN conjunct2, THEN conjunct2, THEN conjunct2, THEN conjunct1, rule_format]
  vs_ok_def [THEN iffD1, THEN conjunct2, THEN conjunct2, THEN conjunct2, THEN conjunct2, THEN conjunct1, rule_format]
  vs_ok_def [THEN iffD1, THEN conjunct2, THEN conjunct2, THEN conjunct2, THEN conjunct2, THEN conjunct2, rule_format]

lemma vs_okI:
  assumes "\<And>b idx. vs_chain s b = Some idx \<Longrightarrow> described (vs_disk s) b idx"
    and "\<And>b c idx jdx. vs_chain s b = Some idx \<Longrightarrow> vs_chain s c = Some jdx \<Longrightarrow> b \<noteq> c \<Longrightarrow> members idx \<inter> members jdx = {}"
    and "\<And>i. i < NUM \<Longrightarrow> vd_free (vs_disk s) i \<longleftrightarrow> (\<forall>b idx. vs_chain s b = Some idx \<longrightarrow> i \<notin> members idx)"
    and "distinct (in_flight s)"
    and "\<And>h. h \<in> set (in_flight s) \<longleftrightarrow> (\<exists>b i1 i2. vs_chain s b = Some (h, i1, i2) \<and> vd_busy (vs_disk s) b)"
    and "\<And>h. h \<in> set (answered (vs_disk s)) \<Longrightarrow> vd_status (vs_disk s) h = 0"
  shows "vs_ok s"
  unfolding vs_ok_def
  apply (intro conjI)
       apply (intro allI impI, rule assms(1), assumption)
      apply (intro allI impI, rule assms(2), assumption+)
     apply (intro allI impI, rule assms(3), assumption)
    apply (rule assms(4))
   apply (intro allI, rule assms(5))
  apply (intro ballI, rule assms(6), assumption)
  done

lemma described_members:
  "described d b idx \<Longrightarrow> i \<in> members idx \<Longrightarrow> i < NUM"
  by (auto simp: described_def members_def split: prod.splits)

lemma described_cong:
  assumes "described d b idx" "\<And>i. i \<in> members idx \<Longrightarrow> vd_desc e i = vd_desc d i \<and> vd_info e i = vd_info d i"
  shows "described e b idx"
  using assms by (cases idx) (simp add: described_def members_def)

lemma in_flight_owner:
  assumes "vs_ok s" "h \<in> set (in_flight s)"
  obtains b i1 i2 where "vs_chain s b = Some (h, i1, i2)" "vd_busy (vs_disk s) b" "vd_info (vs_disk s) h = Some b" "h < NUM"
proof -
  obtain b i1 i2 where c: "vs_chain s b = Some (h, i1, i2)" "vd_busy (vs_disk s) b"
    using vs_okD(5) [OF assms(1), of h] assms(2) by blast
  moreover have "described (vs_disk s) b (h, i1, i2)" using vs_okD(1) [OF assms(1) c(1)] .
  ultimately show thesis using that by (simp add: described_def)
qed

lemma in_flight_below: "vs_ok s \<Longrightarrow> h \<in> set (in_flight s) \<Longrightarrow> h < NUM"
  by (erule in_flight_owner)

lemma members_not_free:
  assumes "vs_ok s" "vs_chain s b = Some idx" "i \<in> members idx"
  shows "i < NUM" "\<not> vd_free (vs_disk s) i"
proof -
  show "i < NUM" using described_members [OF vs_okD(1) [OF assms(1,2)] assms(3)] .
  then show "\<not> vd_free (vs_disk s) i" using vs_okD(3) [OF assms(1), of i] assms(2,3) by blast
qed

lemma all_but: "(\<forall>a y. m a = Some y \<longrightarrow> P y) \<longleftrightarrow> (\<forall>y. m b = Some y \<longrightarrow> P y) \<and> (\<forall>a y. a \<noteq> b \<longrightarrow> m a = Some y \<longrightarrow> P y)"
  by metis

lemma start_ok:
  assumes ok: "vs_ok s" and new: "vs_chain s b = None"
    and i: "i0 < NUM" "i1 < NUM" "i2 < NUM" "i0 \<noteq> i1" "i0 \<noteq> i2" "i1 \<noteq> i2"
    and free: "vd_free (vs_disk s) i0" "vd_free (vs_disk s) i1" "vd_free (vs_disk s) i2"
  shows "vs_ok (s\<lparr>vs_disk := requested b write n (i0, i1, i2) (vs_disk s), vs_chain := (vs_chain s)(b \<mapsto> (i0, i1, i2))\<rparr>)"
    (is "vs_ok ?t")
proof -
  let ?d = "vs_disk s" and ?e = "requested b write n (i0, i1, i2) (vs_disk s)"
  note ok' = vs_okD [OF ok]
  have old: "members idx \<inter> {i0, i1, i2} = {}" if "vs_chain s c = Some idx" for c idx
    using members_not_free(2) [OF ok that] free by auto
  have fresh: "i0 \<notin> set (in_flight s)"
  proof
    assume "i0 \<in> set (in_flight s)"
    then obtain c j1 j2 where "vs_chain s c = Some (i0, j1, j2)" by (rule in_flight_owner [OF ok])
    then show False using old [of c "(i0, j1, j2)"] by (simp add: members_def)
  qed
  have room: "length (pending s) < NUM"
    by (rule below_NUM [of _ i0]) (use ok'(4) fresh i(1) in_flight_below [OF ok] in simp_all)
  have "unat (of_nat i0 :: u16) = i0" using i(1) by (simp add: NUM_def unat_of_nat)
  then have pend: "pending ?t = pending s @ [i0]"
    using ring_push(1) [OF NUM_divides(1), of "vd_avail_idx ?d" "vs_seen s" "vd_avail ?d" "of_nat i0"] room NUM_divides(2)
    by (simp add: pending_def requested_fields)
  have ans: "answered ?e = answered ?d" by (simp add: answered_def requested_fields)
  show ?thesis
  proof (rule vs_okI)
    show "described (vs_disk ?t) c idx" if "vs_chain ?t c = Some idx" for c idx
    proof (cases "c = b")
      case True
      then show ?thesis using that requested_described [OF i] by simp
    next
      case False
      then have c: "vs_chain s c = Some idx" using that by simp
      have "i \<notin> {i0, i1, i2}" if "i \<in> members idx" for i using old [OF c] that by blast
      then show ?thesis by (intro described_cong [OF ok'(1) [OF c]]) (simp add: requested_fields)
    qed
    show "members idx \<inter> members jdx = {}" if "vs_chain ?t c = Some idx" "vs_chain ?t c' = Some jdx" "c \<noteq> c'" for c c' idx jdx
      using that ok'(2) [of c idx c' jdx] old [of c idx] old [of c' jdx]
      by (auto simp: members_def split: if_splits)
    show "vd_free (vs_disk ?t) j \<longleftrightarrow> (\<forall>c idx. vs_chain ?t c = Some idx \<longrightarrow> j \<notin> members idx)" if "j < NUM" for j
    proof -
      have "(\<forall>c idx. vs_chain ?t c = Some idx \<longrightarrow> j \<notin> members idx) \<longleftrightarrow>
          j \<notin> {i0, i1, i2} \<and> (\<forall>c idx. vs_chain s c = Some idx \<longrightarrow> j \<notin> members idx)"
        using all_but [of "vs_chain ?t" "\<lambda>idx. j \<notin> members idx" b] all_but [of "vs_chain s" "\<lambda>idx. j \<notin> members idx" b] new
        by (simp add: members_def)
      then show ?thesis using ok'(3) [OF that] by (simp add: requested_fields)
    qed
    show "distinct (in_flight ?t)" using ok'(4) fresh by (auto simp: pend ans)
    show "h \<in> set (in_flight ?t) \<longleftrightarrow> (\<exists>c i1 i2. vs_chain ?t c = Some (h, i1, i2) \<and> vd_busy (vs_disk ?t) c)" for h
    proof -
      have "(\<exists>c i1 i2. vs_chain ?t c = Some (h, i1, i2) \<and> vd_busy (vs_disk ?t) c) \<longleftrightarrow>
          h = i0 \<or> (\<exists>c i1 i2. c \<noteq> b \<and> vs_chain s c = Some (h, i1, i2) \<and> vd_busy (vs_disk s) c)"
        by (auto simp: requested_fields)
      moreover have "h \<in> set (in_flight s) \<longleftrightarrow> (\<exists>c i1 i2. c \<noteq> b \<and> vs_chain s c = Some (h, i1, i2) \<and> vd_busy (vs_disk s) c)"
        using ok'(5) [of h] new by (metis option.distinct(1))
      ultimately show ?thesis by (auto simp: pend ans)
    qed
    show "vd_status (vs_disk ?t) h = 0" if "h \<in> set (answered (vs_disk ?t))" for h
      using that ok'(6) [of h] fresh by (auto simp: ans requested_fields)
  qed
qed

text \<open>A failed attempt to start a request only clears descriptors that are free.\<close>

lemma no_room_ok:
  assumes ok: "vs_ok s" and D: "\<And>i. \<not> vd_free (vs_disk s) i \<Longrightarrow> D i = vd_desc (vs_disk s) i"
  shows "vs_ok (s\<lparr>vs_disk := vs_disk s\<lparr>vd_desc := D\<rparr>\<rparr>)" (is "vs_ok ?t")
proof -
  note ok' = vs_okD [OF ok]
  have fl: "pending ?t = pending s" "answered (vs_disk ?t) = answered (vs_disk s)" by (simp_all add: pending_def answered_def)
  show ?thesis
  proof (rule vs_okI)
    show "described (vs_disk ?t) c idx" if "vs_chain ?t c = Some idx" for c idx
    proof -
      have c: "vs_chain s c = Some idx" using that by simp
      show ?thesis by (rule described_cong [OF ok'(1) [OF c]]) (use members_not_free(2) [OF ok c] D in simp)
    qed
    show "distinct (in_flight ?t)" using ok'(4) unfolding fl by simp
    show "h \<in> set (in_flight ?t) \<longleftrightarrow> (\<exists>c i1 i2. vs_chain ?t c = Some (h, i1, i2) \<and> vd_busy (vs_disk ?t) c)" for h
      using ok'(5) [of h] unfolding fl by simp
    show "vd_status (vs_disk ?t) h = 0" if "h \<in> set (answered (vs_disk ?t))" for h
      using that ok'(6) [of h] unfolding fl by simp
    show "members idx \<inter> members jdx = {}" if "vs_chain ?t a = Some idx" "vs_chain ?t a' = Some jdx" "a \<noteq> a'" for a a' idx jdx
      using that ok'(2) [of a idx a' jdx] by simp
  qed (use ok'(3) in simp)
qed

lemma take_ok:
  assumes ok: "vs_ok s" and ne: "vs_seen s \<noteq> vd_avail_idx (vs_disk s)"
  shows "vs_ok (dev_take s)"
proof -
  let ?t = "dev_take s" and ?h = "unat (vd_avail (vs_disk s) (unat (vs_seen s) mod NUM))"
  note ok' = vs_okD [OF ok]
  have "0 < unat (vd_avail_idx (vs_disk s) - vs_seen s)" using ne by (simp add: unat_gt_0)
  then have pend: "pending s = ?h # pending ?t"
    using ring_pop(1) [of "vd_avail_idx (vs_disk s)" "vs_seen s" "vd_avail (vs_disk s)" NUM] by (simp add: pending_def dev_take_def)
  have same: "vs_disk ?t = vs_disk s" "vs_chain ?t = vs_chain s" "vs_taken ?t = ?h # vs_taken s" by (simp_all add: dev_take_def)
  have fl: "set (in_flight ?t) = set (in_flight s)" unfolding pend same by auto
  show ?thesis
  proof (rule vs_okI)
    show "distinct (in_flight ?t)" using ok'(4) unfolding pend same by auto
    show "h \<in> set (in_flight ?t) \<longleftrightarrow> (\<exists>c i1 i2. vs_chain ?t c = Some (h, i1, i2) \<and> vd_busy (vs_disk ?t) c)" for h
      by (simp only: fl ok'(5)) (simp add: same)
  qed (use ok' in \<open>simp_all add: same\<close>)
qed

lemma answer_ok:
  assumes ok: "vs_ok s" and h: "h \<in> set (vs_taken s)"
  shows "vs_ok (s\<lparr>vs_disk := dev_answer h (vs_disk s), vs_taken := remove1 h (vs_taken s)\<rparr>)" (is "vs_ok ?t")
proof -
  let ?d = "vs_disk s"
  note ok' = vs_okD [OF ok]
  have hN: "h < NUM" using in_flight_below [OF ok, of h] h by simp
  have dist: "distinct (pending s)" "distinct (vs_taken s)" "distinct (answered ?d)" "h \<notin> set (answered ?d)" "h \<notin> set (pending s)"
    using ok'(4) h by auto
  have "length (answered ?d) < NUM"
    by (rule below_NUM [of _ h]) (use dist(3,4) hN in_flight_below [OF ok] in simp_all)
  then have room: "unat (vd_dev_idx ?d - vd_used_idx ?d) < NUM" by (simp add: answered_def)
  have "unat (of_nat h :: u32) = h" using hN by (simp add: NUM_def unat_of_nat)
  then have ans: "answered (vs_disk ?t) = answered ?d @ [h]"
    using ring_push(1) [OF NUM_divides(1) room NUM_divides(2), of "vd_used ?d" "of_nat h"]
    by (simp add: answered_def dev_answer_def)
  have pend: "pending ?t = pending s" by (simp add: pending_def dev_answer_def)
  have fl: "set (in_flight ?t) = set (in_flight s)" using h dist(2) unfolding pend ans by auto
  show ?thesis
  proof (rule vs_okI)
    show "described (vs_disk ?t) c idx" if "vs_chain ?t c = Some idx" for c idx
      by (rule described_cong [OF ok'(1)]) (use that in \<open>simp_all add: dev_answer_def\<close>)
    show "distinct (in_flight ?t)" using ok'(4) h unfolding pend ans by auto
    show "g \<in> set (in_flight ?t) \<longleftrightarrow> (\<exists>c i1 i2. vs_chain ?t c = Some (g, i1, i2) \<and> vd_busy (vs_disk ?t) c)" for g
      unfolding fl using ok'(5) [of g] by (simp add: dev_answer_def)
    show "vd_status (vs_disk ?t) g = 0" if "g \<in> set (answered (vs_disk ?t))" for g
      using that ok'(6) [of g] unfolding ans by (auto simp: dev_answer_def)
  qed (use ok'(2,3) in \<open>simp_all add: dev_answer_def\<close>)
qed

lemma answered_owner:
  assumes ok: "vs_ok s" and h: "h \<in> set (answered (vs_disk s))"
  shows "vd_status (vs_disk s) h = 0 \<and> vd_info (vs_disk s) h \<noteq> None"
proof -
  have "h \<in> set (in_flight s)" using h by simp
  then obtain b where "vd_info (vs_disk s) h = Some b" by (rule in_flight_owner [OF ok])
  then show ?thesis using vs_okD(6) [OF ok h] by simp
qed

text \<open>The buffers whose owners the interrupt handler wakes.\<close>

definition woken :: "vdisk \<Rightarrow> nat list" where
  "woken d = map (\<lambda>h. the (vd_info d h)) (answered d)"

lemma woken_iff:
  assumes ok: "vs_ok s" and c: "vs_chain s b = Some (i0, i1, i2)"
  shows "b \<in> set (woken (vs_disk s)) \<longleftrightarrow> i0 \<in> set (answered (vs_disk s))"
proof
  have info: "vd_info (vs_disk s) i0 = Some b" using vs_okD(1) [OF ok c] by (simp add: described_def)
  then show "b \<in> set (woken (vs_disk s))" if "i0 \<in> set (answered (vs_disk s))" using that by (force simp: woken_def)
  assume "b \<in> set (woken (vs_disk s))"
  then obtain h where h: "h \<in> set (answered (vs_disk s))" "b = the (vd_info (vs_disk s) h)" by (auto simp: woken_def)
  then have "h \<in> set (in_flight s)" by simp
  then obtain b' j1 j2 where "vs_chain s b' = Some (h, j1, j2)" "vd_info (vs_disk s) h = Some b'" by (rule in_flight_owner [OF ok])
  then have "vs_chain s b = Some (h, j1, j2)" using h(2) by simp
  then show "i0 \<in> set (answered (vs_disk s))" using c h(1) by simp
qed

lemma virtio_disk_intr_woken:
  assumes ok: "vs_ok s"
  obtains w where "virtio_disk_intr (vs_disk s) = Ok (woken (vs_disk s), vs_disk s\<lparr>vd_writes := w,
    vd_busy := \<lambda>b. vd_busy (vs_disk s) b \<and> b \<notin> set (woken (vs_disk s)), vd_used_idx := vd_dev_idx (vs_disk s)\<rparr>)"
  using virtio_disk_intr_Ok [of "vs_disk s"] answered_owner [OF ok] that by (auto simp: woken_def)

lemma interrupt_ok:
  assumes ok: "vs_ok s"
  shows "vs_ok (s\<lparr>vs_disk := vs_disk s\<lparr>vd_writes := w,
    vd_busy := \<lambda>b. vd_busy (vs_disk s) b \<and> b \<notin> set (woken (vs_disk s)), vd_used_idx := vd_dev_idx (vs_disk s)\<rparr>\<rparr>)" (is "vs_ok ?t")
proof -
  note ok' = vs_okD [OF ok]
  have ans: "answered (vs_disk ?t) = []" by (simp add: answered_def ring_contents_def)
  have pend: "pending ?t = pending s" by (simp add: pending_def)
  show ?thesis
  proof (rule vs_okI)
    show "described (vs_disk ?t) c idx" if "vs_chain ?t c = Some idx" for c idx
      by (rule described_cong [OF ok'(1)]) (use that in simp_all)
    show "distinct (in_flight ?t)" using ok'(4) unfolding pend ans by auto
    have "h \<in> set (in_flight ?t) \<longleftrightarrow> h \<in> set (in_flight s) \<and> h \<notin> set (answered (vs_disk s))" for h
      using ok'(4) unfolding pend ans by auto
    moreover have "(\<exists>c i1 i2. vs_chain ?t c = Some (h, i1, i2) \<and> vd_busy (vs_disk ?t) c) \<longleftrightarrow>
        (\<exists>c i1 i2. vs_chain s c = Some (h, i1, i2) \<and> vd_busy (vs_disk s) c) \<and> h \<notin> set (answered (vs_disk s))" for h
      using woken_iff [OF ok, of _ h] by auto
    ultimately show "h \<in> set (in_flight ?t) \<longleftrightarrow> (\<exists>c i1 i2. vs_chain ?t c = Some (h, i1, i2) \<and> vd_busy (vs_disk ?t) c)" for h
      using ok'(5) [of h] by blast
    show "vd_status (vs_disk ?t) h = 0" if "h \<in> set (answered (vs_disk ?t))" for h using that unfolding ans by simp
  qed (use ok'(2,3) in simp_all)
qed

lemma finish_Ok:
  assumes ok: "vs_ok s" and c: "vs_chain s b = Some (i0, i1, i2)" and idle: "\<not> vd_busy (vs_disk s) b"
  shows "virtio_disk_rw_end b i0 (vs_disk s) =
    Ok ((), vs_disk s\<lparr>vd_info := (vd_info (vs_disk s))(i0 := None),
      vd_desc := (vd_desc (vs_disk s))(i0 := zero_desc, i1 := zero_desc, i2 := zero_desc),
      vd_free := (vd_free (vs_disk s))(i0 := True, i1 := True, i2 := True)\<rparr>)"
  using vs_okD(1) [OF ok c] idle members_not_free(2) [OF ok c] by (intro virtio_disk_rw_end_Ok) (auto simp: members_def)

lemma finish_ok:
  assumes ok: "vs_ok s" and c: "vs_chain s b = Some (i0, i1, i2)" and idle: "\<not> vd_busy (vs_disk s) b"
  shows "vs_ok (s\<lparr>vs_disk := vs_disk s\<lparr>vd_info := (vd_info (vs_disk s))(i0 := None),
      vd_desc := (vd_desc (vs_disk s))(i0 := zero_desc, i1 := zero_desc, i2 := zero_desc),
      vd_free := (vd_free (vs_disk s))(i0 := True, i1 := True, i2 := True)\<rparr>, vs_chain := (vs_chain s)(b := None)\<rparr>)" (is "vs_ok ?t")
proof -
  note ok' = vs_okD [OF ok]
  have other: "members idx \<inter> {i0, i1, i2} = {}" if "vs_chain s c = Some idx" "c \<noteq> b" for c idx
    using ok'(2) [OF that(1) c that(2)] by (simp add: members_def)
  have fl: "pending ?t = pending s" "answered (vs_disk ?t) = answered (vs_disk s)" by (simp_all add: pending_def answered_def)
  show ?thesis
  proof (rule vs_okI)
    show "described (vs_disk ?t) a idx" if "vs_chain ?t a = Some idx" for a idx
    proof -
      have a: "vs_chain s a = Some idx" "a \<noteq> b" using that by (auto split: if_splits)
      have "i \<notin> {i0, i1, i2}" if "i \<in> members idx" for i using other [OF a] that by blast
      then show ?thesis by (intro described_cong [OF ok'(1) [OF a(1)]]) simp
    qed
    show "members idx \<inter> members jdx = {}" if "vs_chain ?t a = Some idx" "vs_chain ?t a' = Some jdx" "a \<noteq> a'" for a a' idx jdx
      using that ok'(2) [of a idx a' jdx] by (auto split: if_splits)
    show "vd_free (vs_disk ?t) i \<longleftrightarrow> (\<forall>a idx. vs_chain ?t a = Some idx \<longrightarrow> i \<notin> members idx)" if "i < NUM" for i
    proof (cases "i \<in> {i0, i1, i2}")
      case True
      then show ?thesis using other by auto
    next
      case False
      have "(\<forall>a idx. vs_chain s a = Some idx \<longrightarrow> i \<notin> members idx) \<longleftrightarrow>
          (\<forall>a idx. a \<noteq> b \<longrightarrow> vs_chain s a = Some idx \<longrightarrow> i \<notin> members idx)"
        using all_but [of "vs_chain s" "\<lambda>idx. i \<notin> members idx" b] c False by (simp add: members_def)
      then show ?thesis using ok'(3) [OF that] False by simp
    qed
    show "distinct (in_flight ?t)" using ok'(4) unfolding fl by simp
    show "h \<in> set (in_flight ?t) \<longleftrightarrow> (\<exists>a j1 j2. vs_chain ?t a = Some (h, j1, j2) \<and> vd_busy (vs_disk ?t) a)" for h
      using ok'(5) [of h] idle unfolding fl by auto
    show "vd_status (vs_disk ?t) h = 0" if "h \<in> set (answered (vs_disk ?t))" for h
      using that ok'(6) [of h] unfolding fl by simp
  qed
qed

lemma vs_step_ok: "vs_step s t \<Longrightarrow> vs_ok s \<Longrightarrow> vs_ok t"
proof (induction rule: vs_step.induct)
  case (start s b w n idx d)
  then show ?case by (cases rule: virtio_disk_rw_cases [of b w n "vs_disk s"]) (auto intro: start_ok)
next
  case (no_room b w n s d)
  then show ?case by (cases rule: virtio_disk_rw_cases [of b w n "vs_disk s"]) (auto intro: no_room_ok)
next
  case (take s)
  then show ?case by (simp add: take_ok)
next
  case (answer h s)
  then show ?case by (simp add: answer_ok)
next
  case (registers s rd)
  then show ?case by (auto simp: vs_ok_def pending_def answered_def described_def)
next
  case (interrupt s bs d)
  obtain w where "virtio_disk_intr (vs_disk s) = Ok (woken (vs_disk s), vs_disk s\<lparr>vd_writes := w,
    vd_busy := \<lambda>b. vd_busy (vs_disk s) b \<and> b \<notin> set (woken (vs_disk s)), vd_used_idx := vd_dev_idx (vs_disk s)\<rparr>)"
    using virtio_disk_intr_woken [OF interrupt(2)] .
  then have d: "d = vs_disk s\<lparr>vd_writes := w,
    vd_busy := \<lambda>b. vd_busy (vs_disk s) b \<and> b \<notin> set (woken (vs_disk s)), vd_used_idx := vd_dev_idx (vs_disk s)\<rparr>"
    using interrupt(1) by simp
  show ?case unfolding d by (rule interrupt_ok [OF interrupt(2)])
next
  case (finish s b i0 i1 i2 d)
  have "\<not> vd_busy (vs_disk s) b" using finish(2) by (auto simp: virtio_disk_rw_end_def mbind_def mget_def mblock_def)
  then show ?case using finish finish_Ok [of s b i0 i1 i2] finish_ok [of s b i0 i1 i2] by simp
qed

lemma vs_reach_ok: "vs_reach s \<Longrightarrow> vs_ok s"
proof (induction rule: vs_reach.induct)
  case (boot t t')
  then show ?case using virtio_disk_init_post [of t t'] by (simp add: vs_ok_def pending_def answered_def ring_contents_def)
next
  case (step s t)
  then show ?case using vs_step_ok by blast
qed

section \<open>Progress\<close>

lemma take_all:
  assumes "vs_ok s"
  shows "\<exists>t. vs_step\<^sup>*\<^sup>* s t \<and> vs_ok t \<and> pending t = [] \<and> vs_chain t = vs_chain s"
  using assms
proof (induction "length (pending s)" arbitrary: s)
  case 0
  then show ?case by auto
next
  case (Suc n)
  have pos: "0 < unat (vd_avail_idx (vs_disk s) - vs_seen s)" using Suc.hyps(2) by (simp add: pending_def)
  then have st: "vs_step s (dev_take s)" by (intro vs_step.take) auto
  have "length (pending s) = Suc (length (pending (dev_take s)))"
    using ring_pop(2) [OF pos] pos by (simp add: pending_def dev_take_def)
  then have "n = length (pending (dev_take s))" using Suc.hyps(2) by simp
  from Suc.hyps(1) [OF this vs_step_ok [OF st Suc.prems]]
  obtain t where t: "vs_step\<^sup>*\<^sup>* (dev_take s) t" "vs_ok t" "pending t = []" "vs_chain t = vs_chain (dev_take s)" by blast
  have "vs_step\<^sup>*\<^sup>* s t" by (rule converse_rtranclp_into_rtranclp [where r = vs_step, OF st t(1)])
  then show ?case using t(2-4) by (auto simp: dev_take_def)
qed

lemma can_answer:
  assumes ok: "vs_ok s" and h: "h \<in> set (vs_taken s) \<union> set (answered (vs_disk s))"
  shows "\<exists>t. vs_step\<^sup>*\<^sup>* s t \<and> vs_ok t \<and> h \<in> set (answered (vs_disk t)) \<and> vs_chain t = vs_chain s"
proof (cases "h \<in> set (answered (vs_disk s))")
  case True
  then show ?thesis using ok by auto
next
  case False
  then have tk: "h \<in> set (vs_taken s)" using h by simp
  let ?t = "s\<lparr>vs_disk := dev_answer h (vs_disk s), vs_taken := remove1 h (vs_taken s)\<rparr>"
  have "h \<in> set (in_flight ?t)"
    using vs_okD(5) [OF ok, of h] vs_okD(5) [OF answer_ok [OF ok tk], of h] tk by (simp add: dev_answer_def)
  moreover have "h \<notin> set (pending ?t)" "h \<notin> set (vs_taken ?t)"
    using vs_okD(4) [OF ok] tk by (auto simp: pending_def dev_answer_def)
  ultimately have "h \<in> set (answered (vs_disk ?t))" by simp
  moreover have "vs_step\<^sup>*\<^sup>* s ?t" by (rule r_into_rtranclp [where r = vs_step]) (rule vs_step.answer [OF tk])
  moreover have "vs_chain ?t = vs_chain s" by simp
  ultimately show ?thesis using answer_ok [OF ok tk] by blast
qed

lemma can_interrupt:
  assumes ok: "vs_ok s" and c: "vs_chain s b = Some (i0, i1, i2)" and h: "i0 \<in> set (answered (vs_disk s))"
  shows "\<exists>t. vs_step s t \<and> vs_ok t \<and> \<not> vd_busy (vs_disk t) b \<and> vs_chain t = vs_chain s"
proof -
  obtain w where w: "virtio_disk_intr (vs_disk s) = Ok (woken (vs_disk s), vs_disk s\<lparr>vd_writes := w,
    vd_busy := \<lambda>b. vd_busy (vs_disk s) b \<and> b \<notin> set (woken (vs_disk s)), vd_used_idx := vd_dev_idx (vs_disk s)\<rparr>)" (is "_ = Ok (_, ?d)")
    using virtio_disk_intr_woken [OF ok] .
  have "vs_step s (s\<lparr>vs_disk := ?d\<rparr>)" by (rule vs_step.interrupt [OF w])
  moreover have "\<not> vd_busy ?d b" using woken_iff [OF ok c] h by simp
  ultimately show ?thesis using interrupt_ok [OF ok, of w] by (intro exI [of _ "s\<lparr>vs_disk := ?d\<rparr>"]) simp
qed

lemma can_finish:
  assumes ok: "vs_ok s" and c: "vs_chain s b = Some (i0, i1, i2)" and idle: "\<not> vd_busy (vs_disk s) b"
  shows "\<exists>t. vs_step s t \<and> vs_chain t b = None"
  by (rule exI, rule conjI, rule vs_step.finish [OF c finish_Ok [OF ok c idle]]) simp

lemma becomes_idle:
  assumes ok: "vs_ok s" and c: "vs_chain s b = Some (i0, i1, i2)"
  shows "\<exists>t. vs_step\<^sup>*\<^sup>* s t \<and> vs_ok t \<and> vs_chain t = vs_chain s \<and> \<not> vd_busy (vs_disk t) b"
proof -
  obtain s1 where s1: "vs_step\<^sup>*\<^sup>* s s1" "vs_ok s1" "pending s1 = []" "vs_chain s1 = vs_chain s" using take_all [OF ok] by blast
  show ?thesis
  proof (cases "vd_busy (vs_disk s1) b")
    case True
    then have "i0 \<in> set (vs_taken s1) \<union> set (answered (vs_disk s1))"
      using vs_okD(5) [OF s1(2), of i0] c s1(3,4) by auto
    then obtain s2 where s2: "vs_step\<^sup>*\<^sup>* s1 s2" "vs_ok s2" "i0 \<in> set (answered (vs_disk s2))" "vs_chain s2 = vs_chain s1"
      using can_answer [OF s1(2)] by blast
    have "vs_chain s2 b = Some (i0, i1, i2)" using c s1(4) s2(4) by simp
    then obtain t where t: "vs_step s2 t" "vs_ok t" "\<not> vd_busy (vs_disk t) b" "vs_chain t = vs_chain s2"
      using can_interrupt [OF s2(2) _ s2(3)] by blast
    have "vs_step\<^sup>*\<^sup>* s t" using s1(1) s2(1) t(1) by (meson rtranclp.rtrancl_into_rtrancl rtranclp_trans)
    then show ?thesis using t s1(4) s2(4) by auto
  qed (use s1 in blast)
qed

section \<open>An example\<close>

text \<open>A device with the registers that the driver asks for, and three free pages for its queue.\<close>

definition example_regs :: "nat \<Rightarrow> u32" where
  "example_regs r = (if r = 0 then 0x74726976 else if r \<in> {4, 8} then 2 else if r = 0xc then 0x554d4551
     else if r = 0x70 then 8 else if r = 0x34 then 1024 else if r = 0x60 then 1 else 0)"

definition example_boot :: vdisk_init where
  "example_boot = \<lparr>
    vi_disk = \<lparr>vd_desc = \<lambda>_. zero_desc, vd_avail = \<lambda>_. 0, vd_avail_idx = 0, vd_used = \<lambda>_. 0, vd_dev_idx = 0,
      vd_free = \<lambda>_. False, vd_used_idx = 0, vd_info = \<lambda>_. None, vd_status = \<lambda>_. 0,
      vd_ops = \<lambda>_. \<lparr>req_type = 0, req_sector = 0\<rparr>, vd_busy = \<lambda>_. False, vd_read = example_regs, vd_writes = []\<rparr>,
    vi_mem = \<lparr>freelist = 0x80024000, nb_free_pages = 3,
      pm = put64 0x80025000 0x80026000 (put64 0x80024000 0x80025000 (\<lambda>_. 0)), km_end = 0x80021000\<rparr>\<rparr>"

lemma example_boot_pages: "kmem_list (vi_mem example_boot) [0x80024000, 0x80025000, 0x80026000]"
  by (simp add: example_boot_def kmem_list_def page_ok_def PHYSTOP_def KERNBASE_def)

lemma kalloc_next:
  assumes "kmem_list m (x # xs)"
  obtains m' where "kalloc m = Ok (x, m')" "kmem_list m' xs"
proof -
  obtain r t where "kalloc m = Ok (r, t)" "r = x" "kmem_list t xs" using kalloc_spec [OF assms] unfolding wp_iff_Ok by blast
  then show thesis using that by blast
qed

lemma example_boot_Ok:
  obtains t where "virtio_disk_init example_boot = Ok ((), t)"
proof -
  obtain m1 where m1: "kalloc (vi_mem example_boot) = Ok (0x80024000, m1)" "kmem_list m1 [0x80025000, 0x80026000]"
    using kalloc_next [OF example_boot_pages] .
  obtain m2 where m2: "kalloc m1 = Ok (0x80025000, m2)" "kmem_list m2 [0x80026000]" using kalloc_next [OF m1(2)] .
  obtain m3 where m3: "kalloc m2 = Ok (0x80026000, m3)" using kalloc_next [OF m2(2)] .
  have regs: "vd_read (vi_disk example_boot) = example_regs" by (simp add: example_boot_def)
  show thesis using that m1(1) m2(1) m3
    by (simp add: virtio_disk_init_def write_addr_def mbind_def vdisk_op_def vmem_op_def mzoom_def mget_def mmod_def mret_def mpanic_if_def
        reg_write_def regs example_regs_def NUM_def)
qed

lemma first_request:
  assumes "\<forall>i<NUM. vd_free d i"
  shows "virtio_disk_rw b write n d = Ok (Some (0, 1, 2), requested b write n (0, 1, 2) d)"
proof -
  have "[0..<NUM] = 0 # 1 # 2 # [3..<NUM]" by (simp add: NUM_def upt_rec)
  moreover have "vd_free d 0" "vd_free d 1" "vd_free d 2" using assms by (simp_all add: NUM_def)
  ultimately show ?thesis
    by (simp add: virtio_disk_rw_def alloc3_desc_def alloc_desc_def mbind_def mget_def mret_def mmod_def reg_write_def requested_def Let_def)
qed

lemma example_request:
  obtains s where "vs_reach s" "vs_chain s = [7 \<mapsto> (0, 1, 2)]" "vd_busy (vs_disk s) 7" "answered (vs_disk s) = []"
proof -
  obtain t where t: "virtio_disk_init example_boot = Ok ((), t)" using example_boot_Ok .
  let ?s = "\<lparr>vs_disk = vi_disk t, vs_chain = Map.empty, vs_seen = 0, vs_taken = []\<rparr>"
  let ?u = "?s\<lparr>vs_disk := requested 7 True 3 (0, 1, 2) (vi_disk t), vs_chain := (vs_chain ?s)(7 \<mapsto> (0, 1, 2))\<rparr>"
  note post = virtio_disk_init_post [OF t]
  have "vs_reach ?s" using t by (intro vs_reach.boot [of example_boot]) (simp_all add: example_boot_def)
  moreover have "virtio_disk_rw 7 True 3 (vs_disk ?s) = Ok (Some (0, 1, 2), requested 7 True 3 (0, 1, 2) (vi_disk t))"
    using first_request post by simp
  ultimately have "vs_reach ?u" using vs_step.start [of ?s 7] vs_reach.step by (metis fun_upd_other vsys.select_convs(2))
  moreover have "answered (vs_disk ?u) = []"
    using post by (simp add: answered_def ring_contents_def requested_fields example_boot_def)
  ultimately show thesis using that [of ?u] by (simp add: requested_fields)
qed

section \<open>Properties\<close>

text \<open>
  C37. In every reachable state of the driver and the device, whatever order the device answers in: each waiting caller
  owns three descriptors that describe its request and no other caller's; a descriptor is free
  exactly if no caller owns it; \<open>virtio_disk_rw\<close> does not panic; the interrupt handler does not panic
  and ends the wait of exactly the callers whose request the device has answered; and a
  caller whose wait is over returns from \<open>virtio_disk_rw\<close> with its descriptors free again.
\<close>

theorem requests_safe:
  assumes "vs_reach s"
  shows "(\<forall>b idx. vs_chain s b = Some idx \<longrightarrow> described (vs_disk s) b idx) \<and>
    (\<forall>b c idx jdx. vs_chain s b = Some idx \<longrightarrow> vs_chain s c = Some jdx \<longrightarrow> b \<noteq> c \<longrightarrow> members idx \<inter> members jdx = {}) \<and>
    (\<forall>i < NUM. vd_free (vs_disk s) i \<longleftrightarrow> (\<forall>b idx. vs_chain s b = Some idx \<longrightarrow> i \<notin> members idx)) \<and>
    (\<forall>b write n. \<exists>r d. virtio_disk_rw b write n (vs_disk s) = Ok (r, d)) \<and>
    (\<exists>bs d. virtio_disk_intr (vs_disk s) = Ok (bs, d) \<and>
      (\<forall>b i0 i1 i2. vs_chain s b = Some (i0, i1, i2) \<longrightarrow>
        (vd_busy d b \<longleftrightarrow> vd_busy (vs_disk s) b \<and> i0 \<notin> set (answered (vs_disk s))))) \<and>
    (\<forall>b i0 i1 i2. vs_chain s b = Some (i0, i1, i2) \<longrightarrow> \<not> vd_busy (vs_disk s) b \<longrightarrow>
      (\<exists>d. virtio_disk_rw_end b i0 (vs_disk s) = Ok ((), d) \<and> vd_free d i0 \<and> vd_free d i1 \<and> vd_free d i2))"
proof -
  have ok: "vs_ok s" using assms by (rule vs_reach_ok)
  obtain w where w: "virtio_disk_intr (vs_disk s) = Ok (woken (vs_disk s), vs_disk s\<lparr>vd_writes := w,
    vd_busy := \<lambda>b. vd_busy (vs_disk s) b \<and> b \<notin> set (woken (vs_disk s)), vd_used_idx := vd_dev_idx (vs_disk s)\<rparr>)"
    using virtio_disk_intr_woken [OF ok] .
  have "\<exists>bs d. virtio_disk_intr (vs_disk s) = Ok (bs, d) \<and>
      (\<forall>b i0 i1 i2. vs_chain s b = Some (i0, i1, i2) \<longrightarrow>
        (vd_busy d b \<longleftrightarrow> vd_busy (vs_disk s) b \<and> i0 \<notin> set (answered (vs_disk s))))"
    by (rule exI, rule exI, rule conjI, rule w) (auto simp: woken_iff [OF ok])
  moreover have "\<exists>r d. virtio_disk_rw b write n (vs_disk s) = Ok (r, d)" for b "write" n
    by (cases rule: virtio_disk_rw_cases [of b "write" n "vs_disk s"]) blast+
  moreover have "\<exists>d. virtio_disk_rw_end b i0 (vs_disk s) = Ok ((), d) \<and> vd_free d i0 \<and> vd_free d i1 \<and> vd_free d i2"
    if "vs_chain s b = Some (i0, i1, i2)" "\<not> vd_busy (vs_disk s) b" for b i0 i1 i2
    using finish_Ok [OF ok that] by simp
  ultimately show ?thesis using vs_okD(1-3) [OF ok] by (intro conjI) blast+
qed

theorem requests_safe_witness:
  "\<exists>s bs d. vs_reach s \<and> vs_chain s 7 = Some (0, 1, 2) \<and> described (vs_disk s) 7 (0, 1, 2) \<and> \<not> vd_free (vs_disk s) 1 \<and>
     virtio_disk_intr (vs_disk s) = Ok (bs, d) \<and> vd_busy d 7"
proof -
  obtain s where s: "vs_reach s" "vs_chain s = [7 \<mapsto> (0, 1, 2)]" "vd_busy (vs_disk s) 7" "answered (vs_disk s) = []" using example_request .
  note safe = requests_safe [OF s(1), unfolded s(2,4)]
  obtain bs d where "virtio_disk_intr (vs_disk s) = Ok (bs, d)" "vd_busy d 7" using safe s(3) by auto
  moreover have "described (vs_disk s) 7 (0, 1, 2)" using safe by simp
  moreover have "\<not> vd_free (vs_disk s) 1"
    using safe [THEN conjunct2, THEN conjunct2, THEN conjunct1, rule_format, of 1] by (simp add: NUM_def members_def)
  ultimately show ?thesis using s by auto
qed

text \<open>
  C38. No request is stuck: from every reachable state, device answers, an interrupt and the return of the caller lead
  to a state in which the request of the caller is finished.
\<close>

theorem requests_finish:
  assumes "vs_reach s" "vs_chain s b = Some idx"
  shows "\<exists>t. vs_step\<^sup>*\<^sup>* s t \<and> vs_reach t \<and> vs_chain t b = None"
proof -
  obtain i0 i1 i2 where idx: "idx = (i0, i1, i2)" by (cases idx)
  have ok: "vs_ok s" using assms(1) by (rule vs_reach_ok)
  obtain u where u: "vs_step\<^sup>*\<^sup>* s u" "vs_ok u" "vs_chain u = vs_chain s" "\<not> vd_busy (vs_disk u) b"
    using becomes_idle [OF ok] assms(2) idx by blast
  then obtain t where t: "vs_step u t" "vs_chain t b = None" using can_finish [OF u(2)] assms(2) idx by metis
  have "vs_step\<^sup>*\<^sup>* s t" using u(1) t(1) by (rule rtranclp.rtrancl_into_rtrancl)
  moreover from this assms(1) have "vs_reach t" by (induction rule: rtranclp_induct) (auto intro: vs_reach.step)
  ultimately show ?thesis using t(2) by blast
qed

theorem requests_finish_witness:
  "\<exists>s t. vs_reach s \<and> vs_chain s 7 = Some (0, 1, 2) \<and> vs_step\<^sup>*\<^sup>* s t \<and> vs_chain t 7 = None"
proof -
  obtain s where s: "vs_reach s" "vs_chain s = [7 \<mapsto> (0, 1, 2)]" using example_request .
  then have "vs_chain s 7 = Some (0, 1, 2)" by simp
  with s(1) requests_finish [OF s(1) this] show ?thesis by blast
qed

end
