(* ===== verification/Shellprint.thy ===== *)
theory Shellprint
  imports Shell
begin

text \<open>
  Printing commands and parsing them back: the text of a command, and that \<open>parsecmd\<close> (\<open>user/sh.c\<close>) returns the
  command for it.

  The grammar has four levels: a line (0), a pipeline followed by \<open>&\<close> (1), a pipeline (2) and a single
  command or block (3). A lemma for each level says where the parser stops; the left-nested constructs,
  redirections and \<open>&\<close>, are read by loops, so their lemmas say how the loop goes on.
\<close>

section \<open>Printing and parsing\<close>

text \<open>The text of a command: every token is followed by one blank; \<open>k\<close> is the level of the grammar it stands at.\<close>

definition redir_sym :: "u32 \<Rightarrow> nat \<Rightarrow> string" where
  "redir_sym mode fd = (if fd = 0 then ''<'' else if mode = O_WRONLY OR O_CREATE OR O_TRUNC then ''>'' else ''>>'')"

definition par :: "bool \<Rightarrow> string \<Rightarrow> string" where
  "par b s = (if b then ''( '' @ s @ '') '' else s)"

fun show_cmd :: "nat \<Rightarrow> string cmd \<Rightarrow> string" where
  "show_cmd k (EXEC ws) = concat (map (\<lambda>w. w @ '' '') ws)"
| "show_cmd k (REDIR c f mode fd) = show_cmd 3 c @ redir_sym mode fd @ '' '' @ f @ '' ''"
| "show_cmd k (PIPE l r) = par (2 < k) (show_cmd 3 l @ ''| '' @ show_cmd 2 r)"
| "show_cmd k (BACK c) = par (1 < k) (show_cmd 1 c @ ''& '')"
| "show_cmd k (LIST l r) = par (0 < k) (show_cmd 1 l @ ''; '' @ show_cmd 0 r)"
| "show_cmd k (BUILTIN ws) = []"

definition is_word :: "string \<Rightarrow> bool" where
  "is_word w \<longleftrightarrow> w \<noteq> [] \<and> (\<forall>c \<in> set w. plain c \<and> c \<noteq> nul)"

definition redir_ok :: "u32 \<Rightarrow> nat \<Rightarrow> bool" where
  "redir_ok mode fd \<longleftrightarrow> (mode, fd) \<in> {(O_RDONLY, 0), (O_WRONLY OR O_CREATE OR O_TRUNC, 1), (O_WRONLY OR O_CREATE, 1)}"

fun cmd_ok :: "string cmd \<Rightarrow> bool" where
  "cmd_ok (EXEC ws) = (length ws < MAXARGS \<and> (\<forall>w \<in> set ws. is_word w))"
| "cmd_ok (REDIR c f mode fd) = (cmd_ok c \<and> is_word f \<and> redir_ok mode fd)"
| "cmd_ok (PIPE l r) = (cmd_ok l \<and> cmd_ok r)"
| "cmd_ok (LIST l r) = (cmd_ok l \<and> cmd_ok r)"
| "cmd_ok (BACK c) = cmd_ok c"
| "cmd_ok (BUILTIN ws) = False"

text \<open>What is left of the line at a position.\<close>

definition at :: "string \<Rightarrow> nat \<Rightarrow> string \<Rightarrow> bool" where
  "at line p s \<longleftrightarrow> p \<le> length line \<and> drop p line = s"

definition starts :: "string \<Rightarrow> string \<Rightarrow> bool" where
  "starts toks s \<longleftrightarrow> s = [] \<or> hd s \<in> set toks"

lemma at_append: "at line p (s @ t) \<Longrightarrow> at line (p + length s) t"
proof -
  assume a: "at line p (s @ t)"
  then have d: "drop p line = s @ t" "p \<le> length line" by (simp_all add: at_def)
  have "drop (p + length s) line = drop (length s) (drop p line)" by (simp add: add.commute)
  also have "\<dots> = t" by (simp add: d(1))
  finally have t: "drop (p + length s) line = t" .
  have "length line - p = length s + length t" using arg_cong [OF d(1), of length] by simp
  then show ?thesis using t d(2) by (simp add: at_def)
qed

lemma skip_at: "p \<le> length line \<Longrightarrow> skip P line p = p + length (takeWhile P (drop p line))"
proof (induction P line p rule: skip.induct)
  case (1 P line s)
  show ?case
  proof (cases "s < length line \<and> P (line ! s)")
    case True
    then have "drop s line = line ! s # drop (Suc s) line" by (simp add: Cons_nth_drop_Suc)
    then show ?thesis using 1 True by (subst skip.simps) simp
  next
    case False
    then show ?thesis
    proof (cases "s < length line")
      case True
      then have "drop s line = line ! s # drop (Suc s) line" by (simp add: Cons_nth_drop_Suc)
      then show ?thesis using False True by (subst skip.simps) simp
    next
      case False
      then show ?thesis by (subst skip.simps) simp
    qed
  qed
qed

lemma char_at_at: "at line p s \<Longrightarrow> char_at line p = (if s = [] then nul else hd s)"
  by (auto simp: at_def char_at_def hd_drop_conv_nth)

lemma starts_mono: "starts a s \<Longrightarrow> set a \<subseteq> set b \<Longrightarrow> starts b s"
  by (auto simp: starts_def)

definition solid :: "string \<Rightarrow> bool" where
  "solid s \<longleftrightarrow> s = [] \<or> \<not> is_space (hd s) \<and> hd s \<noteq> nul"

lemma solid_symbols: "starts symbols s \<Longrightarrow> solid s"
  by (auto simp: starts_def solid_def is_space_iff symbols_def whitespace_def nul_def)

lemma peek_at:
  assumes "at line p s" "solid s"
  shows "peek line toks p = Ok (s \<noteq> [] \<and> hd s \<in> set toks, p)"
proof -
  have "takeWhile is_space s = []" using assms(2) by (cases s) (auto simp: solid_def)
  then have "skip is_space line p = p" using assms(1) skip_at [of p line is_space] by (simp add: at_def)
  then show ?thesis using char_at_at [OF assms(1)] assms(2)
    by (auto simp: peek_def mbind_def mmod_def mget_def strchr_iff solid_def simp del: not_None_eq)
qed

lemma token_end_eq:
  "token_end line s =
    (if char_at line s = nul then (nul, s)
     else if char_at line s \<in> set ''|();&<'' then (char_at line s, Suc s)
     else if char_at line s = CHR ''>'' then (if char_at line (Suc s) = CHR ''>'' then (CHR ''+'', Suc (Suc s)) else (CHR ''>'', Suc s))
     else (CHR ''a'', skip plain line s))"
  unfolding token_end_def Let_def strchr_iff by (simp only: split: if_splits) blast

lemma gettoken_at:
  assumes a: "at line p (tok @ '' '' @ s)" and tok: "tok \<noteq> []" "solid tok" and s: "solid s"
    and te: "token_end line p = (ret, p + length tok)"
  shows "gettoken line p = Ok ((ret, p, p + length tok), p + length tok + 1)" "at line (p + length tok + 1) s"
proof -
  have "takeWhile is_space (tok @ '' '' @ s) = []" using tok by (cases tok) (auto simp: solid_def)
  then have q: "skip is_space line p = p" using a skip_at [of p line is_space] by (simp add: at_def)
  have a1: "at line (p + length tok) ('' '' @ s)" using at_append [OF a] .
  show a2: "at line (p + length tok + 1) s" using at_append [OF a1] by simp
  have "takeWhile is_space s = []" using s by (cases s) (auto simp: solid_def)
  moreover have "is_space (CHR '' '')" by (simp add: is_space_iff whitespace_def)
  ultimately have "skip is_space line (p + length tok) = p + length tok + 1"
    using a1 skip_at [of "p + length tok" line is_space] by (simp add: at_def)
  then show "gettoken line p = Ok ((ret, p, p + length tok), p + length tok + 1)"
    using q te by (simp add: gettoken_def mbind_def mget_def mmod_def mret_def)
qed

text \<open>The tokens of the printed text.\<close>

lemma gettoken_sym:
  assumes a: "at line p ([c] @ '' '' @ s)" and c: "c \<in> set ''|();&<''" and s: "solid s"
  shows "gettoken line p = Ok ((c, p, p + 1), p + 2)" "at line (p + 2) s"
proof -
  have n: "c \<noteq> nul" "\<not> is_space c" using c by (auto simp: nul_def is_space_iff whitespace_def)
  have "char_at line p = c" using char_at_at [OF a] by simp
  then have "token_end line p = (c, p + 1)" using c n(1) unfolding token_end_eq by simp
  then show "gettoken line p = Ok ((c, p, p + 1), p + 2)" "at line (p + 2) s"
    using gettoken_at [OF a _ _ s, of c] n by (simp_all add: solid_def)
qed

lemma gettoken_gt:
  assumes a: "at line p (tok @ '' '' @ s)" and tok: "(tok, ret) \<in> {(''>>'', CHR ''+''), (''>'', CHR ''>'')}" and s: "solid s"
  shows "gettoken line p = Ok ((ret, p, p + length tok), p + length tok + 1)" "at line (p + length tok + 1) s"
proof -
  have n: "CHR ''>'' \<noteq> nul" "\<not> is_space (CHR ''>'')" by (simp_all add: nul_def is_space_iff whitespace_def)
  have t: "tok = ''>'' \<and> ret = CHR ''>'' \<or> tok = ''>>'' \<and> ret = CHR ''+''" using tok by auto
  then have h: "tok \<noteq> []" "hd tok = CHR ''>''" "hd (tl tok @ '' '') = CHR ''>'' \<longleftrightarrow> tok = ''>>''" by auto
  have c: "char_at line p = CHR ''>''" using char_at_at [OF a] h by simp
  have "at line (p + 1) (tl tok @ '' '' @ s)" using at_append [of line p "[hd tok]" "tl tok @ '' '' @ s"] a h(1) by (cases tok) simp_all
  then have c': "char_at line (Suc p) = hd (tl tok @ '' '')" using char_at_at [of line "p + 1"] by (cases "tl tok") simp_all
  have "token_end line p = (ret, p + length tok)"
    unfolding token_end_eq c c' h(3) using n(1) t by (elim disjE) simp_all
  then show "gettoken line p = Ok ((ret, p, p + length tok), p + length tok + 1)" "at line (p + length tok + 1) s"
    using gettoken_at [OF a h(1) _ s] n h(2) by (simp_all add: solid_def)
qed

lemma gettoken_word:
  assumes a: "at line p (w @ '' '' @ s)" and w: "is_word w" and s: "solid s"
  shows "gettoken line p = Ok ((CHR ''a'', p, p + length w), p + length w + 1)" "at line (p + length w + 1) s"
    "text_of line (p, p + length w) = w"
proof -
  have h: "w \<noteq> []" "hd w \<in> set w" using w by (auto simp: is_word_def)
  then have n: "hd w \<noteq> nul" "plain (hd w)" using w by (auto simp: is_word_def)
  have c: "char_at line p = hd w" using char_at_at [OF a] h(1) by simp
  have sym: "hd w \<notin> set ''|();&<''" "hd w \<noteq> CHR ''>''" using n(2) by (auto simp: is_symbol_iff symbols_def)
  have "takeWhile plain (w @ '' '' @ s) = w"
    using w by (simp add: is_word_def is_space_iff whitespace_def takeWhile_append)
  then have "skip plain line p = p + length w" using a skip_at [of p line plain] by (simp add: at_def)
  then have "token_end line p = (CHR ''a'', p + length w)"
    unfolding token_end_eq c using n(1) sym by simp
  then show "gettoken line p = Ok ((CHR ''a'', p, p + length w), p + length w + 1)" "at line (p + length w + 1) s"
    using gettoken_at [OF a h(1) _ s] n by (simp_all add: solid_def)
  show "text_of line (p, p + length w) = w" using a by (simp add: text_of_def at_def)
qed

section \<open>What the parser does at each level\<close>

lemma mbind_mret [simp]: "mbind m mret = m"
  by (rule ext) (auto simp: mbind_def mret_def split: result.splits)

lemma solid_append: "s \<noteq> [] \<Longrightarrow> solid s \<Longrightarrow> solid (s @ t)"
  by (cases s) (simp_all add: solid_def)

lemma solid_word: "is_word w \<Longrightarrow> solid (w @ t)"
  by (cases w) (simp_all add: solid_def is_word_def)

lemma solid_syms [simp]:
  "solid (CHR ''|'' # t)" "solid (CHR ''&'' # t)" "solid (CHR '';'' # t)" "solid (CHR ''('' # t)" "solid (CHR '')'' # t)"
  "solid (CHR ''<'' # t)" "solid (CHR ''>'' # t)"
  by (simp_all add: solid_def is_space_iff whitespace_def nul_def)

lemma is_word_head: "is_word w \<Longrightarrow> hd (w @ t) \<notin> set symbols"
  by (cases w) (auto simp: is_word_def is_symbol_iff)

text \<open>Level 3: the rest begins where redirections may follow; \<open>g\<close> is what \<open>parseexec\<close> does after them.\<close>

definition idle :: "string \<Rightarrow> (slice cmd \<Rightarrow> (nat, slice cmd) km) \<Rightarrow> bool" where
  "idle line g \<longleftrightarrow> (\<forall>d q s. at line q s \<longrightarrow> starts ''|)&;'' s \<longrightarrow> g d q = Ok (d, q))"

definition level3 :: "string \<Rightarrow> string cmd \<Rightarrow> string \<Rightarrow> bool" where
  "level3 line c t \<longleftrightarrow> (\<forall>p n rest. at line p (t @ rest) \<longrightarrow> starts ''|)&;<>'' rest \<longrightarrow> 4 * (length line - p) + 2 \<le> n \<longrightarrow>
    (\<exists>c' k g. parseexec n line p = mbind (parseredirs_loop k line c') g (p + length t) \<and> idle line g \<and>
       length line - (p + length t) < k \<and> map_cmd (text_of line) c' = c))"

definition level2 :: "string \<Rightarrow> string cmd \<Rightarrow> string \<Rightarrow> bool" where
  "level2 line c t \<longleftrightarrow> (\<forall>p n rest. at line p (t @ rest) \<longrightarrow> starts '')&;'' rest \<longrightarrow> 4 * (length line - p) + 3 \<le> n \<longrightarrow>
    (\<exists>c'. parsepipe n line p = Ok (c', p + length t) \<and> map_cmd (text_of line) c' = c))"

definition level1 :: "string \<Rightarrow> string cmd \<Rightarrow> string \<Rightarrow> bool" where
  "level1 line c t \<longleftrightarrow> (\<forall>p n rest. at line p (t @ rest) \<longrightarrow> starts '')&;'' rest \<longrightarrow> 4 * (length line - p) + 3 \<le> n \<longrightarrow>
    (\<exists>c' k. mbind (parsepipe n line) (back_loop (Suc (length line)) line) p = back_loop k line c' (p + length t) \<and>
       length line - (p + length t) < k \<and> map_cmd (text_of line) c' = c))"

definition level0 :: "string \<Rightarrow> string cmd \<Rightarrow> string \<Rightarrow> bool" where
  "level0 line c t \<longleftrightarrow> (\<forall>p n rest. at line p (t @ rest) \<longrightarrow> starts '')'' rest \<longrightarrow> 4 * (length line - p) + 4 \<le> n \<longrightarrow>
    (\<exists>c'. parseline n line p = Ok (c', p + length t) \<and> map_cmd (text_of line) c' = c))"

text \<open>The loops stop in front of a token that is not theirs.\<close>

lemma at_len: "at line p (t @ s) \<Longrightarrow> p + length t \<le> length line"
  using at_append [of line p t s] by (simp add: at_def)

lemma parseredirs_loop_stop:
  assumes "at line p s" "solid s" "starts toks s \<or> s \<noteq> [] \<and> hd s \<notin> set symbols" "set toks \<inter> set ''<>'' = {}" "0 < k"
  shows "parseredirs_loop k line c p = Ok (c, p)"
proof -
  obtain k' where k: "k = Suc k'" using assms(5) by (cases k) auto
  have "\<not> (s \<noteq> [] \<and> hd s \<in> set ''<>'')" using assms(3,4) by (auto simp: starts_def symbols_def)
  then show ?thesis using peek_at [OF assms(1,2), of "''<>''"] unfolding k by (auto simp: mbind_def mret_def)
qed

lemma back_loop_stop:
  assumes "at line p s" "starts '');'' s" "0 < k"
  shows "back_loop k line c p = Ok (c, p)"
proof -
  obtain k' where k: "k = Suc k'" using assms(3) by (cases k) auto
  have "solid s" using starts_mono [OF assms(2), of symbols] by (intro solid_symbols) (simp add: symbols_def)
  moreover have "\<not> (s \<noteq> [] \<and> hd s \<in> set ''&'')" using assms(2) by (auto simp: starts_def)
  ultimately show ?thesis using peek_at [OF assms(1), of "''&''"] unfolding k by (auto simp: mbind_def mret_def)
qed

lemma parseexec_loop_stop:
  assumes "at line p s" "starts ''|)&;'' s" "0 < k"
  shows "parseexec_loop k line argc c p = Ok (c, p)"
proof -
  obtain k' where k: "k = Suc k'" using assms(3) by (cases k) auto
  have s: "solid s" using starts_mono [OF assms(2), of symbols] by (intro solid_symbols) (simp add: symbols_def)
  show ?thesis
  proof (cases "s = []")
    case True
    then have p: "p = length line" using assms(1) by (simp add: at_def)
    have "skip is_space line p = p" using p by (intro skip_id) simp
    moreover have "token_end line p = (nul, p)" using p by (simp add: token_end_eq char_at_def)
    ultimately have "gettoken line p = Ok ((nul, p, p), p)" by (simp add: gettoken_def mbind_def mget_def mmod_def mret_def)
    then show ?thesis using peek_at [OF assms(1) s, of "''|)&;''"] True unfolding k by (simp add: mbind_def mret_def)
  next
    case False
    then have "hd s \<in> set ''|)&;''" using assms(2) by (simp add: starts_def)
    then show ?thesis using peek_at [OF assms(1) s, of "''|)&;''"] False unfolding k by (simp add: mbind_def mret_def)
  qed
qed

lemma idle_exec_loop: "0 < k \<Longrightarrow> idle line (parseexec_loop k line argc)"
  unfolding idle_def using parseexec_loop_stop by blast

lemma idle_mret: "idle line mret"
  by (simp add: idle_def mret_def)

text \<open>From one level to the next lower one.\<close>

lemma level3_done:
  assumes l: "level3 line c t" and a: "at line p (t @ rest)" and s: "starts ''|)&;'' rest" and n: "4 * (length line - p) + 2 \<le> n"
  obtains c' where "parseexec n line p = Ok (c', p + length t)" "map_cmd (text_of line) c' = c"
proof -
  have "starts ''|)&;<>'' rest" using s by (rule starts_mono) auto
  then obtain c' k g where e: "parseexec n line p = mbind (parseredirs_loop k line c') g (p + length t)" "idle line g"
    "length line - (p + length t) < k" "map_cmd (text_of line) c' = c"
    using l a n unfolding level3_def by blast
  have a': "at line (p + length t) rest" using at_append [OF a] .
  have "solid rest" using starts_mono [OF s, of symbols] by (intro solid_symbols) (simp add: symbols_def)
  then have "parseredirs_loop k line c' (p + length t) = Ok (c', p + length t)"
    using parseredirs_loop_stop [OF a' _ disjI1 [OF s]] e(3) by simp
  moreover have "g c' (p + length t) = Ok (c', p + length t)" using e(2) a' s unfolding idle_def by blast
  ultimately have "parseexec n line p = Ok (c', p + length t)" using e(1) by (simp add: mbind_def)
  then show thesis using that e(4) by blast
qed

lemma level32: "level3 line c t \<Longrightarrow> level2 line c t"
  unfolding level2_def
proof (intro allI impI)
  fix p n rest
  assume l: "level3 line c t" and a: "at line p (t @ rest)" and s: "starts '')&;'' rest" and n: "4 * (length line - p) + 3 \<le> n"
  obtain m where m: "n = Suc m" using n by (cases n) auto
  have s3: "starts ''|)&;'' rest" using s by (rule starts_mono) auto
  obtain c' where c: "parseexec m line p = Ok (c', p + length t)" "map_cmd (text_of line) c' = c"
    using level3_done [OF l a s3, of m] n m by auto
  have "solid rest" using starts_mono [OF s, of symbols] by (intro solid_symbols) (simp add: symbols_def)
  moreover have "\<not> (rest \<noteq> [] \<and> hd rest \<in> set ''|'')" using s by (auto simp: starts_def)
  ultimately show "\<exists>c'. parsepipe n line p = Ok (c', p + length t) \<and> map_cmd (text_of line) c' = c"
    using c peek_at [OF at_append [OF a], of "''|''"] unfolding m by (auto simp: mbind_def mret_def)
qed

lemma level21: "level2 line c t \<Longrightarrow> level1 line c t"
  unfolding level1_def
proof (intro allI impI)
  fix p n rest
  assume l: "level2 line c t" and a: "at line p (t @ rest)" and s: "starts '')&;'' rest" and n: "4 * (length line - p) + 3 \<le> n"
  obtain c' where c: "parsepipe n line p = Ok (c', p + length t)" "map_cmd (text_of line) c' = c"
    using l a s n unfolding level2_def by blast
  then have "mbind (parsepipe n line) (back_loop (Suc (length line)) line) p = back_loop (Suc (length line)) line c' (p + length t)"
    by (simp add: mbind_Ok)
  then show "\<exists>c' k. mbind (parsepipe n line) (back_loop (Suc (length line)) line) p = back_loop k line c' (p + length t) \<and>
       length line - (p + length t) < k \<and> map_cmd (text_of line) c' = c"
    using c(2) by (metis diff_le_self le_imp_less_Suc)
qed

lemma level1_done:
  assumes l: "level1 line c t" and a: "at line p (t @ rest)" and s: "starts '');'' rest" and n: "4 * (length line - p) + 3 \<le> n"
  obtains c' where "mbind (parsepipe n line) (back_loop (Suc (length line)) line) p = Ok (c', p + length t)" "map_cmd (text_of line) c' = c"
proof -
  have "starts '')&;'' rest" using s by (rule starts_mono) auto
  then obtain c' k where c: "mbind (parsepipe n line) (back_loop (Suc (length line)) line) p = back_loop k line c' (p + length t)"
    "length line - (p + length t) < k" "map_cmd (text_of line) c' = c"
    using l a n unfolding level1_def by blast
  moreover have "back_loop k line c' (p + length t) = Ok (c', p + length t)"
    using back_loop_stop [OF at_append [OF a] s] c(2) by simp
  ultimately show thesis using that by simp
qed

lemma parseline_Suc:
  "parseline (Suc n) line =
    mbind (mbind (parsepipe n line) (back_loop (Suc (length line)) line)) (\<lambda>cmd.
    mbind (peek line '';'') (\<lambda>more.
    if more then mbind (gettoken line) (\<lambda>_. mbind (parseline n line) (\<lambda>right. mret (listcmd cmd right))) else mret cmd))"
  by (simp add: mbind_assoc)

lemma level10: "level1 line c t \<Longrightarrow> level0 line c t"
  unfolding level0_def
proof (intro allI impI)
  fix p n rest
  assume l: "level1 line c t" and a: "at line p (t @ rest)" and s: "starts '')'' rest" and n: "4 * (length line - p) + 4 \<le> n"
  obtain m where m: "n = Suc m" using n by (cases n) auto
  have s1: "starts '');'' rest" using s by (rule starts_mono) auto
  obtain c' where c: "mbind (parsepipe m line) (back_loop (Suc (length line)) line) p = Ok (c', p + length t)" "map_cmd (text_of line) c' = c"
    using level1_done [OF l a s1, of m] n m by auto
  have "solid rest" using starts_mono [OF s, of symbols] by (intro solid_symbols) (simp add: symbols_def)
  moreover have "\<not> (rest \<noteq> [] \<and> hd rest \<in> set '';'')" using s by (auto simp: starts_def)
  ultimately show "\<exists>c'. parseline n line p = Ok (c', p + length t) \<and> map_cmd (text_of line) c' = c"
    using c peek_at [OF at_append [OF a], of "'';''"] unfolding m parseline_Suc by (auto simp: mbind_Ok [of "mbind (parsepipe m line) (back_loop (Suc (length line)) line)" p, OF c(1)] mbind_Ok mret_def)
qed

section \<open>The constructs\<close>

lemma level3_block:
  assumes l: "level0 line c t" and ne: "solid (t @ '') '' @ [])"
  shows "level3 line c (''( '' @ t @ '') '')"
  unfolding level3_def
proof (intro allI impI)
  fix p n rest
  assume a: "at line p ((''( '' @ t @ '') '') @ rest)" and s: "starts ''|)&;<>'' rest" and n: "4 * (length line - p) + 2 \<le> n"
  have sr: "solid rest" using starts_mono [OF s, of symbols] by (intro solid_symbols) (simp add: symbols_def)
  have a0: "at line p ([CHR ''(''] @ '' '' @ t @ '') '' @ rest)" using a by simp
  have st: "solid (t @ '') '' @ rest)" using ne by (cases t) (simp_all add: solid_def)
  have len: "p + 2 \<le> length line" using at_len [of line p "''( ''" "t @ '') '' @ rest"] a0 by simp
  obtain m where m: "n = Suc (Suc m)" using n that [of "n - 2"] by simp
  note g1 = gettoken_sym [OF a0 _ st]
  have pk1: "peek line ''('' p = Ok (True, p)" using peek_at [OF a0, of "''(''"] by simp
  have a1: "at line (p + 2) (t @ [CHR '')''] @ '' '' @ rest)" using g1(2) by simp
  have "4 * (length line - (p + 2)) + 4 \<le> m" using n m len by simp
  then obtain c' where c: "parseline m line (p + 2) = Ok (c', p + 2 + length t)" "map_cmd (text_of line) c' = c"
    using l a1 unfolding level0_def by (metis append.assoc append_Cons list.sel(1) list.set_intros(1) starts_def)
  have a2: "at line (p + 2 + length t) ([CHR '')''] @ '' '' @ rest)" using at_append [OF a1] .
  have pk2: "peek line '')'' (p + 2 + length t) = Ok (True, p + 2 + length t)" using peek_at [OF a2, of "'')''"] by simp
  note g2 = gettoken_sym [OF a2 _ sr]
  have "parseexec n line p = parseredirs line c' (p + 2 + length t + 2)"
    unfolding m using g1(1) g2(1) c(1) pk2 by (simp add: mbind_def pk1 mpanic_if_def mret_def)
  then have "parseexec n line p = mbind (parseredirs_loop (Suc (length line)) line c') mret (p + length (''( '' @ t @ '') ''))"
    by (simp add: parseredirs_def)
  then show "\<exists>c' k g. parseexec n line p = mbind (parseredirs_loop k line c') g (p + length (''( '' @ t @ '') '')) \<and> idle line g \<and>
       length line - (p + length (''( '' @ t @ '') '')) < k \<and> map_cmd (text_of line) c' = c"
    using idle_mret c(2) by (intro exI [of _ c'] exI [of _ "Suc (length line)"] exI [of _ mret]) simp
qed

lemma level3_redir:
  assumes l: "level3 line c t" and f: "is_word f" and r: "redir_ok mode fd"
  shows "level3 line (REDIR c f mode fd) (t @ redir_sym mode fd @ '' '' @ f @ '' '')"
  unfolding level3_def
proof (intro allI impI)
  let ?sym = "redir_sym mode fd"
  fix p n rest
  assume a: "at line p ((t @ ?sym @ '' '' @ f @ '' '') @ rest)" and s: "starts ''|)&;<>'' rest" and n: "4 * (length line - p) + 2 \<le> n"
  have sr: "solid rest" using starts_mono [OF s, of symbols] by (intro solid_symbols) (simp add: symbols_def)
  define tok where "tok = (if ?sym = ''>>'' then CHR ''+'' else hd ?sym)"
  have sym: "?sym \<in> {''<'', ''>'', ''>>''}" by (simp add: redir_sym_def)
  have a0: "at line p (t @ ?sym @ '' '' @ f @ '' '' @ rest)" using a by simp
  have "starts ''|)&;<>'' (?sym @ '' '' @ f @ '' '' @ rest)" using sym by (auto simp: starts_def)
  then obtain c' k g where e: "parseexec n line p = mbind (parseredirs_loop k line c') g (p + length t)" "idle line g"
    "length line - (p + length t) < k" "map_cmd (text_of line) c' = c"
    using l a0 n unfolding level3_def by blast
  have a1: "at line (p + length t) (?sym @ '' '' @ f @ '' '' @ rest)" using at_append [OF a0] .
  let ?p = "p + length t"
  have sf: "solid (f @ '' '' @ rest)" using solid_word [OF f] .
  have g1: "gettoken line ?p = Ok ((tok, ?p, ?p + length ?sym), ?p + length ?sym + 1)" "at line (?p + length ?sym + 1) (f @ '' '' @ rest)"
  proof -
    consider "?sym = ''<''" | "?sym = ''>''" | "?sym = ''>>''" using sym by auto
    then have "gettoken line ?p = Ok ((tok, ?p, ?p + length ?sym), ?p + length ?sym + 1) \<and> at line (?p + length ?sym + 1) (f @ '' '' @ rest)"
    proof cases
      case 1
      then show ?thesis using gettoken_sym [of line ?p "CHR ''<''" "f @ '' '' @ rest"] a1 sf by (simp add: tok_def)
    next
      case 2
      then show ?thesis using gettoken_gt [OF a1, of "CHR ''>''"] sf by (simp add: tok_def)
    next
      case 3
      then show ?thesis using gettoken_gt [OF a1, of "CHR ''+''"] sf by (simp add: tok_def)
    qed
    then show "gettoken line ?p = Ok ((tok, ?p, ?p + length ?sym), ?p + length ?sym + 1)" "at line (?p + length ?sym + 1) (f @ '' '' @ rest)"
      by simp_all
  qed
  let ?q = "?p + length ?sym + 1"
  note g2 = gettoken_word [OF g1(2) f sr]
  have pk: "peek line ''<>'' ?p = Ok (True, ?p)" using peek_at [OF a1, of "''<>''"] sym by auto
  obtain k' where k: "k = Suc k'" using e(3) by (cases k) auto
  let ?d = "REDIR c' (?q, ?q + length f) mode fd"
  have sel: "(if tok = CHR ''<'' then redircmd c' w O_RDONLY 0
         else if tok = CHR ''>'' then redircmd c' w (O_WRONLY OR O_CREATE OR O_TRUNC) 1
         else if tok = CHR ''+'' then redircmd c' w (O_WRONLY OR O_CREATE) 1 else c') = REDIR c' w mode fd" for w
    using r by (auto simp: tok_def redir_sym_def redir_ok_def redircmd_def O_WRONLY_def O_CREATE_def O_TRUNC_def)
  have "parseredirs_loop k line c' ?p = parseredirs_loop k' line ?d (?q + length f + 1)"
    unfolding k using g1(1) g2(1) by (simp add: mbind_def pk mpanic_if_def mret_def sel)
  then have "parseexec n line p = mbind (parseredirs_loop k' line ?d) g (p + length (t @ ?sym @ '' '' @ f @ '' ''))"
    using e(1) by (simp add: mbind_def add.assoc)
  moreover have "length line - (p + length (t @ ?sym @ '' '' @ f @ '' '')) < k'"
    using e(3) k at_len [OF a] by simp
  moreover have "map_cmd (text_of line) ?d = REDIR c f mode fd" using e(4) g2(3) by simp
  ultimately show "\<exists>c' k g. parseexec n line p = mbind (parseredirs_loop k line c') g (p + length (t @ ?sym @ '' '' @ f @ '' '')) \<and> idle line g \<and>
       length line - (p + length (t @ ?sym @ '' '' @ f @ '' '')) < k \<and> map_cmd (text_of line) c' = REDIR c f mode fd"
    using e(2) by blast
qed

text \<open>The words of a simple command.\<close>

lemma parseexec_loop_words:
  assumes "at line p (concat (map (\<lambda>w. w @ '' '') (w # ws)) @ rest)" "\<forall>v \<in> set (w # ws). is_word v" "starts ''|)&;<>'' rest"
    "argc + length (w # ws) < MAXARGS" "length line - p < k" "map_cmd (text_of line) c = EXEC vs"
  shows "\<exists>c' k' j. parseexec_loop k line argc c p =
      mbind (parseredirs_loop (Suc (length line)) line c') (parseexec_loop k' line j) (p + length (concat (map (\<lambda>w. w @ '' '') (w # ws)))) \<and>
    0 < k' \<and> map_cmd (text_of line) c' = EXEC (vs @ w # ws)"
  using assms
proof (induction ws arbitrary: w p argc k c vs)
  case Nil
  obtain k' where k: "k = Suc k'" using Nil.prems(5) by (cases k) auto
  have a: "at line p (w @ '' '' @ rest)" using Nil.prems(1) by simp
  have w: "is_word w" using Nil.prems(2) by simp
  have sr: "solid rest" using starts_mono [OF Nil.prems(3), of symbols] by (intro solid_symbols) (simp add: symbols_def)
  note g = gettoken_word [OF a w sr]
  have pk: "peek line ''|)&;'' p = Ok (False, p)"
    using peek_at [OF a solid_word [OF w], of "''|)&;''"] is_word_head [OF w, of "'' '' @ rest"] by (auto simp: symbols_def)
  have n: "CHR ''a'' \<noteq> nul" by (simp add: nul_def)
  have "parseexec_loop k line argc c p =
      mbind (parseredirs line (add_arg (p, p + length w) c)) (parseexec_loop k' line (Suc argc)) (p + length w + 1)"
    unfolding k using g(1) Nil.prems(4) n by (simp add: mbind_def pk mpanic_if_def mret_def)
  moreover have "0 < k'" using Nil.prems(5) at_len [OF a] k w by (cases w) (auto simp: is_word_def)
  moreover have "map_cmd (text_of line) (add_arg (p, p + length w) c) = EXEC (vs @ [w])"
    using Nil.prems(6) g(3) by (cases c) simp_all
  ultimately show ?case unfolding parseredirs_def by (intro exI conjI) simp_all
next
  case (Cons v ws)
  obtain k' where k: "k = Suc k'" using Cons.prems(5) by (cases k) auto
  let ?t = "concat (map (\<lambda>w. w @ '' '') (v # ws))"
  have a: "at line p (w @ '' '' @ ?t @ rest)" using Cons.prems(1) by simp
  have w: "is_word w" "is_word v" using Cons.prems(2) by simp_all
  have sv: "solid (?t @ rest)" using solid_word [OF w(2), of "'' '' @ concat (map (\<lambda>w. w @ '' '') ws) @ rest"] by simp
  note g = gettoken_word [OF a w(1) sv]
  have pk: "peek line ''|)&;'' p = Ok (False, p)"
    using peek_at [OF a solid_word [OF w(1)], of "''|)&;''"] is_word_head [OF w(1), of "'' '' @ ?t @ rest"] by (auto simp: symbols_def)
  have n: "CHR ''a'' \<noteq> nul" by (simp add: nul_def)
  let ?c = "add_arg (p, p + length w) c" and ?p = "p + length w + 1"
  have hd: "?t @ rest \<noteq> [] \<and> hd (?t @ rest) \<notin> set symbols"
    using is_word_head [OF w(2), of "'' '' @ concat (map (\<lambda>w. w @ '' '') ws) @ rest"] by simp
  have r: "parseredirs line ?c ?p = Ok (?c, ?p)"
    unfolding parseredirs_def by (rule parseredirs_loop_stop [OF g(2) sv disjI2 [OF hd], of "[]"]) simp_all
  have e: "parseexec_loop k line argc c p = parseexec_loop k' line (Suc argc) ?c ?p"
    unfolding k using g(1) r Cons.prems(4) n by (simp add: mbind_def pk mpanic_if_def mret_def)
  have m: "map_cmd (text_of line) ?c = EXEC (vs @ [w])" using Cons.prems(6) g(3) by (cases c) simp_all
  have "length line - ?p < k'" using Cons.prems(5) k g(2) w(1) by (auto simp: at_def)
  from Cons.IH [OF g(2) _ Cons.prems(3) _ this m, of "Suc argc"] Cons.prems(2,4)
  show ?case unfolding e by (simp add: algebra_simps)
qed

lemma level3_exec:
  assumes "length ws < MAXARGS" "\<forall>w \<in> set ws. is_word w"
  shows "level3 line (EXEC ws) (concat (map (\<lambda>w. w @ '' '') ws))"
  unfolding level3_def
proof (intro allI impI)
  let ?t = "concat (map (\<lambda>w. w @ '' '') ws)"
  fix p n rest
  assume a: "at line p (?t @ rest)" and s: "starts ''|)&;<>'' rest" and n: "4 * (length line - p) + 2 \<le> n"
  obtain m where m: "n = Suc m" using n by (cases n) auto
  have sr: "solid rest" using starts_mono [OF s, of symbols] by (intro solid_symbols) (simp add: symbols_def)
  show "\<exists>c' k g. parseexec n line p = mbind (parseredirs_loop k line c') g (p + length ?t) \<and> idle line g \<and>
       length line - (p + length ?t) < k \<and> map_cmd (text_of line) c' = EXEC ws"
  proof (cases ws)
    case Nil
    have "\<not> (rest \<noteq> [] \<and> hd rest \<in> set ''('')" using s by (auto simp: starts_def)
    then have "peek line ''('' p = Ok (False, p)" using peek_at [of line p rest "''(''"] a sr Nil by auto
    then have "parseexec n line p = mbind (parseredirs_loop (Suc (length line)) line execcmd) (parseexec_loop (Suc (length line)) line 0) p"
      unfolding m by (simp add: mbind_def parseredirs_def)
    moreover have "idle line (parseexec_loop (Suc (length line)) line 0)" by (rule idle_exec_loop) simp
    moreover have "map_cmd (text_of line) execcmd = EXEC ws" using Nil by (simp add: execcmd_def)
    moreover have "length line - (p + length ?t) < Suc (length line)" by simp
    ultimately show ?thesis using Nil
      by (intro exI [of _ execcmd] exI [of _ "Suc (length line)"] exI [of _ "parseexec_loop (Suc (length line)) line 0"]) simp
  next
    case (Cons w ws')
    have w: "is_word w" using assms(2) Cons by simp
    have aw: "at line p (w @ '' '' @ concat (map (\<lambda>w. w @ '' '') ws') @ rest)" using a Cons by simp
    note hd = is_word_head [OF w, of "'' '' @ concat (map (\<lambda>w. w @ '' '') ws') @ rest"]
    have pk: "peek line ''('' p = Ok (False, p)"
      using peek_at [OF aw solid_word [OF w], of "''(''"] hd by (auto simp: symbols_def)
    have r: "parseredirs line execcmd p = Ok (execcmd, p)"
      unfolding parseredirs_def
      by (rule parseredirs_loop_stop [OF aw solid_word [OF w] disjI2, of "[]"]) (use hd w in \<open>auto simp: is_word_def\<close>)
    have e: "parseexec n line p = parseexec_loop (Suc (length line)) line 0 execcmd p"
      unfolding m by (simp add: mbind_def pk r)
    have aw': "at line p (concat (map (\<lambda>w. w @ '' '') (w # ws')) @ rest)" using a Cons by simp
    have e0: "map_cmd (text_of line) execcmd = EXEC []" by (simp add: execcmd_def)
    have "\<exists>c' k' j. parseexec_loop (Suc (length line)) line 0 execcmd p =
        mbind (parseredirs_loop (Suc (length line)) line c') (parseexec_loop k' line j) (p + length (concat (map (\<lambda>w. w @ '' '') (w # ws')))) \<and>
      0 < k' \<and> map_cmd (text_of line) c' = EXEC ([] @ w # ws')"
      by (rule parseexec_loop_words [OF aw' _ s _ _ e0]) (use assms Cons in simp_all)
    then obtain c' k' j where c: "parseexec_loop (Suc (length line)) line 0 execcmd p =
        mbind (parseredirs_loop (Suc (length line)) line c') (parseexec_loop k' line j) (p + length ?t)"
      "0 < k'" "map_cmd (text_of line) c' = EXEC ws" unfolding append_Nil Cons [symmetric] by blast
    have "idle line (parseexec_loop k' line j)" using c(2) by (rule idle_exec_loop)
    moreover have "length line - (p + length ?t) < Suc (length line)" by simp
    ultimately show ?thesis unfolding e c(1) using c(3)
      by (intro exI [of _ c'] exI [of _ "Suc (length line)"] exI [of _ "parseexec_loop k' line j"]) blast
  qed
qed

lemma level2_pipe:
  assumes l: "level3 line c t" and r: "level2 line d u" and u: "\<And>rest. solid rest \<Longrightarrow> solid (u @ rest)"
  shows "level2 line (PIPE c d) (t @ ''| '' @ u)"
  unfolding level2_def
proof (intro allI impI)
  fix p n rest
  assume a: "at line p ((t @ ''| '' @ u) @ rest)" and s: "starts '')&;'' rest" and n: "4 * (length line - p) + 3 \<le> n"
  obtain m where m: "n = Suc m" using n by (cases n) auto
  have a0: "at line p (t @ [CHR ''|''] @ '' '' @ u @ rest)" using a by simp
  have "starts ''|)&;'' ([CHR ''|''] @ '' '' @ u @ rest)" by (simp add: starts_def)
  then obtain c' where c: "parseexec m line p = Ok (c', p + length t)" "map_cmd (text_of line) c' = c"
    using level3_done [OF l a0, of m] n m by auto
  have "solid rest" using starts_mono [OF s, of symbols] by (intro solid_symbols) (simp add: symbols_def)
  then have su: "solid (u @ rest)" by (rule u)
  have a1: "at line (p + length t) ([CHR ''|''] @ '' '' @ u @ rest)" using at_append [OF a0] .
  have pk: "peek line ''|'' (p + length t) = Ok (True, p + length t)" using peek_at [OF a1, of "''|''"] by simp
  note g = gettoken_sym [OF a1 _ su]
  have "4 * (length line - (p + length t + 2)) + 3 \<le> m" using n m at_len [OF a] by simp
  then obtain d' where d: "parsepipe m line (p + length t + 2) = Ok (d', p + length t + 2 + length u)" "map_cmd (text_of line) d' = d"
    using r g(2) s unfolding level2_def by force
  have "parsepipe n line p = Ok (PIPE c' d', p + length (t @ ''| '' @ u))"
    unfolding m using g(1) d(1) by (simp add: mbind_def c(1) pk mret_def pipecmd_def)
  then show "\<exists>c'. parsepipe n line p = Ok (c', p + length (t @ ''| '' @ u)) \<and> map_cmd (text_of line) c' = PIPE c d"
    using c(2) d(2) by (intro exI [of _ "PIPE c' d'"]) simp
qed

lemma level1_back:
  assumes l: "level1 line c t"
  shows "level1 line (BACK c) (t @ ''& '')"
  unfolding level1_def
proof (intro allI impI)
  fix p n rest
  assume a: "at line p ((t @ ''& '') @ rest)" and s: "starts '')&;'' rest" and n: "4 * (length line - p) + 3 \<le> n"
  have a0: "at line p (t @ [CHR ''&''] @ '' '' @ rest)" using a by simp
  have "starts '')&;'' ([CHR ''&''] @ '' '' @ rest)" by (simp add: starts_def)
  then obtain c' k where c: "mbind (parsepipe n line) (back_loop (Suc (length line)) line) p = back_loop k line c' (p + length t)"
    "length line - (p + length t) < k" "map_cmd (text_of line) c' = c"
    using l a0 n unfolding level1_def by blast
  obtain k' where k: "k = Suc k'" using c(2) by (cases k) auto
  have sr: "solid rest" using starts_mono [OF s, of symbols] by (intro solid_symbols) (simp add: symbols_def)
  have a1: "at line (p + length t) ([CHR ''&''] @ '' '' @ rest)" using at_append [OF a0] .
  have pk: "peek line ''&'' (p + length t) = Ok (True, p + length t)" using peek_at [OF a1, of "''&''"] by simp
  note g = gettoken_sym [OF a1 _ sr]
  have "back_loop k line c' (p + length t) = back_loop k' line (BACK c') (p + length (t @ ''& ''))"
    unfolding k using g(1) by (simp add: mbind_def pk mret_def backcmd_def)
  moreover have "length line - (p + length (t @ ''& '')) < k'" using c(2) k at_len [OF a] by simp
  ultimately show "\<exists>c' k. mbind (parsepipe n line) (back_loop (Suc (length line)) line) p = back_loop k line c' (p + length (t @ ''& '')) \<and>
       length line - (p + length (t @ ''& '')) < k \<and> map_cmd (text_of line) c' = BACK c"
    using c(1,3) by (intro exI [of _ "BACK c'"] exI [of _ k']) simp
qed

lemma level0_list:
  assumes l: "level1 line c t" and r: "level0 line d u" and u: "\<And>rest. solid rest \<Longrightarrow> solid (u @ rest)"
  shows "level0 line (LIST c d) (t @ ''; '' @ u)"
  unfolding level0_def
proof (intro allI impI)
  fix p n rest
  assume a: "at line p ((t @ ''; '' @ u) @ rest)" and s: "starts '')'' rest" and n: "4 * (length line - p) + 4 \<le> n"
  obtain m where m: "n = Suc m" using n by (cases n) auto
  have a0: "at line p (t @ [CHR '';''] @ '' '' @ u @ rest)" using a by simp
  have "starts '');'' ([CHR '';''] @ '' '' @ u @ rest)" by (simp add: starts_def)
  then obtain c' where c: "mbind (parsepipe m line) (back_loop (Suc (length line)) line) p = Ok (c', p + length t)" "map_cmd (text_of line) c' = c"
    using level1_done [OF l a0, of m] n m by auto
  have "solid rest" using starts_mono [OF s, of symbols] by (intro solid_symbols) (simp add: symbols_def)
  then have su: "solid (u @ rest)" by (rule u)
  have a1: "at line (p + length t) ([CHR '';''] @ '' '' @ u @ rest)" using at_append [OF a0] .
  have pk: "peek line '';'' (p + length t) = Ok (True, p + length t)" using peek_at [OF a1, of "'';''"] by simp
  note g = gettoken_sym [OF a1 _ su]
  have "4 * (length line - (p + length t + 2)) + 4 \<le> m" using n m at_len [OF a] by simp
  then obtain d' where d: "parseline m line (p + length t + 2) = Ok (d', p + length t + 2 + length u)" "map_cmd (text_of line) d' = d"
    using r g(2) s unfolding level0_def by force
  have "parseline n line p = Ok (LIST c' d', p + length (t @ ''; '' @ u))"
    unfolding m parseline_Suc mbind_Ok [of "mbind (parsepipe m line) (back_loop (Suc (length line)) line)" p, OF c(1)]
    using g(1) d(1) by (simp add: mbind_def pk mret_def listcmd_def)
  then show "\<exists>c'. parseline n line p = Ok (c', p + length (t @ ''; '' @ u)) \<and> map_cmd (text_of line) c' = LIST c d"
    using c(2) d(2) by (intro exI [of _ "LIST c' d'"]) simp
qed

section \<open>The round trip\<close>

lemma redir_sym_cases:
  obtains "redir_sym mode fd = ''<''" | "redir_sym mode fd = ''>''" | "redir_sym mode fd = ''>>''"
  by (cases "fd = 0"; cases "mode = O_WRONLY OR O_CREATE OR O_TRUNC") (auto simp: redir_sym_def)

lemma solid_show: "cmd_ok c \<Longrightarrow> solid rest \<Longrightarrow> solid (show_cmd k c @ rest)"
proof (induction c arbitrary: k rest)
  case (EXEC ws)
  then show ?case
  proof (cases ws)
    case (Cons w ws')
    then show ?thesis using EXEC.prems(1) solid_word [of w "'' '' @ concat (map (\<lambda>w. w @ '' '') ws') @ rest"] by simp
  qed simp
next
  case (REDIR c f mode fd)
  have "solid (redir_sym mode fd @ '' '' @ f @ '' '' @ rest)" by (cases rule: redir_sym_cases [of mode fd]) simp_all
  then show ?case using REDIR.IH [of "redir_sym mode fd @ '' '' @ f @ '' '' @ rest"] REDIR.prems(1) by simp
next
  case (PIPE l r)
  then show ?case using PIPE.IH(1) [of "''| '' @ show_cmd 2 r @ rest" 3] by (simp add: par_def)
next
  case (LIST l r)
  then show ?case using LIST.IH(1) [of "''; '' @ show_cmd 0 r @ rest" 1] by (simp add: par_def)
next
  case (BACK c)
  then show ?case using BACK.IH [of "''& '' @ rest" 1] by (simp add: par_def)
qed simp

lemma nul_show: "cmd_ok c \<Longrightarrow> nul \<notin> set (show_cmd k c)"
proof (induction c arbitrary: k)
  case (REDIR c f mode fd)
  have "nul \<notin> set (redir_sym mode fd)" by (cases rule: redir_sym_cases [of mode fd]) (simp_all add: nul_def)
  then show ?case using REDIR by (auto simp: is_word_def nul_def)
qed (auto simp: is_word_def par_def nul_def)

lemma show_levels:
  "cmd_ok c \<Longrightarrow> level0 line c (show_cmd 0 c) \<and> level1 line c (show_cmd 1 c) \<and> level2 line c (show_cmd 2 c) \<and> level3 line c (show_cmd 3 c)"
proof (induction c)
  case (EXEC ws)
  then have "level3 line (EXEC ws) (show_cmd 3 (EXEC ws))" by (simp add: level3_exec)
  then show ?case using level32 level21 level10 by fastforce
next
  case (REDIR c f mode fd)
  then have "level3 line (REDIR c f mode fd) (show_cmd 3 (REDIR c f mode fd))" using level3_redir [of line c "show_cmd 3 c" f mode fd] by simp
  then show ?case using level32 level21 level10 by fastforce
next
  case (PIPE l r)
  let ?t = "show_cmd 3 l @ ''| '' @ show_cmd 2 r"
  have t: "show_cmd 0 (PIPE l r) = ?t" "show_cmd 1 (PIPE l r) = ?t" "show_cmd 2 (PIPE l r) = ?t" "show_cmd 3 (PIPE l r) = ''( '' @ ?t @ '') ''"
    by (simp_all add: par_def)
  have l2: "level2 line (PIPE l r) ?t" using PIPE by (intro level2_pipe solid_show) simp_all
  then have l0: "level0 line (PIPE l r) ?t" using level21 level10 by blast
  have "solid (?t @ '') '' @ [])" using solid_show [OF PIPE.prems, of "'') ''" 0] by (simp add: par_def)
  from level3_block [OF l0 this] show ?case unfolding t using l2 l0 level21 by blast
next
  case (LIST l r)
  let ?t = "show_cmd 1 l @ ''; '' @ show_cmd 0 r"
  have t: "show_cmd 0 (LIST l r) = ?t" "show_cmd 1 (LIST l r) = ''( '' @ ?t @ '') ''" "show_cmd 2 (LIST l r) = ''( '' @ ?t @ '') ''"
    "show_cmd 3 (LIST l r) = ''( '' @ ?t @ '') ''" by (simp_all add: par_def)
  have l0: "level0 line (LIST l r) ?t" using LIST by (intro level0_list solid_show) simp_all
  have "solid (?t @ '') '' @ [])" using solid_show [OF LIST.prems, of "'') ''" 0] by (simp add: par_def)
  from level3_block [OF l0 this] show ?case unfolding t using l0 level32 level21 by blast
next
  case (BACK c)
  let ?t = "show_cmd 1 c @ ''& ''"
  have t: "show_cmd 0 (BACK c) = ?t" "show_cmd 1 (BACK c) = ?t" "show_cmd 2 (BACK c) = ''( '' @ ?t @ '') ''" "show_cmd 3 (BACK c) = ''( '' @ ?t @ '') ''"
    by (simp_all add: par_def)
  have l1: "level1 line (BACK c) ?t" using BACK by (intro level1_back) simp
  then have l0: "level0 line (BACK c) ?t" by (rule level10)
  have "solid (?t @ '') '' @ [])" using solid_show [OF BACK.prems, of "'') ''" 0] by (simp add: par_def)
  from level3_block [OF l0 this] show ?case unfolding t using l1 l0 level32 by blast
qed simp

section \<open>Properties\<close>

text \<open>
  C40. Parsing inverts printing: for every command with plain words and fewer than \<open>MAXARGS\<close> arguments, whatever the nesting of
  lists, pipelines, background commands, redirections and blocks, \<open>parsecmd\<close> returns on the text of the command, and the
  command it returns is the one printed, when each word is read as the C string in the buffer
  that \<open>runcmd\<close> will see.
\<close>

theorem parse_show:
  assumes "cmd_ok c"
  shows "\<exists>c' buf. parsecmd (show_cmd 0 c) = Ok (c', buf) \<and> map_cmd (\<lambda>(q, e). cstring buf q) c' = c"
proof -
  let ?line = "show_cmd 0 c"
  have n: "nul \<notin> set ?line" using nul_show [OF assms] .
  have "at ?line 0 (?line @ [])" "starts '')'' []" by (simp_all add: at_def starts_def)
  then obtain c' where c: "parseline (4 * length ?line + 4) ?line 0 = Ok (c', length ?line)" "map_cmd (text_of ?line) c' = c"
    using show_levels [OF assms, of ?line] unfolding level0_def by (metis add_0 diff_zero order_refl)
  have g: "good ?line c'" using runs_parser(1) [OF n, of 0 "4 * length ?line + 4"] c(1) by (simp add: runs_def)
  let ?buf = "nulterminate c' (?line @ [nul])"
  have "parsecmd ?line = Ok (c', ?buf)" using parsecmd_Ok [OF g c(1)] by (simp add: skip_id)
  moreover have "map_cmd (\<lambda>(q, e). cstring ?buf q) c' = map_cmd (text_of ?line) c'"
    by (rule cmd.map_cong0) (use cstring_word [OF g _ n] in auto)
  ultimately show ?thesis using c(2) by auto
qed

theorem parse_show_witness:
  "show_cmd 0 (LIST (BACK (PIPE (EXEC [''cat'', ''f'']) (REDIR (EXEC [''wc'']) ''out'' 0x601 1))) (EXEC [''ls''])) = ''cat f | wc > out & ; ls '' \<and>
   (\<exists>c' buf. parsecmd ''cat f | wc > out & ; ls '' = Ok (c', buf) \<and>
     map_cmd (\<lambda>(q, e). cstring buf q) c' = LIST (BACK (PIPE (EXEC [''cat'', ''f'']) (REDIR (EXEC [''wc'']) ''out'' 0x601 1))) (EXEC [''ls'']))"
proof -
  let ?c = "LIST (BACK (PIPE (EXEC [''cat'', ''f'']) (REDIR (EXEC [''wc'']) ''out'' 0x601 1))) (EXEC [''ls''])"
  have ok: "cmd_ok ?c" by code_simp
  have t: "show_cmd 0 ?c = ''cat f | wc > out & ; ls ''" by code_simp
  show ?thesis using parse_show [OF ok] unfolding t by blast
qed

end
