(* ===== verification/Spec2Isabelle.thy ===== *)
theory Spec2Isabelle
  imports Log Pagetable Usercopy Spinlock Sleeplock Trap Asm Grep Transactions Itable Requests Shellprint
begin

text \<open>
  A verification development for the xv6 kernel under \<open>src/kernel\<close> and parts of the user programs under
  \<open>src/user\<close>.

  \<^bold>\<open>The program.\<close> xv6 is a small Unix for RISC-V. User processes enter the kernel through the trampoline, the
  trap handler dispatches system calls, and the calls work on processes, virtual memory, open files, pipes and
  a file system with a write-ahead log over a buffer cache and a virtio disk. This version adds
  file permissions (\<open>chmod\<close>, mode bits in the inode), \<open>lseek\<close>, user-level mutexes, \<open>getprocs\<close> and free-page counts.

  \<^bold>\<open>How code is modelled.\<close> \<open>Kernel_Prelude\<close>: a C function is a function on an explicit state with the outcomes \<open>Ok\<close>,
  \<open>Panic\<close>, \<open>Blocked\<close> (it sleeps; the caller retries, as the C loop around \<open>sleep\<close> does) and \<open>Diverges\<close> (a loop that does not end).
  Integers are words of their C width. Structures that the kernel lays over raw bytes are read and written at their
  offsets. A section under a spin lock is one step; where processes, CPUs or devices interleave, step relations
  (\<open>inductive\<close>) compose these steps. \<open>Frame\<close> has the reasoning about the parts of the state that code leaves alone.

  \<^bold>\<open>The theories\<close>, from the bottom up:

  \<^item> \<open>Cstring\<close> (\<open>string.c\<close>), \<open>Riscv\<close> (\<open>riscv.h\<close>, \<open>memlayout.h\<close>): byte and string functions; page-table entries and address
    arithmetic.
  \<^item> \<open>Kalloc\<close> (\<open>kalloc.c\<close>): the page allocator. The free list is a duplicate-free chain of pages; \<open>kalloc\<close>, \<open>kfree\<close> and
    \<open>kinit\<close> are correct. Its contract is the locale \<open>page_allocator\<close>, interpreted on \<open>kalloc\<close> and \<open>kfree\<close>.
  \<^item> \<open>Vm\<close> (\<open>vm.c\<close>), \<open>Pagetable\<close>, \<open>Usercopy\<close>: page tables refine a lookup function; \<open>copyout\<close> touches only what user mode
    may write, and \<open>copyin\<close> reads it back.
  \<^item> \<open>Spinlock\<close>, \<open>Sleeplock\<close>, \<open>Mutex\<close> (\<open>spinlock.c\<close>, \<open>sleeplock.c\<close>, \<open>mutex.c\<close>): mutual exclusion under any interleaving;
    the locale \<open>sleeping_lock\<close> is shared by sleep locks and mutexes. Two theorems show how user mutexes fail.
  \<^item> \<open>Bio\<close> (\<open>bio.c\<close>), \<open>Log\<close> (\<open>log.c\<close>): the cache is a list of buffers in order of use, with the contract \<open>block_cache\<close>; a commit is
    atomic under a crash at any disk write, recovery is idempotent, and the reservation of \<open>begin_op\<close> is one block short.
  \<^item> \<open>Inode\<close>, \<open>Dir\<close> (\<open>fs.c\<close>), \<open>Itable\<close>: block allocation, inodes, file contents, directories and paths; the inode table has
    one entry per inode, and inodes survive being written and read.
  \<^item> \<open>Ring\<close>, \<open>Pipe\<close>, \<open>Uart\<close>, \<open>Console\<close> (\<open>pipe.c\<close>, \<open>uart.c\<close>, \<open>console.c\<close>): ring buffers with wrapping indices (locale \<open>ring_buffer\<close>) are
    queues; console input is a line editor. \<open>Printf\<close> (\<open>kernel/printf.c\<close>, \<open>user/printf.c\<close>): printed numbers denote the number, and where the
    buffer is too short.
  \<^item> \<open>Virtio\<close> (\<open>virtio_disk.c\<close>), \<open>Requests\<close>: the driver and a device that answers in any order: descriptors of requests are
    disjoint, nothing panics, and every request can finish.
  \<^item> \<open>Proc\<close>, \<open>Process\<close> (\<open>proc.c\<close>), \<open>Kernel\<close> (the whole state): scheduling keeps a process on one CPU and never strands a sleeper; creation,
    \<open>fork\<close>, \<open>exit\<close>, \<open>wait\<close>.
  \<^item> \<open>File\<close>, \<open>Syscall\<close>, \<open>Sysfile\<close>, \<open>Exec\<close>, \<open>Trap\<close> (\<open>file.c\<close>, \<open>syscall.c\<close>, \<open>sysproc.c\<close>, \<open>sysfile.c\<close>, \<open>exec.c\<close>, \<open>trap.c\<close>, \<open>plic.c\<close>, \<open>main.c\<close>, \<open>start.c\<close>):
    all system calls on all branches, traps and boot. Over them: \<open>Descriptors\<close> (reference counts equal the number of
    descriptors after any sequence of calls) and \<open>Transactions\<close> (calls end their file system operations, except for a refused \<open>open\<close>).
  \<^item> \<open>Asm\<close> (\<open>trampoline.S\<close>, \<open>kernelvec.S\<close>, \<open>swtch.S\<close>, \<open>entry.S\<close>): an interpreter for the instructions used; registers survive traps and switches.
  \<^item> \<open>Grep\<close> (\<open>user/grep.c\<close>): the matcher decides the language of its pattern, and the program prints the matching lines.
    \<open>Shell\<close> (\<open>user/sh.c\<close>): the parser returns or panics on every line, and its words are C strings after \<open>nulterminate\<close>;
    \<open>Shellprint\<close>: parsing the text of a command gives the command back.

  \<^bold>\<open>Bounds.\<close> Loops that the C code bounds by data get fuel from that data: the free list by the number of pages, descriptor chains
  by \<open>NUM\<close>, paths, strings and command lines by their length. The theorems that a function returns show that the fuel is
  enough; running out of it is \<open>Diverges\<close>, never a result. Waiting for a device has no bound and ends only under the
  hypothesis that the device becomes ready.

  \<^bold>\<open>Not modelled.\<close> Memory ordering (\<open>__sync_synchronize\<close>): steps are sequentially consistent. Accessors of control registers are fields of the
  state, not instructions. Inside one system call the sections of other processes are not interleaved, except in the
  theories on locks, scheduling, mutexes and the disk. Addresses that the linker chooses are parameters. Of the user programs, \<open>runcmd\<close> and
  \<open>main\<close> of the shell, the text interface \<open>ui.c\<close>, the tests and the small utilities are sequences of system calls with
  messages and are left out, as are \<open>umalloc.c\<close> and the image builder \<open>mkfs.c\<close>.
\<close>

end
